(* ===== verification/P2P_Prelude.thy ===== *)
theory P2P_Prelude
  imports Main "HOL-Library.Word" "HOL-Library.Char_ord" "HOL-Library.List_Lexorder"
    "HOL-Library.Sublist"
begin

unbundle bit_operations_syntax

text \<open>
  The prelude of the development: the error values and the result type of fallible C++ code,
  ordered maps (the parts of \<^verbatim>\<open>std::map\<close> the sources use: lookup, insertion, iteration in key
  order), \<^verbatim>\<open>std::getline\<close> splitting and its inverse, decimal output of unsigned numbers,
  and the big-endian byte layout of 32-bit lengths.  Everything here models the language and
  its standard library; the program itself starts in the component theories.
\<close>

section \<open>Shared collections and types\<close>

named_theorems omap_simps \<open>evaluation of ordered maps\<close>
named_theorems codec_simps \<open>splitting what was joined, parsing what was printed\<close>

type_synonym byte = "8 word"
type_synonym u16 = "16 word"
type_synonym u32 = "32 word"
type_synonym u64 = "64 word"

text \<open>
  What a C++ function can end with besides a value: the exceptions the sources throw or let
  escape, and undefined behaviour (an access past the end of a buffer), which the model keeps
  apart from every defined outcome.
\<close>

datatype error =
    Runtime_error string
  | Invalid_argument
  | Out_of_range
  | Undefined_behaviour

type_synonym 'a result = "error + 'a"

text \<open>Sequencing of fallible code: an exception skips the rest.\<close>

fun res_bind :: "'a result \<Rightarrow> ('a \<Rightarrow> 'b result) \<Rightarrow> 'b result" where
  "res_bind (Inl e) f = Inl e"
| "res_bind (Inr x) f = f x"

lemma res_bind_Inr_iff: "res_bind r f = Inr y \<longleftrightarrow> (\<exists>x. r = Inr x \<and> f x = Inr y)"
  by (cases r) auto

text \<open>A loop that applies a fallible function to every element, stopping at the first throw.\<close>

fun res_map :: "('a \<Rightarrow> 'b result) \<Rightarrow> 'a list \<Rightarrow> 'b list result" where
  "res_map f [] = Inr []"
| "res_map f (x # xs) = res_bind (f x) (\<lambda>y. res_bind (res_map f xs) (\<lambda>ys. Inr (y # ys)))"

lemma res_map_Inr:
  assumes "\<And>x. x \<in> set xs \<Longrightarrow> f (g x) = Inr x"
  shows "res_map f (map g xs) = Inr xs"
  using assms by (induction xs) auto

section \<open>Ordered maps\<close>

text \<open>
  \<^verbatim>\<open>std::map<K, V>\<close> keeps its entries sorted by key, one entry per key, and iterates in that
  order.  The order on \<^verbatim>\<open>std::string\<close> keys is lexicographic on unsigned bytes, which is the
  order of \<^typ>\<open>string\<close> here (\<^typ>\<open>char\<close> is a byte).
\<close>

typedef (overloaded) ('k::linorder, 'v) omap =
    "{xs :: ('k \<times> 'v) list. sorted_wrt (<) (map fst xs)}"
  morphisms items OMap
  by (rule exI [of _ "[]"]) simp

setup_lifting type_definition_omap

fun put_item :: "'k::linorder \<Rightarrow> 'v \<Rightarrow> ('k \<times> 'v) list \<Rightarrow> ('k \<times> 'v) list" where
  "put_item k v [] = [(k, v)]"
| "put_item k v (e # es) =
     (if fst e < k then e # put_item k v es
      else if k < fst e then (k, v) # e # es
      else (k, v) # es)"

lemma keys_put_item: "fst ` set (put_item k v es) = insert k (fst ` set es)"
  by (induction es) auto

lemma sorted_put_item:
  "sorted_wrt (<) (map fst es) \<Longrightarrow> sorted_wrt (<) (map fst (put_item k v es))"
proof (induction es)
  case Nil
  then show ?case by simp
next
  case (Cons e es)
  have "\<forall>a \<in> fst ` set (put_item k v es). fst e < a" if "fst e < k"
    using Cons.prems that by (auto simp: keys_put_item)
  with Cons show ?case by (auto intro: less_trans)
qed

lemma map_of_put_item: "map_of (put_item k v es) = (map_of es)(k \<mapsto> v)"
  by (induction es) (auto simp: fun_eq_iff)

lift_definition om_empty :: "('k::linorder, 'v) omap" is "[]"
  by simp

lift_definition om_update :: "'k::linorder \<Rightarrow> 'v \<Rightarrow> ('k, 'v) omap \<Rightarrow> ('k, 'v) omap" is put_item
  by (rule sorted_put_item)

lift_definition om_lookup :: "('k::linorder, 'v) omap \<Rightarrow> 'k \<Rightarrow> 'v option" is map_of .

lemma items_empty [simp, omap_simps]: "items om_empty = []"
  by (rule om_empty.rep_eq)

lemma items_update [simp, omap_simps]: "items (om_update k v m) = put_item k v (items m)"
  by (rule om_update.rep_eq)

lemma lookup_empty [simp, omap_simps]: "om_lookup om_empty k = None"
  by transfer simp

lemma lookup_update [simp, omap_simps]:
  "om_lookup (om_update k v m) j = (if j = k then Some v else om_lookup m j)"
  by transfer (simp add: map_of_put_item)

lemma sorted_items: "sorted_wrt (<) (map fst (items m))"
  using items [of m] by simp

lemma distinct_keys: "distinct (map fst (items m))"
  using strict_sorted_iff [of "map fst (items m)"] sorted_items [of m] by blast

lemma lookup_items: "om_lookup m k = Some v \<longleftrightarrow> (k, v) \<in> set (items m)"
  by (simp add: om_lookup.rep_eq map_of_eq_Some_iff distinct_keys)

lemma lookup_dom: "om_lookup m k \<noteq> None \<longleftrightarrow> k \<in> fst ` set (items m)"
  by (simp add: om_lookup.rep_eq map_of_eq_None_iff)

lemma omap_eqI:
  assumes "\<And>k. om_lookup m k = om_lookup n k"
  shows "m = n"
proof -
  have same: "set (items m) = set (items n)"
    using assms by (auto simp flip: lookup_items)
  have sd: "sorted (map fst (items x)) \<and> distinct (map fst (items x))" for x :: "('a, 'b) omap"
    using strict_sorted_iff [of "map fst (items x)"] sorted_items [of x] by blast
  then have "inj_on fst (set (items m) \<union> set (items n))"
    using same by (simp add: distinct_map)
  with sd same have "items m = items n"
    by (intro map_sorted_distinct_set_unique) auto
  then show ?thesis by (simp add: items_inject)
qed

lemma update_same: "om_update k v (om_update k w m) = om_update k v m"
  by (rule omap_eqI) simp

lemma update_commute: "j \<noteq> k \<Longrightarrow> om_update j v (om_update k w m) = om_update k w (om_update j v m)"
  by (rule omap_eqI) auto

lemma update_lookup_self: "om_lookup m k = Some v \<Longrightarrow> om_update k v m = m"
  by (rule omap_eqI) auto

text \<open>Inserting the items of a map one after the other, as a loop over the map does.\<close>

definition om_of_list :: "('k::linorder \<times> 'v) list \<Rightarrow> ('k, 'v) omap" where
  "om_of_list es = foldl (\<lambda>m e. om_update (fst e) (snd e) m) om_empty es"

lemma lookup_foldl_update:
  "om_lookup (foldl (\<lambda>m e. om_update (fst e) (snd e) m) m es) k =
     (case map_of (rev es) k of None \<Rightarrow> om_lookup m k | Some v \<Rightarrow> Some v)"
  by (induction es rule: rev_induct) auto

lemma lookup_om_of_list: "distinct (map fst es) \<Longrightarrow> om_lookup (om_of_list es) k = map_of es k"
proof -
  assume "distinct (map fst es)"
  then have "map_of (rev es) = map_of es"
    by (simp add: map_of_inject_set flip: rev_map)
  then show ?thesis
    by (simp add: om_of_list_def lookup_foldl_update split: option.split)
qed

lemma om_of_list_items [simp]: "om_of_list (items m) = m"
proof (rule omap_eqI)
  fix k
  have "om_lookup (om_of_list (items m)) k = map_of (items m) k"
    by (rule lookup_om_of_list) (rule distinct_keys)
  then show "om_lookup (om_of_list (items m)) k = om_lookup m k"
    by (simp only: om_lookup.rep_eq)
qed

instantiation omap :: (linorder, equal) equal
begin
definition equal_omap :: "('a, 'b) omap \<Rightarrow> ('a, 'b) omap \<Rightarrow> bool" where
  "equal_omap m n \<longleftrightarrow> items m = items n"
instance
  by standard (simp add: equal_omap_def items_inject)
end

section \<open>Splitting and joining text\<close>

text \<open>
  \<^verbatim>\<open>while (std::getline(ss, part, d))\<close>: the parts of \<open>s\<close> between occurrences of the
  delimiter \<open>d\<close>.  A delimiter at the very end opens no further part, and the empty text has
  none.
\<close>

function getlines :: "'a \<Rightarrow> 'a list \<Rightarrow> 'a list list" where
  "getlines d s =
     (if s = [] then []
      else takeWhile (\<lambda>c. c \<noteq> d) s # getlines d (drop 1 (dropWhile (\<lambda>c. c \<noteq> d) s)))"
  by pat_completeness auto
termination
proof (relation "measure (\<lambda>(d, s). length s)", goal_cases)
  case (2 d s)
  then show ?case
    using length_dropWhile_le [of "\<lambda>c. c \<noteq> d" s] by (cases s) auto
qed simp

declare getlines.simps [simp del]

lemma getlines_Nil [simp, codec_simps]: "getlines d [] = []"
  by (simp add: getlines.simps)

lemma getlines_part [codec_simps]: "d \<notin> set p \<Longrightarrow> getlines d (p @ d # s) = p # getlines d s"
proof -
  assume d: "d \<notin> set p"
  then have "\<forall>x \<in> set p. x \<noteq> d" by auto
  then have "takeWhile (\<lambda>c. c \<noteq> d) (p @ d # s) = p" "dropWhile (\<lambda>c. c \<noteq> d) (p @ d # s) = d # s"
    by (simp_all add: takeWhile_append dropWhile_append)
  then show ?thesis
    by (simp add: getlines.simps [of d "p @ d # s"])
qed

lemma getlines_last [codec_simps]: "d \<notin> set p \<Longrightarrow> getlines d p = (if p = [] then [] else [p])"
proof -
  assume "d \<notin> set p"
  then have parts: "takeWhile (\<lambda>c. c \<noteq> d) p = p" "dropWhile (\<lambda>c. c \<noteq> d) p = []"
    by (auto simp: takeWhile_eq_all_conv)
  show ?thesis
    using getlines.simps [of d p] by (simp only: parts drop_Nil getlines_Nil)
qed

lemma getlines_parts:
  "p \<in> set (getlines d s) \<Longrightarrow> d \<notin> set p \<and> set p \<subseteq> set s"
proof (induction d s rule: getlines.induct)
  case (1 d s)
  show ?case
  proof (cases "s = []")
    case False
    with 1(2) consider "p = takeWhile (\<lambda>c. c \<noteq> d) s"
      | "p \<in> set (getlines d (drop 1 (dropWhile (\<lambda>c. c \<noteq> d) s)))"
      by (auto simp: getlines.simps [of d s])
    then show ?thesis
    proof cases
      case 2
      have "set (drop 1 (dropWhile (\<lambda>c. c \<noteq> d) s)) \<subseteq> set s"
        by (meson set_drop_subset set_dropWhileD subset_iff)
      with 1(1) [OF False 2] show ?thesis by blast
    qed (auto dest: set_takeWhileD)
  qed (use 1(2) in simp)
qed

text \<open>
  The printing loops \<^verbatim>\<open>if (!first) oss << sep; oss << part\<close>: a separator between the parts.
\<close>

fun join :: "'a list \<Rightarrow> 'a list list \<Rightarrow> 'a list" where
  "join sep [] = []"
| "join sep [p] = p"
| "join sep (p # q # ps) = p @ sep @ join sep (q # ps)"

lemma set_join: "set (join sep ps) \<subseteq> set sep \<union> \<Union> (set ` set ps)"
  by (induction sep ps rule: join.induct) auto

lemma join_eq_Nil: "[] \<notin> set ps \<Longrightarrow> join sep ps = [] \<longleftrightarrow> ps = []"
  by (induction sep ps rule: join.induct) auto

lemma getlines_join [codec_simps]:
  assumes "\<forall>p \<in> set ps. d \<notin> set p" and "[] \<notin> set ps"
  shows "getlines d (join [d] ps) = ps"
  using assms by (induction "[d]" ps rule: join.induct) (auto simp: getlines_part getlines_last)

lemma getlines_terminated:
  assumes "\<forall>p \<in> set ps. d \<notin> set p"
  shows "getlines d (concat (map (\<lambda>p. p @ [d]) ps)) = ps"
  using assms by (induction ps) (auto simp: getlines_part)

section \<open>Decimal numbers\<close>

text \<open>\<^verbatim>\<open>oss << n\<close> for an unsigned number: decimal digits, no leading zero.\<close>

definition digit_char :: "nat \<Rightarrow> char" where
  "digit_char n = char_of (48 + n)"

fun dec_digits :: "nat \<Rightarrow> string" where
  "dec_digits n = (if n < 10 then [digit_char n] else dec_digits (n div 10) @ [digit_char (n mod 10)])"

declare dec_digits.simps [simp del]

section \<open>Bytes, characters and 32-bit lengths\<close>

definition char_of_byte :: "byte \<Rightarrow> char" where
  "char_of_byte b = char_of (unat b)"

definition byte_of_char :: "char \<Rightarrow> byte" where
  "byte_of_char c = of_char c"

text \<open>\<^verbatim>\<open>std::string(v.begin(), v.end())\<close> and \<^verbatim>\<open>std::vector<uint8_t>(s.begin(), s.end())\<close>.\<close>

abbreviation text_of_bytes :: "byte list \<Rightarrow> string" where
  "text_of_bytes \<equiv> map char_of_byte"

abbreviation bytes_of_text :: "string \<Rightarrow> byte list" where
  "bytes_of_text \<equiv> map byte_of_char"

lemma char_of_byte_of_char [simp]: "char_of_byte (byte_of_char c) = c"
proof -
  have "of_char c = (of_nat (of_char c) :: byte)" and "(of_char c :: nat) < 256"
    by (simp_all add: of_nat_of_char)
  then have "unat (of_char c :: byte) = of_char c"
    by (simp add: unat_of_nat)
  then show ?thesis by (simp add: char_of_byte_def byte_of_char_def)
qed

text \<open>
  The four bytes of a 32-bit length, most significant first: \<^verbatim>\<open>(len >> 24) & 0xff, \<dots>\<close>, and
  the length read back: \<^verbatim>\<open>(uint32_t(b0) << 24) | \<dots>\<close>.
\<close>

definition be32_bytes :: "u32 \<Rightarrow> byte list" where
  "be32_bytes w =
     [ucast (drop_bit 24 w AND 255), ucast (drop_bit 16 w AND 255),
      ucast (drop_bit 8 w AND 255), ucast (w AND 255)]"

definition be32_word :: "byte \<Rightarrow> byte \<Rightarrow> byte \<Rightarrow> byte \<Rightarrow> u32" where
  "be32_word a b c d =
     push_bit 24 (ucast a) OR push_bit 16 (ucast b) OR push_bit 8 (ucast c) OR ucast d"

lemma length_be32_bytes [simp]: "length (be32_bytes w) = 4"
  by (simp add: be32_bytes_def)

lemma byte_of_char_of_byte [simp]: "byte_of_char (char_of_byte b) = b"
proof -
  have "byte_of_char (char_of_byte b) = of_nat (of_char (char_of_byte b))"
    by (simp only: byte_of_char_def of_nat_of_char)
  also have "of_char (char_of_byte b) = unat b mod 256"
    by (simp add: char_of_byte_def)
  also have "unat b mod 256 = unat b"
    using unsigned_less [of b, where ?'a = nat] by simp
  finally show ?thesis by simp
qed

lemma text_of_bytes_of_text [simp]: "text_of_bytes (bytes_of_text s) = s"
  by (simp add: comp_def)

lemma and_255: "(x AND 255 :: u32) = take_bit 8 x"
  by (simp add: take_bit_eq_mask mask_eq_exp_minus_1)

lemma bit_low_byte: "bit (ucast (x AND 255 :: u32) :: byte) n \<longleftrightarrow> n < 8 \<and> bit x n"
  by (auto simp: and_255 bit_simps)

lemma bit_be32_word:
  "bit (be32_word a b c d) n \<longleftrightarrow>
     (if n < 8 then bit d n else if n < 16 then bit c (n - 8)
      else if n < 24 then bit b (n - 16) else n < 32 \<and> bit a (n - 24))"
  by (auto simp: be32_word_def bit_simps dest: bit_imp_le_length)

lemma be32_word_bytes:
  "be32_word (be32_bytes w ! 0) (be32_bytes w ! 1) (be32_bytes w ! 2) (be32_bytes w ! 3) = w"
  by (rule bit_eqI) (auto simp: bit_be32_word be32_bytes_def bit_low_byte bit_drop_bit_eq)

lemma be32_bytes_word: "be32_bytes (be32_word a b c d) = [a, b, c, d]"
  unfolding be32_bytes_def
  by (auto intro!: bit_eqI simp: bit_low_byte bit_be32_word bit_drop_bit_eq
      dest: bit_imp_le_length)

lemma take_bit_word_add: "take_bit n (a + b :: 'a::len word) = take_bit n (take_bit n a + take_bit n b)"
proof (rule unsigned_word_eqI [where ?'a = int])
  define m where "m = min n LENGTH('a)"
  have plus: "uint (x + y) = take_bit LENGTH('a) (uint x + uint y)" for x y :: "'a word"
    by (simp add: uint_word_ariths take_bit_eq_mod)
  have "take_bit m (uint a + uint b) = take_bit m (take_bit n (uint a) + take_bit n (uint b))"
    by (subst (1 2) take_bit_add [symmetric]) (simp add: m_def)
  then show "uint (take_bit n (a + b)) = uint (take_bit n (take_bit n a + take_bit n b))"
    by (simp add: unsigned_take_bit_eq plus m_def)
qed
end
