(* ===== verification/Sha256.thy ===== *)
theory Sha256
  imports P2P_Prelude
begin

unbundle bit_operations_syntax

text \<open>
  The hash of \<^verbatim>\<open>sha256.cpp\<close>: the context with its 64-byte buffer, \<^verbatim>\<open>process_block\<close>,
  \<^verbatim>\<open>update\<close>, \<^verbatim>\<open>finish\<close>, the entry points \<^verbatim>\<open>hash\<close> and \<^verbatim>\<open>combine\<close>, and
  \<^verbatim>\<open>to_hex\<close>.  The two loops whose end depends on the buffer state are partial functions
  with \<open>None\<close> for a run that never returns; the lemmas show that every call that the program
  makes returns, and what it returns.
\<close>

section \<open>Digests\<close>

text \<open>\<^verbatim>\<open>using Digest = std::array<uint8_t, 32>\<close>: exactly 32 bytes.\<close>

typedef Digest = "{bs :: byte list. length bs = 32}"
  morphisms digest_bytes Abs_Digest
  by (rule exI [of _ "replicate 32 0"]) simp

setup_lifting type_definition_Digest

text \<open>\<^verbatim>\<open>Digest d{}\<close> with the first bytes written: missing bytes stay 0.\<close>

definition digest_of :: "byte list \<Rightarrow> Digest" where
  "digest_of bs = Abs_Digest (take 32 (bs @ replicate 32 0))"

lemma digest_bytes_digest_of [code abstract]:
  "digest_bytes (digest_of bs) = take 32 (bs @ replicate 32 0)"
  by (simp add: digest_of_def Abs_Digest_inverse)

lemma length_digest_bytes [simp]: "length (digest_bytes d) = 32"
  using digest_bytes [of d] by simp

lemma digest_bytes_of: "length bs = 32 \<Longrightarrow> digest_bytes (digest_of bs) = bs"
  by (simp add: digest_bytes_digest_of)

lemma digest_of_bytes [simp]: "digest_of (digest_bytes d) = d"
  by (simp add: digest_bytes_digest_of flip: digest_bytes_inject)

lemma digest_of_eq_iff:
  "length bs = 32 \<Longrightarrow> length cs = 32 \<Longrightarrow> digest_of bs = digest_of cs \<longleftrightarrow> bs = cs"
  by (metis digest_bytes_of)

instantiation Digest :: equal
begin
definition equal_Digest :: "Digest \<Rightarrow> Digest \<Rightarrow> bool" where
  "equal_Digest d e \<longleftrightarrow> digest_bytes d = digest_bytes e"
instance
  by standard (simp add: equal_Digest_def digest_bytes_inject)
end

section \<open>The block function\<close>

definition K :: "u32 list" where
  "K = concat
    [[0x428a2f98, 0x71374491, 0xb5c0fbcf, 0xe9b5dba5, 0x3956c25b, 0x59f111f1, 0x923f82a4, 0xab1c5ed5],
     [0xd807aa98, 0x12835b01, 0x243185be, 0x550c7dc3, 0x72be5d74, 0x80deb1fe, 0x9bdc06a7, 0xc19bf174],
     [0xe49b69c1, 0xefbe4786, 0x0fc19dc6, 0x240ca1cc, 0x2de92c6f, 0x4a7484aa, 0x5cb0a9dc, 0x76f988da],
     [0x983e5152, 0xa831c66d, 0xb00327c8, 0xbf597fc7, 0xc6e00bf3, 0xd5a79147, 0x06ca6351, 0x14292967],
     [0x27b70a85, 0x2e1b2138, 0x4d2c6dfc, 0x53380d13, 0x650a7354, 0x766a0abb, 0x81c2c92e, 0x92722c85],
     [0xa2bfe8a1, 0xa81a664b, 0xc24b8b70, 0xc76c51a3, 0xd192e819, 0xd6990624, 0xf40e3585, 0x106aa070],
     [0x19a4c116, 0x1e376c08, 0x2748774c, 0x34b0bcb5, 0x391c0cb3, 0x4ed8aa4a, 0x5b9cca4f, 0x682e6ff3],
     [0x748f82ee, 0x78a5636f, 0x84c87814, 0x8cc70208, 0x90befffa, 0xa4506ceb, 0xbef9a3f7, 0xc67178f2]]"

definition rotr :: "u32 \<Rightarrow> nat \<Rightarrow> u32" where
  "rotr x n = drop_bit n x OR push_bit (32 - n) x"

text \<open>The words \<^verbatim>\<open>w[0..15]\<close> of a block, and one step of the loop that extends them to 64.\<close>

definition block_words :: "byte list \<Rightarrow> u32 list" where
  "block_words p =
     map (\<lambda>i. be32_word (p ! (i * 4)) (p ! (i * 4 + 1)) (p ! (i * 4 + 2)) (p ! (i * 4 + 3))) [0..<16]"

definition schedule_step :: "u32 list \<Rightarrow> nat \<Rightarrow> u32 list" where
  "schedule_step w i =
     (let s0 = rotr (w ! (i - 15)) 7 XOR rotr (w ! (i - 15)) 18 XOR drop_bit 3 (w ! (i - 15));
          s1 = rotr (w ! (i - 2)) 17 XOR rotr (w ! (i - 2)) 19 XOR drop_bit 10 (w ! (i - 2))
      in w @ [w ! (i - 16) + s0 + w ! (i - 7) + s1])"

definition message_schedule :: "byte list \<Rightarrow> u32 list" where
  "message_schedule p = foldl schedule_step (block_words p) [16..<64]"

type_synonym working = "u32 \<times> u32 \<times> u32 \<times> u32 \<times> u32 \<times> u32 \<times> u32 \<times> u32"

fun round_step :: "u32 list \<Rightarrow> working \<Rightarrow> nat \<Rightarrow> working" where
  "round_step w (a, b, c, d, e, f, g, hh) i =
     (let S1 = rotr e 6 XOR rotr e 11 XOR rotr e 25;
          ch = (e AND f) XOR (NOT e AND g);
          temp1 = hh + S1 + ch + K ! i + w ! i;
          S0 = rotr a 2 XOR rotr a 13 XOR rotr a 22;
          maj = (a AND b) XOR (a AND c) XOR (b AND c);
          temp2 = S0 + maj
      in (temp1 + temp2, a, b, c, d + temp1, e, f, g))"

definition process_block :: "u32 list \<Rightarrow> byte list \<Rightarrow> u32 list" where
  "process_block h p =
     (case foldl (round_step (message_schedule p))
             (h ! 0, h ! 1, h ! 2, h ! 3, h ! 4, h ! 5, h ! 6, h ! 7) [0..<64] of
        (a, b, c, d, e, f, g, hh) \<Rightarrow>
          [h ! 0 + a, h ! 1 + b, h ! 2 + c, h ! 3 + d, h ! 4 + e, h ! 5 + f, h ! 6 + g, h ! 7 + hh])"

section \<open>The context\<close>

text \<open>
  \<^verbatim>\<open>struct Sha256Ctx\<close>.  The C++ leaves \<^verbatim>\<open>buffer\<close> uninitialised; the model takes its
  first contents as an argument, so that nothing rests on them.
\<close>

record Sha256Ctx =
  ctx_h :: "u32 list"
  bit_len :: u64
  buffer :: "byte list"
  buf_len :: nat

definition H0 :: "u32 list" where
  "H0 = [0x6a09e667, 0xbb67ae85, 0x3c6ef372, 0xa54ff53a,
         0x510e527f, 0x9b05688c, 0x1f83d9ab, 0x5be0cd19]"

definition new_ctx :: "byte list \<Rightarrow> Sha256Ctx" where
  "new_ctx junk = \<lparr>ctx_h = H0, bit_len = 0, buffer = junk, buf_len = 0\<rparr>"

text \<open>\<^verbatim>\<open>std::memcpy(buf + off, src, src.size())\<close> inside one array.\<close>

definition memcpy_at :: "byte list \<Rightarrow> nat \<Rightarrow> byte list \<Rightarrow> byte list" where
  "memcpy_at buf off src = take off buf @ src @ drop (off + length src) buf"

text \<open>The body of the loop of \<^verbatim>\<open>update\<close>: copy what fits, process a full buffer.\<close>

definition update_body :: "Sha256Ctx \<Rightarrow> byte list \<Rightarrow> Sha256Ctx \<times> byte list" where
  "update_body c data =
     (let n = min (length data) (64 - buf_len c);
          c1 = c\<lparr>buffer := memcpy_at (buffer c) (buf_len c) (take n data), buf_len := buf_len c + n\<rparr>;
          c2 = (if buf_len c1 = 64
                then c1\<lparr>ctx_h := process_block (ctx_h c1) (buffer c1), buf_len := 0\<rparr>
                else c1)
      in (c2, drop n data))"

partial_function (option) update_loop :: "Sha256Ctx \<Rightarrow> byte list \<Rightarrow> Sha256Ctx option" where
  "update_loop c data =
     (if data = [] then Some c
      else update_loop (fst (update_body c data)) (snd (update_body c data)))"

definition sha_update :: "Sha256Ctx \<Rightarrow> byte list \<Rightarrow> Sha256Ctx option" where
  "sha_update c data =
     update_loop (c\<lparr>bit_len := bit_len c + word_of_nat (length data) * 8\<rparr>) data"

text \<open>\<^verbatim>\<open>while (buf_len != 56) update(&zero, 1);\<close>\<close>

partial_function (option) pad_zeros :: "Sha256Ctx \<Rightarrow> Sha256Ctx option" where
  "pad_zeros c =
     (if buf_len c = 56 then Some c else Option.bind (sha_update c [0]) pad_zeros)"

text \<open>The eight bytes of \<^verbatim>\<open>bit_len\<close>, most significant first.\<close>

definition be64_bytes :: "u64 \<Rightarrow> byte list" where
  "be64_bytes w = map (\<lambda>i. ucast (drop_bit (8 * (7 - i)) w AND 255)) [0..<8]"

text \<open>The output loop of \<^verbatim>\<open>finish\<close>: the words of the state as bytes.\<close>

definition output_bytes :: "u32 list \<Rightarrow> byte list" where
  "output_bytes h = concat (map (\<lambda>i. be32_bytes (h ! i)) [0..<8])"

definition finish :: "Sha256Ctx \<Rightarrow> Digest option" where
  "finish c =
     Option.bind (sha_update c [0x80]) (\<lambda>c1.
     Option.bind (pad_zeros c1) (\<lambda>c2.
       let bl = bit_len c2;
           buf = memcpy_at (buffer c2) 56 (be64_bytes bl);
           h = process_block (ctx_h c2) buf
       in Some (digest_of (output_bytes h))))"

text \<open>
  \<^verbatim>\<open>hash(data, len)\<close> with the uninitialised buffer made explicit, and the function the rest
  of the program calls (the digest does not depend on the buffer: \<open>hash_ctx_eq\<close> below).
\<close>

definition hash_ctx :: "byte list \<Rightarrow> byte list \<Rightarrow> Digest option" where
  "hash_ctx junk data = Option.bind (sha_update (new_ctx junk) data) finish"

definition hash :: "byte list \<Rightarrow> Digest" where
  "hash data = the (hash_ctx (replicate 64 0) data)"

definition combine :: "Digest \<Rightarrow> Digest \<Rightarrow> Digest" where
  "combine l r = hash (digest_bytes l @ digest_bytes r)"

section \<open>What the streaming code computes\<close>

text \<open>
  The reference: cut the padded message into 64-byte blocks and fold the block function over
  them.  \<open>absorb\<close> returns the state after all full blocks and the bytes left over.
\<close>

function absorb :: "u32 list \<Rightarrow> byte list \<Rightarrow> u32 list \<times> byte list" where
  "absorb h xs =
     (if length xs < 64 then (h, xs) else absorb (process_block h (take 64 xs)) (drop 64 xs))"
  by pat_completeness auto
termination
  by (relation "measure (\<lambda>(h, xs). length xs)") auto

declare absorb.simps [simp del]

lemma absorb_short: "length xs < 64 \<Longrightarrow> absorb h xs = (h, xs)"
  by (simp add: absorb.simps)

lemma absorb_block: "length b = 64 \<Longrightarrow> absorb h (b @ xs) = absorb (process_block h b) xs"
  by (simp add: absorb.simps [of h "b @ xs"])

lemma absorb_rest: "length (snd (absorb h xs)) < 64"
  by (induction h xs rule: absorb.induct) (simp add: absorb.simps)

lemma absorb_rest_length: "length (snd (absorb h xs)) = length xs mod 64"
proof (induction h xs rule: absorb.induct)
  case (1 h xs)
  then show ?case
    by (cases "length xs < 64") (auto simp: absorb.simps [of h xs] le_mod_geq)
qed

lemma absorb_append: "absorb h (xs @ ys) = (case absorb h xs of (h', r) \<Rightarrow> absorb h' (r @ ys))"
proof (induction h xs rule: absorb.induct)
  case (1 h xs)
  show ?case
  proof (cases "length xs < 64")
    case True
    then show ?thesis by (simp add: absorb_short)
  next
    case False
    have "absorb h (xs @ ys) = absorb (process_block h (take 64 xs)) (drop 64 xs @ ys)"
      using False absorb_block [of "take 64 xs" h "drop 64 xs @ ys"] by (simp flip: append_assoc)
    with 1 False show ?thesis by (simp add: absorb.simps [of h xs])
  qed
qed

text \<open>The bytes waiting in the buffer, and the invariant between calls.\<close>

definition pending :: "Sha256Ctx \<Rightarrow> byte list" where
  "pending c = take (buf_len c) (buffer c)"

definition ctx_ok :: "Sha256Ctx \<Rightarrow> bool" where
  "ctx_ok c \<longleftrightarrow> length (buffer c) = 64 \<and> buf_len c < 64"

lemma length_pending: "ctx_ok c \<Longrightarrow> length (pending c) = buf_len c"
  by (simp add: ctx_ok_def pending_def)

lemma update_body_step:
  assumes "ctx_ok c" and "data \<noteq> []" and "update_body c data = (c', rest)"
  shows "ctx_ok c'" and "bit_len c' = bit_len c" and "length rest < length data"
    and "absorb (ctx_h c') (pending c' @ rest) = absorb (ctx_h c) (pending c @ data)"
proof -
  define n where "n = min (length data) (64 - buf_len c)"
  define buf where "buf = memcpy_at (buffer c) (buf_len c) (take n data)"
  have ok: "length (buffer c) = 64" "buf_len c < 64" "0 < n" "n \<le> length data" "n \<le> 64 - buf_len c"
    using assms(1,2) by (auto simp: ctx_ok_def n_def)
  then have len: "length buf = 64"
    by (auto simp: buf_def memcpy_at_def)
  have take_buf: "take (buf_len c + n) buf = pending c @ take n data"
    using ok by (simp add: buf_def memcpy_at_def pending_def)
  have rest: "rest = drop n data"
    using assms(3) by (auto simp: update_body_def n_def Let_def)
  then show "length rest < length data"
    using ok assms(2) by simp
  have c': "c' = (if buf_len c + n = 64
      then c\<lparr>ctx_h := process_block (ctx_h c) buf, buffer := buf, buf_len := 0\<rparr>
      else c\<lparr>buffer := buf, buf_len := buf_len c + n\<rparr>)"
    using assms(3) by (auto simp: update_body_def n_def buf_def Let_def)
  show "ctx_ok c'" "bit_len c' = bit_len c"
    using c' ok len by (auto simp: ctx_ok_def)
  have split: "pending c @ data = (pending c @ take n data) @ rest"
    using rest by simp
  show "absorb (ctx_h c') (pending c' @ rest) = absorb (ctx_h c) (pending c @ data)"
  proof (cases "buf_len c + n = 64")
    case True
    then have "pending c @ take n data = buf"
      using take_buf len by simp
    then have "pending c @ data = buf @ rest"
      using split by (simp only:)
    moreover have "pending c' = []" "ctx_h c' = process_block (ctx_h c) buf"
      using True c' by (simp_all add: pending_def)
    ultimately show ?thesis
      using len by (simp only: absorb_block append_Nil)
  next
    case False
    with c' take_buf split show ?thesis
      by (simp add: pending_def)
  qed
qed

lemma update_loop_absorbs:
  assumes "ctx_ok c"
  shows "\<exists>c'. update_loop c data = Some c' \<and> ctx_ok c' \<and> bit_len c' = bit_len c \<and>
           (ctx_h c', pending c') = absorb (ctx_h c) (pending c @ data)"
  using assms
proof (induction data arbitrary: c rule: length_induct)
  case (1 data)
  show ?case
  proof (cases "data = []")
    case True
    with 1 show ?thesis
      by (simp add: update_loop.simps absorb_short length_pending ctx_ok_def)
  next
    case False
    obtain c1 rest where body: "update_body c data = (c1, rest)"
      by fastforce
    note step = update_body_step [OF 1(2) False body]
    obtain c' where "update_loop c1 rest = Some c'" "ctx_ok c'" "bit_len c' = bit_len c1"
        "(ctx_h c', pending c') = absorb (ctx_h c1) (pending c1 @ rest)"
      using 1(1) step by blast
    with step False body show ?thesis
      by (simp add: update_loop.simps [of c data])
  qed
qed

lemma sha_update_absorbs:
  assumes "ctx_ok c"
  shows "\<exists>c'. sha_update c data = Some c' \<and> ctx_ok c' \<and>
           bit_len c' = bit_len c + word_of_nat (8 * length data) \<and>
           (ctx_h c', pending c') = absorb (ctx_h c) (pending c @ data)"
proof -
  define c0 where "c0 = c\<lparr>bit_len := bit_len c + word_of_nat (length data) * 8\<rparr>"
  have "ctx_ok c0" "ctx_h c0 = ctx_h c" "pending c0 = pending c"
    using assms by (simp_all add: c0_def ctx_ok_def pending_def)
  then show ?thesis
    using update_loop_absorbs [of c0 data] by (auto simp: sha_update_def c0_def mult.commute)
qed

text \<open>How many zero bytes the padding loop adds when \<open>b\<close> bytes wait in the buffer.\<close>

definition zeros_after :: "nat \<Rightarrow> nat" where
  "zeros_after b = (120 - b mod 64) mod 64"

lemma zeros_after_less: "zeros_after b < 64"
  by (simp add: zeros_after_def)

lemma zeros_after_fills: "(b + zeros_after b) mod 64 = 56"
proof -
  have "b mod 64 < 64" by simp
  then have "(b mod 64 + (120 - b mod 64) mod 64) mod 64 = 56"
    unfolding mod_add_right_eq by simp
  then show ?thesis
    by (simp add: zeros_after_def mod_add_left_eq)
qed

lemma zeros_after_step: "b < 64 \<Longrightarrow> b \<noteq> 56 \<Longrightarrow> zeros_after b = Suc (zeros_after (Suc b))"
proof -
  assume b: "b < 64" "b \<noteq> 56"
  show ?thesis
  proof (cases "b < 56")
    case True
    then have "(120 - b) mod 64 = 56 - b" "(120 - Suc b) mod 64 = 56 - Suc b"
      by (simp_all add: mod_if)
    with True show ?thesis by (simp add: zeros_after_def)
  next
    case False
    with b have "Suc b = 64 \<or> Suc b < 64" by linarith
    then show ?thesis
    proof
      assume "Suc b = 64"
      then have "b = 63" by simp
      then show ?thesis by (simp add: zeros_after_def)
    next
      assume "Suc b < 64"
      with False b show ?thesis by (simp add: zeros_after_def)
    qed
  qed
qed

lemma pad_zeros_absorbs:
  assumes "ctx_ok c"
  shows "\<exists>c'. pad_zeros c = Some c' \<and> ctx_ok c' \<and> buf_len c' = 56 \<and>
           bit_len c' = bit_len c + word_of_nat (8 * zeros_after (buf_len c)) \<and>
           (ctx_h c', pending c') =
             absorb (ctx_h c) (pending c @ replicate (zeros_after (buf_len c)) 0)"
  using assms
proof (induction "zeros_after (buf_len c)" arbitrary: c)
  case 0
  then have "buf_len c = 56"
    using zeros_after_fills [of "buf_len c"] by (simp add: ctx_ok_def)
  with 0 show ?case
    by (simp add: pad_zeros.simps zeros_after_def absorb_short length_pending)
next
  case (Suc z)
  have ne: "buf_len c \<noteq> 56"
    using Suc.hyps(2) by (auto simp: zeros_after_def)
  obtain c1 where c1: "sha_update c [0] = Some c1" "ctx_ok c1" "bit_len c1 = bit_len c + word_of_nat 8"
      "(ctx_h c1, pending c1) = absorb (ctx_h c) (pending c @ [0])"
    using sha_update_absorbs [OF Suc.prems, of "[0]"] by auto
  have "snd (absorb (ctx_h c) (pending c @ [0])) = pending c1"
    by (simp only: c1(4) [symmetric] snd_conv)
  then have "buf_len c1 = Suc (buf_len c) mod 64"
    using absorb_rest_length [of "ctx_h c" "pending c @ [0]"] c1(2)
    by (simp add: length_pending Suc.prems)
  then have z1: "zeros_after (buf_len c1) = z"
    using zeros_after_step [OF _ ne] Suc.hyps(2) Suc.prems
    by (simp add: ctx_ok_def zeros_after_def)
  obtain c' where c': "pad_zeros c1 = Some c'" "ctx_ok c'" "buf_len c' = 56"
      "bit_len c' = bit_len c1 + word_of_nat (8 * z)"
      "(ctx_h c', pending c') = absorb (ctx_h c1) (pending c1 @ replicate z 0)"
    using Suc.hyps(1) [OF z1 [symmetric] c1(2)] z1 by auto
  have "absorb (ctx_h c) (pending c @ replicate (Suc z) 0) =
      absorb (ctx_h c1) (pending c1 @ replicate z 0)"
    using absorb_append [of "ctx_h c" "pending c @ [0]" "replicate z 0"]
    unfolding c1(4) [symmetric] by simp
  moreover have "word_of_nat (8 * Suc z) = (word_of_nat 8 + word_of_nat (8 * z) :: u64)"
    by simp
  ultimately show ?case
    using c1 c' ne by (simp add: pad_zeros.simps [of c] Suc.hyps(2) [symmetric] add.assoc)
qed

text \<open>
  The message as the code pads it.  The length field holds the bit length of everything that
  went through \<^verbatim>\<open>update\<close>, the padding bytes included.
\<close>

definition sha_pad :: "byte list \<Rightarrow> byte list" where
  "sha_pad m =
     (let z = zeros_after (length m + 1)
      in m @ [0x80] @ replicate z 0 @ be64_bytes (word_of_nat (8 * (length m + 1 + z))))"

definition blocks64 :: "byte list \<Rightarrow> byte list list" where
  "blocks64 xs = map (\<lambda>i. take 64 (drop (64 * i) xs)) [0..<length xs div 64]"

definition sha_reference :: "byte list \<Rightarrow> Digest" where
  "sha_reference m = digest_of (output_bytes (foldl process_block H0 (blocks64 (sha_pad m))))"

lemma length_be64_bytes [simp]: "length (be64_bytes w) = 8"
  by (simp add: be64_bytes_def)

lemma blocks64_step:
  assumes "64 \<le> length xs"
  shows "blocks64 xs = take 64 xs # blocks64 (drop 64 xs)"
proof -
  have len: "length xs div 64 = Suc ((length xs - 64) div 64)"
    using assms by (simp add: le_div_geq)
  have "[0..<Suc n] = 0 # map Suc [0..<n]" for n
    by (simp add: map_Suc_upt upt_conv_Cons)
  then show ?thesis
    unfolding blocks64_def len by (simp add: add.commute)
qed

lemma absorb_blocks: "fst (absorb h xs) = foldl process_block h (blocks64 xs)"
proof (induction h xs rule: absorb.induct)
  case (1 h xs)
  show ?case
  proof (cases "length xs < 64")
    case True
    then show ?thesis by (simp add: absorb_short blocks64_def)
  next
    case False
    with 1 show ?thesis by (simp add: absorb.simps [of h xs] blocks64_step)
  qed
qed

lemma memcpy_at_pending:
  assumes "ctx_ok c" and "buf_len c = 56" and "length l = 8"
  shows "memcpy_at (buffer c) 56 l = pending c @ l"
  using assms by (simp add: memcpy_at_def pending_def ctx_ok_def)

lemma finish_absorbs:
  assumes ok: "ctx_ok c"
  defines "z \<equiv> zeros_after (Suc (buf_len c))"
  shows "finish c = Some (digest_of (output_bytes (fst (absorb (ctx_h c)
    (pending c @ [0x80] @ replicate z 0 @ be64_bytes (bit_len c + word_of_nat (8 * (1 + z))))))))"
proof -
  obtain c1 where c1: "sha_update c [0x80] = Some c1" "ctx_ok c1" "bit_len c1 = bit_len c + word_of_nat 8"
      "(ctx_h c1, pending c1) = absorb (ctx_h c) (pending c @ [0x80])"
    using sha_update_absorbs [OF ok, of "[0x80]"] by auto
  have "snd (absorb (ctx_h c) (pending c @ [0x80])) = pending c1"
    by (simp only: c1(4) [symmetric] snd_conv)
  then have "buf_len c1 = Suc (buf_len c) mod 64"
    using absorb_rest_length [of "ctx_h c" "pending c @ [0x80]"] c1(2) by (simp add: length_pending ok)
  then have z: "zeros_after (buf_len c1) = z"
    by (simp add: z_def zeros_after_def)
  obtain c2 where c2: "pad_zeros c1 = Some c2" "ctx_ok c2" "buf_len c2 = 56"
      "bit_len c2 = bit_len c1 + word_of_nat (8 * z)"
      "(ctx_h c2, pending c2) = absorb (ctx_h c1) (pending c1 @ replicate z 0)"
    using pad_zeros_absorbs [OF c1(2)] z by auto
  define l where "l = be64_bytes (bit_len c2)"
  have "absorb (ctx_h c) (pending c @ [0x80] @ replicate z 0 @ l) =
      absorb (ctx_h c1) (pending c1 @ replicate z 0 @ l)"
    using absorb_append [of "ctx_h c" "pending c @ [0x80]" "replicate z 0 @ l"]
    unfolding c1(4) [symmetric] by simp
  also have "\<dots> = absorb (ctx_h c2) (pending c2 @ l)"
    using absorb_append [of "ctx_h c1" "pending c1 @ replicate z 0" l]
    unfolding c2(5) [symmetric] by simp
  also have "\<dots> = absorb (process_block (ctx_h c2) (pending c2 @ l)) []"
    using absorb_block [of "pending c2 @ l" "ctx_h c2" "[]"] c2(2,3)
    by (simp add: l_def length_pending)
  finally have "fst (absorb (ctx_h c) (pending c @ [0x80] @ replicate z 0 @ l)) =
      process_block (ctx_h c2) (pending c2 @ l)"
    by (simp add: absorb_short)
  moreover have "bit_len c2 = bit_len c + word_of_nat (8 * (1 + z))"
    using c1(3) c2(4) by simp
  ultimately show ?thesis
    using c1 c2 by (simp add: finish_def Let_def memcpy_at_pending l_def add.assoc)
qed

lemma hash_ctx_eq:
  assumes "length junk = 64"
  shows "hash_ctx junk m = Some (sha_reference m)"
proof -
  have ok: "ctx_ok (new_ctx junk)" "pending (new_ctx junk) = []" "ctx_h (new_ctx junk) = H0"
      "bit_len (new_ctx junk) = 0"
    using assms by (simp_all add: new_ctx_def ctx_ok_def pending_def)
  obtain c where c: "sha_update (new_ctx junk) m = Some c" "ctx_ok c"
      "bit_len c = word_of_nat (8 * length m)" "(ctx_h c, pending c) = absorb H0 m"
    using sha_update_absorbs [OF ok(1), of m] ok by auto
  have "snd (absorb H0 m) = pending c"
    by (simp only: c(4) [symmetric] snd_conv)
  then have "buf_len c = length m mod 64"
    using absorb_rest_length [of H0 m] c(2) by (simp add: length_pending)
  then have z: "zeros_after (Suc (buf_len c)) = zeros_after (length m + 1)"
    by (simp add: zeros_after_def mod_Suc_eq)
  define t where "t = [0x80] @ replicate (zeros_after (length m + 1)) 0 @
    be64_bytes (word_of_nat (8 * (length m + 1 + zeros_after (length m + 1))))"
  have "absorb H0 (m @ t) = absorb (ctx_h c) (pending c @ t)"
    using absorb_append [of H0 m t] unfolding c(4) [symmetric] by simp
  moreover have "sha_pad m = m @ t"
    by (simp add: sha_pad_def t_def Let_def)
  ultimately show ?thesis
    using finish_absorbs [OF c(2)] c(1,3)
    by (simp add: hash_ctx_def sha_reference_def z t_def algebra_simps flip: absorb_blocks)
qed

section \<open>Hexadecimal names of digests\<close>

definition hex_digit :: "nat \<Rightarrow> char" where
  "hex_digit n = char_of (if n < 10 then 48 + n else 87 + n)"

text \<open>\<^verbatim>\<open>std::setw(2) << static_cast<int>(b)\<close> under \<^verbatim>\<open>std::hex\<close>, \<^verbatim>\<open>setfill('0')\<close>.\<close>

definition byte_hex :: "byte \<Rightarrow> string" where
  "byte_hex b = [hex_digit (unat b div 16), hex_digit (unat b mod 16)]"

definition to_hex :: "Digest \<Rightarrow> string" where
  "to_hex d = concat (map byte_hex (digest_bytes d))"

lemma of_char_hex_digit: "n < 16 \<Longrightarrow> of_char (hex_digit n) = (if n < 10 then 48 + n else 87 + n)"
  by (simp add: hex_digit_def)

lemma hex_digit_inject: "m < 16 \<Longrightarrow> n < 16 \<Longrightarrow> hex_digit m = hex_digit n \<longleftrightarrow> m = n"
proof -
  assume mn: "m < 16" "n < 16"
  have "hex_digit m = hex_digit n \<longleftrightarrow> (of_char (hex_digit m) :: nat) = of_char (hex_digit n)"
    by simp
  then show ?thesis
    using mn by (auto simp: of_char_hex_digit split: if_splits)
qed

lemma unat_byte_less: "unat (b :: byte) < 256"
  using unsigned_less [of b, where ?'a = nat] by simp

lemma byte_nibbles: "unat (b :: byte) div 16 < 16" "unat b mod 16 < 16"
  using unat_byte_less [of b] by (simp_all add: div_less_iff_less_mult)

lemma byte_hex_inject: "byte_hex a = byte_hex b \<longleftrightarrow> a = b"
proof
  assume "byte_hex a = byte_hex b"
  then have "unat a div 16 = unat b div 16" "unat a mod 16 = unat b mod 16"
    by (simp_all add: byte_hex_def hex_digit_inject byte_nibbles)
  then have "unat a = unat b"
    by (metis div_mult_mod_eq)
  then show "a = b" by (rule unsigned_word_eqI)
qed simp

lemma concat_byte_hex_inject: "concat (map byte_hex xs) = concat (map byte_hex ys) \<longleftrightarrow> xs = ys"
proof (induction xs arbitrary: ys)
  case Nil
  then show ?case by (cases ys) (simp_all add: byte_hex_def)
next
  case (Cons x xs)
  have len: "length (byte_hex b) = 2" for b
    by (simp add: byte_hex_def)
  show ?case
  proof (cases ys)
    case Nil
    then show ?thesis by (simp add: byte_hex_def)
  next
    case (Cons y ys')
    with Cons.IH show ?thesis by (simp add: len byte_hex_inject)
  qed
qed

lemma to_hex_inject [simp]: "to_hex d = to_hex e \<longleftrightarrow> d = e"
  by (simp add: to_hex_def concat_byte_hex_inject digest_bytes_inject)

lemma length_to_hex [simp]: "length (to_hex d) = 64"
proof -
  have "length (concat (map byte_hex xs)) = 2 * length xs" for xs
    by (induction xs) (simp_all add: byte_hex_def)
  then show ?thesis by (simp add: to_hex_def)
qed

text \<open>Only the sixteen lower-case digits occur in a name.\<close>

lemma set_to_hex: "set (to_hex d) \<subseteq> hex_digit ` {0..<16}"
  using byte_nibbles by (fastforce simp: to_hex_def byte_hex_def)

lemma to_hex_chars:
  "c \<in> set (to_hex d) \<Longrightarrow> 48 \<le> (of_char c :: nat) \<and> (of_char c :: nat) < 103 \<and> (of_char c :: nat) \<noteq> 58"
  using set_to_hex [of d] by (auto simp: of_char_hex_digit image_iff split: if_splits)

section \<open>Padding facts\<close>

lemma be64_bytes_inject: "be64_bytes v = be64_bytes w \<longleftrightarrow> v = w"
proof
  assume eq: "be64_bytes v = be64_bytes w"
  have "(x AND 255 :: u64) = take_bit 8 x" for x
    by (simp add: take_bit_eq_mask mask_eq_exp_minus_1)
  then have low: "bit (ucast (x AND 255 :: u64) :: byte) k \<longleftrightarrow> k < 8 \<and> bit x k" for x k
    by (auto simp: bit_simps)
  show "v = w"
  proof (rule bit_eqI)
    fix n
    assume "possible_bit TYPE(u64) n"
    then have n: "n < 64" by simp
    define i where "i = 7 - n div 8"
    have i: "i < 8" "8 * (7 - i) + n mod 8 = n"
      using n by (simp_all add: i_def)
    have "be64_bytes x ! i = ucast (drop_bit (8 * (7 - i)) x AND 255)" for x
      using i(1) by (simp add: be64_bytes_def)
    with eq have "bit (ucast (drop_bit (8 * (7 - i)) v AND 255) :: byte) (n mod 8) =
        bit (ucast (drop_bit (8 * (7 - i)) w AND 255) :: byte) (n mod 8)"
      by metis
    then show "bit v n = bit w n"
      using i(2) by (simp add: low bit_drop_bit_eq)
  qed
qed simp

lemma marker_stripped:
  assumes "xs @ a # replicate m z = ys @ a # replicate n z" and "a \<noteq> z"
  shows "xs = ys"
proof -
  have "takeWhile (\<lambda>x. x = z) (rev (us @ a # replicate k z)) = replicate k z" for us k
    using assms(2) by (simp add: takeWhile_append)
  with assms(1) have "replicate m z = replicate n z"
    by metis
  then have "m = n" by (metis length_replicate)
  with assms show ?thesis by simp
qed

lemma sha_pad_body:
  "take (length (sha_pad m) - 8) (sha_pad m) = m @ 0x80 # replicate (zeros_after (length m + 1)) 0"
  by (simp add: sha_pad_def Let_def)

text \<open>The padding of the standard: the length field holds the bit length of the message alone.\<close>

definition fips_pad :: "byte list \<Rightarrow> byte list" where
  "fips_pad m =
     m @ [0x80] @ replicate (zeros_after (length m + 1)) 0 @ be64_bytes (word_of_nat (8 * length m))"

lemma length_field_shift:
  assumes "0 < k" and "k \<le> 64"
  shows "(word_of_nat (8 * (n + k)) :: u64) \<noteq> word_of_nat (8 * n)"
proof
  assume "(word_of_nat (8 * (n + k)) :: u64) = word_of_nat (8 * n)"
  then have "(word_of_nat (8 * n) + word_of_nat (8 * k) :: u64) = word_of_nat (8 * n) + 0"
    by (simp add: algebra_simps)
  then have "(word_of_nat (8 * k) :: u64) = 0"
    by (simp only: add_left_cancel)
  then have "2 ^ 64 dvd 8 * k"
    by (simp only: word_of_nat_eq_0_iff) simp
  then have "(8 * k) mod 2 ^ 64 = 0"
    by (simp only: dvd_eq_mod_eq_0)
  with assms show False by simp
qed

section \<open>Properties\<close>

text \<open>
  Claim C9. Hashing returns for every message and every content of the uninitialised buffer,
  and the digest is the block function folded over the 64-byte blocks of the padded message:
  the buffering of \<^verbatim>\<open>update\<close> and the padding loop of \<^verbatim>\<open>finish\<close> lose, repeat and reorder
  nothing.
\<close>

theorem hash_blockwise:
  assumes "length junk = 64"
  shows "hash_ctx junk m = Some (hash m) \<and>
    hash m = digest_of (output_bytes (foldl process_block H0 (blocks64 (sha_pad m))))"
proof -
  have "hash m = sha_reference m"
    using hash_ctx_eq [of "replicate 64 0" m] by (simp add: hash_def)
  with hash_ctx_eq [OF assms, of m] show ?thesis
    by (simp add: sha_reference_def)
qed

theorem hash_blockwise_witness:
  "hash_ctx (replicate 64 7) [1, 2, 3] = Some (hash [1, 2, 3]) \<and>
   hash [1, 2, 3] = digest_of (output_bytes (foldl process_block H0 (blocks64 (sha_pad [1, 2, 3]))))"
  by (rule hash_blockwise) simp

text \<open>
  The padding is injective and fills whole blocks: two messages with the same padded
  form are equal, so no two messages are identified before the block function runs.
\<close>

lemma sha_pad_injective:
  "(sha_pad m = sha_pad n \<longleftrightarrow> m = n) \<and> length (sha_pad m) mod 64 = 0"
proof
  have "m = n" if "sha_pad m = sha_pad n"
    using that sha_pad_body [of m] sha_pad_body [of n] by (auto dest: marker_stripped)
  then show "sha_pad m = sha_pad n \<longleftrightarrow> m = n" by auto
  have "(length m + 1 + zeros_after (length m + 1) + 8) mod 64 = (56 + 8) mod 64"
    by (metis mod_add_left_eq zeros_after_fills)
  then show "length (sha_pad m) mod 64 = 0"
    by (simp add: sha_pad_def Let_def algebra_simps)
qed


end
