(* ===== verification/Chunker.thy ===== *)
theory Chunker
  imports Sha256
begin

unbundle bit_operations_syntax

text \<open>
  \<^verbatim>\<open>rolling_hash.hpp\<close> and \<^verbatim>\<open>chunker.cpp\<close>: the gear rolling hash and content-defined
  chunking.  Offsets and sizes (\<^verbatim>\<open>size_t\<close>) are natural numbers: they never exceed the size of
  a vector in memory, so none of the additions on them wraps.  The hash keeps its 64 bits.
\<close>

section \<open>The rolling hash\<close>

definition GEAR_TABLE :: "u64 list" where
  "GEAR_TABLE =
    [0x1c80317fa3b1799d, 0xbdd640fb06671ad1, 0x3eb13b9046685257, 0x23b8c1e9392456de,
     0x1a3d1fa7bc8960a9, 0xbd9c66b3ad3c2d6d, 0x8b9d2434e465e150, 0x972a846916419f82,
     0x0822e8f36c031199, 0x17fc695a07a0ca6e, 0x3b8faa1837f8a88b, 0x9a1de644815ef6d1,
     0x8fadc1a606cb0fb3, 0xb74d0fb132e70629, 0xb38a088ca65ed389, 0x6b65a6a48b8148f6,
     0x72ff5d2a386ecbe0, 0x4737819096da1dac, 0xde8a774bcf36d58b, 0xc241330b01a9e71f,
     0x28df6ec4ce4a2bbd, 0x6c307511b2b9437a, 0x47229389571aa876, 0x371ecd7b27cd8130,
     0xc37459eef50bea63, 0x1a2a73ed562b0f79, 0x6142ea7d17be3111, 0x5be6128e18c26797,
     0x580d7b71d8f56413, 0x43b7a3a69a8dca03, 0x0b1f9163ce9ff57f, 0x759cde66bacfb3d0,
     0x1ff49b7889463e85, 0xec1b8ca1f91e1d4c, 0x142c3fe860e7a113, 0x4b0dbb418d5288f1,
     0xa0ee89aed453dd32, 0xe2acf72f9e574f7a, 0x5c941cf0dc98d2c1, 0x3139d32c93cd59bf,
     0x11ce5dd2b45ed1f0, 0xa9488d990bbb2599, 0xc5e7ce8a3a578a8e, 0xfc377a4c4a15544d,
     0xdaf61a26146d3f31, 0xddd1dfb23b982ef8, 0x614ff3d719db3ad0, 0x7412b29347294739,
     0xd58842dea2bc372f, 0x29a3b2e95d65a441, 0x5af305535ec42e08, 0xab9099a435a240ae,
     0xb3aa7efe4458a885, 0xaefcfad8efc89849, 0x12476f57a5e5a5ab, 0xa28defe39bf00273,
     0x88bd64072bcfbe01, 0x3eabedcbbaa80dd4, 0x7656af7229d4beef, 0x451b4cf36123fdf7,
     0xece66fa2fd5166e6, 0xb02b61c4a3d70628, 0x3838b3268e944239, 0x5304317faf42e12f,
     0xc4b032ccd7c524a5, 0x0e51f30dc6a7ee39, 0xd261a7ab3aa2e4f9, 0xce177b4e0837b8a3,
     0x66b2bc5b50c187fc, 0x10f1bc81448aaa9e, 0xe9c349e03602f8ac, 0x9132b63ef16287e4,
     0xb7c93acfe059a0ee, 0x366eb16f508ebad7, 0x7fcd9eb1a7cad415, 0xe27a984d654821d0,
     0xa491f0b2ea1fca65, 0x24933b83757750a9, 0x23bed01d43cf2fde, 0xbeb799193f22faf8,
     0x89fa6a688fb5d27b, 0xbf3c4c06434308bc, 0x6dadd6c795a76d79, 0x956269f0e5d7b875,
     0x5cabcc97663f1c97, 0xff50bde4382567b8, 0x2369b584ff5e9ff0, 0x7e570ddf827050a8,
     0xc17af08a1745d6d8, 0xdc713d960c0fd195, 0x27209bdf1c11f735, 0x28f49481a0a04dc4,
     0xae340454cac5b68c, 0x98ae43346c12ace8, 0x62801c4510435a10, 0x988c24c961b1cd22,
     0x77d21e02ff01cf99, 0x405cacec877409a9, 0x8da0365bf89897b9, 0xf143262fdc5c0eed,
     0xae270da702f06b90, 0x1d53434bb88139b9, 0xe2817efdae849217, 0xc03987108976e334,
     0xc4c2e2e3444ea7c8, 0x5715bd6fa4161293, 0x4b22d3081c8eaee9, 0x287d06ca6f4cc69a,
     0x00d4af5974273ca3, 0xb8db0672f42d47cc, 0xb83cfe0be037e5ed, 0xf8cda88b436d76e2,
     0xc30ff46e8026695f, 0x81f76d1c2dbc2134, 0x1b3dbd5ce9a1fa6f, 0xa013ac6ededa4e16,
     0xd777a4774c66e0a8, 0x81f631d4a39231a7, 0x32ebd6899be578c7, 0x5fb8d16c2720797d,
     0x295b4715c333e861, 0xf4188f3f8a14be62, 0xec24a3c5c754108f, 0xeb2263dd87c5421e,
     0x99546eb400257ad1, 0x7d15438552fbe43b, 0x1ca35cfb04fc6d82, 0x5cec4eb5edd96831,
     0xfc3e058be0f3eab0, 0xce88cb2dd4e80839, 0x3d4cbf374eb93eff, 0x3da9c2a90ed42f1a,
     0x913e4de2e0c53cb8, 0x14296c07f26b4776, 0xbb5e4bcf15ed6269, 0xd0e6e6607c69dee1,
     0xfa5d310011b7e948, 0x885f6e66c2b6d2c5, 0x2031d750c40db9b4, 0xa8e56e0c20de435d,
     0xf264accc79ac1b1e, 0x2a45c2ab8cbfedb0, 0x8715a10343dac043, 0x9b49bd26df57c59a,
     0xf6e07cc06c52c49f, 0xedcd465e36386821, 0xc1590f538a0f4efb, 0xb09b2a5cbadcc32a,
     0xb683d2e6337ea2df, 0x66245bfa4fcca39a, 0xabf3ad39fec21bbe, 0x5f987c71a65e688e,
     0xe64d1bcb702753a1, 0x7394988f847fd9b4, 0x3f76be1d1efa2197, 0x1064005c3985c3cf,
     0x05628059568cc69b, 0x8dcdcd03969b6662, 0x96a402f23ae8cc93, 0x01d7425638602ab6,
     0xb535106e122c9a56, 0x0f1259e0a18ff6b6, 0x114125c63a9bedd4, 0x080aadfbe7c99b26,
     0x5496f63cdc1110c1, 0x839fbc501223b513, 0x474a493b3ceddf2d, 0x7c441fe7ab4220a7,
     0x8a0b3c3336d8393a, 0xb92da22b21df306f, 0xe1e3db63ef7ddc76, 0x93829b43922fe15a,
     0x3e3511287900f7f9, 0x7914c120c8dcd19f, 0x683514f2ceb81f9d, 0x1825bc5430beb45f,
     0xa8b317fa18d0752b, 0x5ab33edf6e595ed3, 0x693dffbc6c6fa611, 0xdd2467ac778eedb3,
     0x0dde29a6baa4b71a, 0xa748dbcfac619e63, 0xa56c0941fbf24050, 0x0f844fef1931e9ee,
     0xba6c34ab6712303a, 0xccf3a17156dc8907, 0x1bf90e27dc96925e, 0x310c0c003fa7f104,
     0x894a05e430b187ef, 0x23e2fcb472d8567d, 0x2ef912766c006f61, 0x766ecb15474ebc19,
     0xdfde4fbf3ff350bf, 0x134c6c92ec5b227c, 0xceda8bbb71710434, 0xdb20a56edc815fe7,
     0x19108be58ce21ea3, 0xa6f2f7b80cf35b58, 0x8a63f881ffd0f9d5, 0x03c72ba8d605e770,
     0x17e011b7f8102383, 0xc0e9ab30ed2662e9, 0x3c835dc0d9441fa5, 0x680ac07a2a935d62,
     0x7b3a4e3e7c52fa17, 0xdd59ba7136b82481, 0xe7067ef466aa9385, 0x2a25a8880f02bad0,
     0x008d4127610461e3, 0x63f2ae24fc3d3348, 0xed3049cf43e458fc, 0xc8fe3ccdc8b8d9c6,
     0x490617f2747b6dba, 0xb253d2186c4a37ea, 0xbb026576f512c4c3, 0xc88a618efed4057d,
     0xa97065e18e46d534, 0x7c967f79b7e99aca, 0x309d258c27a0c3d7, 0x37bb3eec4bf50b52,
     0x0ef8c2d6f7fd5646, 0xbc594585944528c0, 0x0f9aea4b8acd4e10, 0x504867babf7b539b,
     0x0cd620c20ea2622b, 0x7a0ecfea958ca9ba, 0xeb5cf46780bacd64, 0x87f7e1fbda4bd9ca,
     0x0e8fa8e0284d82e5, 0x82010c62f5f59b22, 0xd9f195d014822f53, 0x118a9d292f923996,
     0x1165e21098543881, 0xdca02eecacdabacc, 0x675dd5af3c365296, 0xf10c718b1eb0e38a,
     0x91d63f78e3e9de99, 0x94340a033f07f814, 0x0a2c827e98326856, 0x14fcdd549e8fc965,
     0xa8499b926b5252e3, 0x90b2b633956b8c0c, 0x50fd9d3f85d51695, 0x42c18a62ef48e8d5,
     0xab73295b344a54b8, 0x506e5a9ab758588d, 0x43ff50113d1a85dd, 0x21813d25655238a6,
     0xa53f8a28abf3e3fc, 0x750cab754ccc9bc2, 0xedd4253b50f0fd0a, 0xef8c485bc07a30f2,
     0x02627f7312922f83, 0x9f044aed75523327, 0x902059e4ff9ab5c2, 0x19985f15ff002d4d]"

record RollingHash =
  rh_hash :: u64

definition new_rolling :: RollingHash where
  "new_rolling = \<lparr>rh_hash = 0\<rparr>"

definition rh_reset :: "RollingHash \<Rightarrow> RollingHash" where
  "rh_reset rh = rh\<lparr>rh_hash := 0\<rparr>"

definition roll :: "RollingHash \<Rightarrow> byte \<Rightarrow> u64 \<times> RollingHash" where
  "roll rh b =
     (let h = push_bit 1 (rh_hash rh) + GEAR_TABLE ! unat b
      in (h, rh\<lparr>rh_hash := h\<rparr>))"

section \<open>The chunker\<close>

record Chunk =
  ck_offset :: nat
  ck_data :: "byte list"
  ck_hash :: Digest

record Chunker =
  min_size :: nat
  max_size :: nat
  mask_bits :: nat
  chunk_mask :: u64

text \<open>\<^verbatim>\<open>while (v > 1) { v >>= 1; mask_bits_++; }\<close>\<close>

fun mask_bits_loop :: "nat \<Rightarrow> nat \<Rightarrow> nat" where
  "mask_bits_loop v bits = (if v > 1 then mask_bits_loop (v div 2) (Suc bits) else bits)"

declare mask_bits_loop.simps [simp del]

definition new_chunker :: "nat \<Rightarrow> nat \<Rightarrow> nat \<Rightarrow> Chunker" where
  "new_chunker mn avg mx =
     (let bits = mask_bits_loop avg 0
      in \<lparr>min_size = mn, max_size = mx, mask_bits = bits,
          chunk_mask = (if bits \<ge> 64 then NOT 0 else push_bit bits 1 - 1)\<rparr>)"

text \<open>\<^verbatim>\<open>Chunker()\<close>: the default arguments.\<close>

definition default_chunker :: Chunker where
  "default_chunker = new_chunker (2 * 1024) (8 * 1024) (64 * 1024)"

definition make_chunk :: "byte list \<Rightarrow> nat \<Rightarrow> nat \<Rightarrow> Chunk" where
  "make_chunk data start stop =
     (let bytes = take (stop - start) (drop start data)
      in \<lparr>ck_offset = start, ck_data = bytes, ck_hash = hash bytes\<rparr>)"

text \<open>Whether a chunk of \<open>window\<close> bytes ends here, given the rolling hash at its last byte.\<close>

definition ends_chunk :: "Chunker \<Rightarrow> nat \<Rightarrow> u64 \<Rightarrow> bool" where
  "ends_chunk c window h =
     (let at_min = window \<ge> min_size c;
          at_max = window \<ge> max_size c;
          boundary = at_min \<and> (h AND chunk_mask c) = 0
      in boundary \<or> at_max)"

text \<open>
  The inner loop: the exclusive end of the chunk that begins at \<open>start\<close>, or \<open>None\<close> when the
  data runs out before a boundary.
\<close>

function scan :: "Chunker \<Rightarrow> byte list \<Rightarrow> nat \<Rightarrow> nat \<Rightarrow> RollingHash \<Rightarrow> nat option" where
  "scan c data start j rh =
     (if j < length data then
        (case roll rh (data ! j) of
           (h, rh') \<Rightarrow>
             if ends_chunk c (j - start + 1) h then Some (j + 1)
             else scan c data start (j + 1) rh')
      else None)"
  by pat_completeness auto
termination
  by (relation "measure (\<lambda>(c, data, start, j, rh). length data - j)") auto

declare scan.simps [simp del]

lemma scan_bounds: "scan c data start j rh = Some e \<Longrightarrow> j < e \<and> e \<le> length data"
proof (induction c data start j rh rule: scan.induct)
  case (1 c data start j rh)
  then show ?case
    by (auto simp: scan.simps [of c data start j rh] split: if_splits prod.splits)
qed

text \<open>
  The outer loop over \<^verbatim>\<open>i\<close> and \<^verbatim>\<open>start\<close>; the list holds what it pushes.  Every round
  resets the hash, so what an earlier round left in it is not carried.
\<close>

function chunk_loop :: "Chunker \<Rightarrow> byte list \<Rightarrow> nat \<Rightarrow> nat \<Rightarrow> Chunk list" where
  "chunk_loop c data start i =
     (if i < length data then
        (case scan c data start start (rh_reset new_rolling) of
           Some e \<Rightarrow> make_chunk data start e # chunk_loop c data e e
         | None \<Rightarrow> make_chunk data start (length data) # chunk_loop c data start (length data))
      else [])"
  by pat_completeness auto
termination
proof (relation "measures [\<lambda>(c, data, start, i). length data - start, \<lambda>(c, data, start, i). length data - i]",
    goal_cases)
  case (3 c data start i e)
  then show ?case by (auto dest: scan_bounds)
qed auto

declare chunk_loop.simps [simp del]

definition chunk :: "Chunker \<Rightarrow> byte list \<Rightarrow> Chunk list" where
  "chunk c data = (if data = [] then [] else chunk_loop c data 0 0)"

section \<open>Chunking as a function of the remaining bytes\<close>

text \<open>
  The reference: where the next chunk of \<open>xs\<close> ends, given the hash and the number of bytes
  already in it, and the cut of a whole byte string.  Nothing here knows the offset.
\<close>

fun next_cut :: "Chunker \<Rightarrow> u64 \<Rightarrow> nat \<Rightarrow> byte list \<Rightarrow> nat option" where
  "next_cut c h w [] = None"
| "next_cut c h w (x # xs) =
     (let h' = push_bit 1 h + GEAR_TABLE ! unat x
      in if ends_chunk c (Suc w) h' then Some 1 else map_option Suc (next_cut c h' (Suc w) xs))"

lemma next_cut_bounds: "next_cut c h w xs = Some k \<Longrightarrow> 0 < k \<and> k \<le> length xs"
  by (induction c h w xs arbitrary: k rule: next_cut.induct) (auto simp: Let_def split: if_splits)

function pieces :: "Chunker \<Rightarrow> byte list \<Rightarrow> byte list list" where
  "pieces c xs =
     (if xs = [] then []
      else case next_cut c 0 0 xs of None \<Rightarrow> [xs] | Some k \<Rightarrow> take k xs # pieces c (drop k xs))"
  by pat_completeness auto
termination
  by (relation "measure (\<lambda>(c, xs). length xs)") (auto dest: next_cut_bounds)

declare pieces.simps [simp del]

fun place :: "nat \<Rightarrow> byte list list \<Rightarrow> Chunk list" where
  "place off [] = []"
| "place off (b # bs) =
     \<lparr>ck_offset = off, ck_data = b, ck_hash = hash b\<rparr> # place (off + length b) bs"

lemma scan_cut:
  "start \<le> j \<Longrightarrow>
   scan c data start j rh = map_option (\<lambda>k. j + k) (next_cut c (rh_hash rh) (j - start) (drop j data))"
proof (induction c data start j rh rule: scan.induct)
  case (1 c data start j rh)
  show ?case
  proof (cases "j < length data")
    case True
    then have "drop j data = data ! j # drop (Suc j) data"
      by (simp add: Cons_nth_drop_Suc)
    with 1 True show ?thesis
      by (simp add: scan.simps [of c data start j rh] roll_def Let_def Suc_diff_le
          option.map_comp comp_def)
  next
    case False
    then show ?thesis by (simp add: scan.simps)
  qed
qed

lemma chunk_loop_pieces:
  "chunk_loop c data start start = place start (pieces c (drop start data))"
proof (induction "length data - start" arbitrary: start rule: less_induct)
  case less
  show ?case
  proof (cases "start < length data")
    case False
    then show ?thesis by (simp add: chunk_loop.simps pieces.simps)
  next
    case True
    have scan: "scan c data start start (rh_reset new_rolling) =
        map_option (\<lambda>k. start + k) (next_cut c 0 0 (drop start data))"
      by (simp add: scan_cut rh_reset_def new_rolling_def)
    show ?thesis
    proof (cases "next_cut c 0 0 (drop start data)")
      case None
      with True scan show ?thesis
        by (simp add: chunk_loop.simps [of c data start start] chunk_loop.simps [of c data start "length data"]
            pieces.simps [of c "drop start data"] make_chunk_def Let_def)
    next
      case (Some k)
      then have k: "0 < k" "k \<le> length data - start"
        using next_cut_bounds by fastforce+
      with True less have "chunk_loop c data (start + k) (start + k) =
          place (start + k) (pieces c (drop (start + k) data))"
        by simp
      with True scan Some k show ?thesis
        by (simp add: chunk_loop.simps [of c data start start] pieces.simps [of c "drop start data"]
            make_chunk_def Let_def add.commute)
    qed
  qed
qed

lemma chunk_pieces: "chunk c data = place 0 (pieces c data)"
  using chunk_loop_pieces [of c data 0] by (simp add: chunk_def pieces.simps)

lemma place_data [simp]: "map ck_data (place off bs) = bs"
  by (induction bs arbitrary: off) auto

lemma place_hash: "ck \<in> set (place off bs) \<Longrightarrow> ck_hash ck = hash (ck_data ck)"
  by (induction bs arbitrary: off) auto

lemma length_place [simp]: "length (place off bs) = length bs"
  by (induction bs arbitrary: off) auto

lemma place_offset:
  "i < length bs \<Longrightarrow> ck_offset (place off bs ! i) = off + length (concat (take i bs))"
  by (induction bs arbitrary: off i) (auto simp: nth_Cons split: nat.split)

lemma take_place: "take k (place off bs) = place off (take k bs)"
  by (induction bs arbitrary: off k) (auto simp: take_Cons split: nat.split)

lemma concat_pieces [simp]: "concat (pieces c xs) = xs"
proof (induction c xs rule: pieces.induct)
  case (1 c xs)
  then show ?case
    by (auto simp: pieces.simps [of c xs] split: option.split)
qed

section \<open>Sizes\<close>

lemma next_cut_lower: "next_cut c h w xs = Some k \<Longrightarrow> min (min_size c) (max_size c) \<le> w + k"
  by (induction c h w xs arbitrary: k rule: next_cut.induct)
    (auto simp: Let_def ends_chunk_def split: if_splits)

lemma next_cut_upper:
  "next_cut c h w xs = Some k \<Longrightarrow> Suc w \<le> max 1 (max_size c) \<Longrightarrow> w + k \<le> max 1 (max_size c)"
proof (induction c h w xs arbitrary: k rule: next_cut.induct)
  case (2 c h w x xs)
  then show ?case
    by (fastforce simp: Let_def ends_chunk_def split: if_splits)
qed simp

lemma no_cut_upper:
  "next_cut c h w xs = None \<Longrightarrow> xs \<noteq> [] \<Longrightarrow> w + length xs < max_size c"
proof (induction c h w xs rule: next_cut.induct)
  case (2 c h w x xs)
  then show ?case
    by (cases xs) (auto simp: Let_def ends_chunk_def split: if_splits)
qed simp

lemma pieces_upper: "b \<in> set (pieces c xs) \<Longrightarrow> 0 < length b \<and> length b \<le> max 1 (max_size c)"
proof (induction c xs rule: pieces.induct)
  case (1 c xs)
  have "length xs \<le> max 1 (max_size c)" if "next_cut c 0 0 xs = None" "xs \<noteq> []"
    using no_cut_upper [OF that] by simp
  moreover have "k \<le> max 1 (max_size c) \<and> 0 < k" if "next_cut c 0 0 xs = Some k" for k
    using next_cut_upper [OF that] next_cut_bounds [OF that] by simp
  ultimately show ?case
    using 1 by (auto simp: pieces.simps [of c xs] split: option.splits if_splits)
qed

lemma pieces_lower:
  "Suc i < length (pieces c xs) \<Longrightarrow> min (min_size c) (max_size c) \<le> length (pieces c xs ! i)"
proof (induction c xs arbitrary: i rule: pieces.induct)
  case (1 c xs)
  have "min (min_size c) (max_size c) \<le> k \<and> k \<le> length xs" if "next_cut c 0 0 xs = Some k" for k
    using next_cut_lower [OF that] next_cut_bounds [OF that] by simp
  with 1 show ?case
    by (auto simp: pieces.simps [of c xs] nth_Cons split: option.splits if_splits nat.splits)
qed

section \<open>Locality\<close>

lemma next_cut_prefix: "next_cut c h w xs = Some k \<Longrightarrow> next_cut c h w (take k xs @ ys) = Some k"
  by (induction c h w xs arbitrary: k rule: next_cut.induct) (auto simp: Let_def split: if_splits)

lemma pieces_cut:
  "next_cut c 0 0 xs = Some k \<Longrightarrow> pieces c xs = take k xs # pieces c (drop k xs)"
  using next_cut_bounds [of c 0 0 xs k] by (subst pieces.simps) auto

lemma pieces_Cons:
  assumes "pieces c xs = b # bs" and "bs \<noteq> []"
  shows "next_cut c 0 0 xs = Some (length b) \<and> b = take (length b) xs \<and> bs = pieces c (drop (length b) xs)"
  using assms next_cut_bounds [of c 0 0 xs]
  by (subst (asm) pieces.simps) (auto split: option.splits if_splits)

lemma pieces_suffix: "pieces c (concat (drop k (pieces c xs))) = drop k (pieces c xs)"
proof (induction k arbitrary: xs)
  case 0
  then show ?case by simp
next
  case (Suc k)
  show ?case
  proof (cases "pieces c xs")
    case Nil
    then show ?thesis by (simp add: pieces.simps [of c "[]"])
  next
    case (Cons b bs)
    show ?thesis
    proof (cases "bs = []")
      case True
      with Cons show ?thesis by (simp add: pieces.simps [of c "[]"])
    next
      case False
      with pieces_Cons [OF Cons] have "bs = pieces c (drop (length b) xs)" by blast
      with Cons Suc [of "drop (length b) xs"] show ?thesis by simp
    qed
  qed
qed

lemma pieces_prefix:
  "k < length (pieces c xs) \<Longrightarrow>
   take k (pieces c (concat (take k (pieces c xs)) @ ys)) = take k (pieces c xs)"
proof (induction k arbitrary: xs)
  case 0
  then show ?case by simp
next
  case (Suc k)
  then obtain b bs where bs: "pieces c xs = b # bs" and "k < length bs"
    by (cases "pieces c xs") auto
  then have "bs \<noteq> []" by auto
  note b = pieces_Cons [OF bs this]
  define rest where "rest = concat (take k bs) @ ys"
  have "next_cut c 0 0 (b @ rest) = Some (length b)"
    using next_cut_prefix [of c 0 0 xs "length b" rest] b by simp
  then have "pieces c (b @ rest) = b # pieces c rest"
    by (simp add: pieces_cut)
  moreover have "take k (pieces c rest) = take k bs"
    using Suc.IH [of "drop (length b) xs"] Suc.prems bs b by (simp add: rest_def)
  ultimately show ?case
    using bs by (simp add: rest_def)
qed

section \<open>The window of the rolling hash\<close>

definition gear :: "u64 \<Rightarrow> byte list \<Rightarrow> u64" where
  "gear h xs = foldl (\<lambda>h b. push_bit 1 h + GEAR_TABLE ! unat b) h xs"

lemma gear_Cons: "gear h (x # xs) = gear (push_bit 1 h + GEAR_TABLE ! unat x) xs"
  by (simp add: gear_def)

lemma gear_shift: "gear h xs = push_bit (length xs) h + gear 0 xs"
proof (induction xs arbitrary: h)
  case Nil
  then show ?case by (simp add: gear_def)
next
  case (Cons x xs)
  define g where "g = GEAR_TABLE ! unat x"
  have "gear h (x # xs) = push_bit (length xs) (push_bit 1 h + g) + gear 0 xs"
    using Cons.IH [of "push_bit 1 h + g"] by (simp add: gear_Cons g_def)
  moreover have "gear 0 (x # xs) = push_bit (length xs) g + gear 0 xs"
    using Cons.IH [of g] by (simp add: gear_Cons g_def)
  ultimately show ?case
    by (simp add: push_bit_eq_mult algebra_simps)
qed

lemma take_bit_gear:
  assumes "n \<le> length xs"
  shows "take_bit n (gear h xs) = take_bit n (gear 0 xs)"
proof -
  have "take_bit n (push_bit (length xs) h) = 0"
    using assms by (intro bit_eqI) (auto simp: bit_simps)
  moreover have "take_bit n (gear h xs) =
      take_bit n (take_bit n (push_bit (length xs) h) + take_bit n (gear 0 xs))"
    by (simp only: gear_shift [of h] flip: take_bit_word_add)
  ultimately show ?thesis by simp
qed

lemma roll_gear: "rh_hash (foldl (\<lambda>rh b. snd (roll rh b)) rh xs) = gear (rh_hash rh) xs"
  by (induction xs arbitrary: rh) (simp_all add: gear_def roll_def Let_def)

lemma mask_bits_loop_bound:
  "0 < v \<Longrightarrow> \<exists>k. mask_bits_loop v n = n + k \<and> 2 ^ k \<le> v \<and> v < 2 ^ Suc k"
proof (induction v n rule: mask_bits_loop.induct)
  case (1 v n)
  show ?case
  proof (cases "v > 1")
    case False
    with 1 show ?thesis by (intro exI [of _ 0]) (simp add: mask_bits_loop.simps)
  next
    case True
    with 1 obtain k where "mask_bits_loop (v div 2) (Suc n) = Suc n + k" "2 ^ k \<le> v div 2" "v div 2 < 2 ^ Suc k"
      by auto
    with True show ?thesis
      by (intro exI [of _ "Suc k"]) (auto simp: mask_bits_loop.simps [of v n])
  qed
qed

lemma and_mask: "x AND (push_bit n 1 - 1 :: u64) = take_bit n x"
  by (simp add: take_bit_eq_mask mask_eq_exp_minus_1 push_bit_eq_mult)

lemma and_chunk_mask: "x AND chunk_mask (new_chunker mn avg mx) = take_bit (mask_bits (new_chunker mn avg mx)) x"
proof (cases "mask_bits_loop avg 0 \<ge> 64")
  case True
  then have "take_bit (mask_bits_loop avg 0) x = x"
    by (intro bit_eqI) (auto simp: bit_simps)
  with True show ?thesis by (simp add: new_chunker_def Let_def)
next
  case False
  then show ?thesis
    using and_mask [of x "mask_bits_loop avg 0"] by (simp add: new_chunker_def Let_def)
qed

section \<open>The contract of a chunker\<close>

text \<open>
  What the engine relies on when it stores a file: the chunks hold the file's bytes in order,
  every chunk carries the hash of its own bytes, and none is empty.
\<close>

locale chunking =
  fixes split_file :: "byte list \<Rightarrow> Chunk list"
  assumes chunks_complete: "concat (map ck_data (split_file bytes)) = bytes"
    and chunks_hashed: "ck \<in> set (split_file bytes) \<Longrightarrow> ck_hash ck = hash (ck_data ck)"
    and chunks_nonempty: "ck \<in> set (split_file bytes) \<Longrightarrow> ck_data ck \<noteq> []"
begin

lemma no_chunks_iff: "split_file bytes = [] \<longleftrightarrow> bytes = []"
  using chunks_complete [of bytes] chunks_nonempty [of _ bytes] by (cases "split_file bytes") auto

lemma total_size: "sum_list (map (\<lambda>ck. length (ck_data ck)) (split_file bytes)) = length bytes"
  using arg_cong [OF chunks_complete [of bytes], of length] by (simp add: length_concat comp_def)

end

interpretation cdc: chunking "chunk c" for c
proof
  fix bytes ck
  show "concat (map ck_data (chunk c bytes)) = bytes"
    by (simp add: chunk_pieces)
  assume ck: "ck \<in> set (chunk c bytes)"
  then show "ck_hash ck = hash (ck_data ck)"
    by (simp add: chunk_pieces place_hash)
  have "ck_data ck \<in> set (pieces c bytes)"
    using ck by (metis chunk_pieces image_eqI place_data set_map)
  then show "ck_data ck \<noteq> []"
    using pieces_upper by fastforce
qed

section \<open>Properties\<close>

text \<open>
  Claim C5. Chunking is lossless: the chunks concatenate to the file, each carries the hash of
  its own bytes, and each chunk's offset is the position of its first byte.
\<close>

theorem chunk_lossless:
  "concat (map ck_data (chunk c data)) = data \<and>
   (\<forall>i < length (chunk c data).
      ck_hash (chunk c data ! i) = hash (ck_data (chunk c data ! i)) \<and>
      ck_offset (chunk c data ! i) = length (concat (map ck_data (take i (chunk c data)))))"
proof (intro conjI allI impI)
  show "concat (map ck_data (chunk c data)) = data"
    by (rule cdc.chunks_complete)
  fix i
  assume i: "i < length (chunk c data)"
  show "ck_hash (chunk c data ! i) = hash (ck_data (chunk c data ! i))"
    by (rule cdc.chunks_hashed [OF nth_mem [OF i]])
  show "ck_offset (chunk c data ! i) = length (concat (map ck_data (take i (chunk c data))))"
    using i by (simp add: chunk_pieces place_offset take_place)
qed

text \<open>A chunker that cuts after every two bytes, for the concrete instances below.\<close>

definition pair_chunker :: Chunker where
  "pair_chunker = new_chunker 3 1 2"

lemma pair_ends: "ends_chunk pair_chunker w h \<longleftrightarrow> 2 \<le> w"
  by (auto simp: ends_chunk_def pair_chunker_def new_chunker_def Let_def)

lemmas pair_eval = chunk_pieces pieces.simps pair_ends Let_def

lemma pair_chunks: "length (chunk pair_chunker [1, 2, 3, 4, 5]) = 3"
  by (simp add: pair_eval)

theorem chunk_lossless_witness:
  "concat (map ck_data (chunk pair_chunker [1, 2, 3, 4, 5])) = [1, 2, 3, 4, 5] \<and>
   ck_offset (chunk pair_chunker [1, 2, 3, 4, 5] ! 1) =
     length (concat (map ck_data (take 1 (chunk pair_chunker [1, 2, 3, 4, 5]))))"
  using chunk_lossless [of pair_chunker "[1, 2, 3, 4, 5]"] pair_chunks by simp

text \<open>
  Claim C26. Chunk sizes are bounded: no chunk is empty or longer than the maximum (a maximum
  of 0 acts as 1), and every chunk but the last has at least the minimum size, unless the
  maximum is smaller still.
\<close>

theorem chunk_sizes_bounded:
  assumes "i < length (chunk c data)"
  shows "0 < length (ck_data (chunk c data ! i)) \<and>
    length (ck_data (chunk c data ! i)) \<le> max 1 (max_size c) \<and>
    (Suc i < length (chunk c data) \<longrightarrow>
       min (min_size c) (max_size c) \<le> length (ck_data (chunk c data ! i)))"
proof -
  have data: "ck_data (chunk c data ! i) = pieces c data ! i"
    using assms by (metis chunk_pieces length_place nth_map place_data)
  have len: "length (chunk c data) = length (pieces c data)"
    by (simp add: chunk_pieces)
  then have "pieces c data ! i \<in> set (pieces c data)"
    using assms by simp
  from pieces_upper [OF this] show ?thesis
    using pieces_lower [of i c data] unfolding data len by auto
qed

theorem chunk_sizes_bounded_witness:
  "length (ck_data (chunk pair_chunker [1, 2, 3, 4, 5] ! 0)) = 2"
proof -
  have "min_size pair_chunker = 3" "max_size pair_chunker = 2"
    by (simp_all add: pair_chunker_def new_chunker_def Let_def)
  then show ?thesis
    using chunk_sizes_bounded [of 0 pair_chunker "[1, 2, 3, 4, 5]"] pair_chunks by simp
qed

text \<open>
  Claim C27. Edits are local, before the edit: if a file is changed only after its first \<open>k\<close>
  chunks (and those are not all of it), the first \<open>k\<close> chunks of the new file are the same.
\<close>

theorem chunk_prefix_stable:
  assumes "k < length (chunk c data)"
    and "edited = concat (map ck_data (take k (chunk c data))) @ rest"
  shows "take k (chunk c edited) = take k (chunk c data)"
  using assms pieces_prefix [of k c data rest]
  by (simp add: chunk_pieces take_place)

theorem chunk_prefix_stable_witness:
  "take 1 (chunk pair_chunker
     (concat (map ck_data (take 1 (chunk pair_chunker [1, 2, 3, 4, 5]))) @ [9, 9, 9])) =
   take 1 (chunk pair_chunker [1, 2, 3, 4, 5])"
  using chunk_prefix_stable [of 1 pair_chunker "[1, 2, 3, 4, 5]" _ "[9, 9, 9]"] pair_chunks by simp

text \<open>
  Claim C28. Edits are local, after the edit: where two files agree from some chunk boundary of
  each on, all chunks from there on have the same bytes and the same hashes, wherever they lie
  in the two files.
\<close>

theorem chunk_resynchronises:
  assumes "concat (map ck_data (drop k (chunk c data))) = concat (map ck_data (drop k' (chunk c data')))"
  shows "map ck_data (drop k (chunk c data)) = map ck_data (drop k' (chunk c data')) \<and>
    map ck_hash (drop k (chunk c data)) = map ck_hash (drop k' (chunk c data'))"
proof -
  have data: "map ck_data (drop n (chunk c d)) = drop n (pieces c d)" for n d
    by (simp add: chunk_pieces flip: drop_map)
  then have same: "map ck_data (drop k (chunk c data)) = map ck_data (drop k' (chunk c data'))"
    using assms pieces_suffix by metis
  have hashes: "map ck_hash (drop n (chunk c d)) = map hash (map ck_data (drop n (chunk c d)))" for n d
    by (auto dest: in_set_dropD intro: cdc.chunks_hashed)
  show ?thesis
    by (intro conjI same) (simp only: hashes same)
qed

theorem chunk_resynchronises_witness:
  "map ck_hash (drop 0 (chunk pair_chunker [1, 2, 3])) =
   map ck_hash (drop 1 (chunk pair_chunker [9, 9, 1, 2, 3]))"
proof -
  have "concat (map ck_data (drop 0 (chunk pair_chunker [1, 2, 3]))) =
      concat (map ck_data (drop 1 (chunk pair_chunker [9, 9, 1, 2, 3])))"
    by (simp add: pair_eval)
  from chunk_resynchronises [OF this] show ?thesis by blast
qed

text \<open>
  The boundary test looks at a window only: after at least \<^verbatim>\<open>mask_bits_\<close> bytes the
  masked hash is the same whatever was hashed before them.  The number of masked bits is the
  binary logarithm of the average size, so a boundary is the event that many low bits are 0.
\<close>

lemma boundary_window:
  assumes "ck = new_chunker mn avg mx" and "mask_bits ck \<le> length ys" and "0 < avg"
  shows "rh_hash (foldl (\<lambda>rh b. snd (roll rh b)) rh ys) AND chunk_mask ck =
      rh_hash (foldl (\<lambda>rh b. snd (roll rh b)) rh' ys) AND chunk_mask ck \<and>
    2 ^ mask_bits ck \<le> avg \<and> avg < 2 ^ Suc (mask_bits ck)"
proof -
  have "take_bit (mask_bits ck) (gear h ys) = take_bit (mask_bits ck) (gear 0 ys)" for h
    using assms(2) by (rule take_bit_gear)
  then have "rh_hash (foldl (\<lambda>rh b. snd (roll rh b)) rh ys) AND chunk_mask ck =
      rh_hash (foldl (\<lambda>rh b. snd (roll rh b)) rh' ys) AND chunk_mask ck"
    unfolding assms(1) roll_gear and_chunk_mask by metis
  moreover have "mask_bits ck = mask_bits_loop avg 0"
    by (simp add: assms(1) new_chunker_def Let_def)
  ultimately show ?thesis
    using mask_bits_loop_bound [OF assms(3), of 0] by auto
qed

end
