(* ===== verification/Merkle_Tree.thy ===== *)
theory Merkle_Tree
  imports Chunker
begin

text \<open>
  \<^verbatim>\<open>merkle_tree.cpp\<close>: the tree over a file's chunk hashes and the comparison of two trees.
  \<^verbatim>\<open>build_recursive\<close> is a partial function: on an empty range the C++ recursion never ends.
\<close>

section \<open>The tree\<close>

datatype MerkleNode = MerkleNode
  (mn_hash: Digest)
  (mn_left: "MerkleNode option")
  (mn_right: "MerkleNode option")
  (leaf_index: int)

definition is_leaf :: "MerkleNode \<Rightarrow> bool" where
  "is_leaf n \<longleftrightarrow> leaf_index n \<ge> 0"

record MerkleTree =
  mt_root :: "MerkleNode option"
  leaf_count :: nat

text \<open>\<^verbatim>\<open>static_cast<int>(lo)\<close>: the low 32 bits, read as a signed number.\<close>

definition to_int :: "nat \<Rightarrow> int" where
  "to_int n = sint (word_of_nat n :: 32 word)"

partial_function (option) build_recursive :: "Chunk list \<Rightarrow> nat \<Rightarrow> nat \<Rightarrow> MerkleNode option" where
  "build_recursive chunks lo hi =
     (if hi - lo = 1 then Some (MerkleNode (ck_hash (chunks ! lo)) None None (to_int lo))
      else
        (let mid = lo + (hi - lo) div 2
         in Option.bind (build_recursive chunks lo mid) (\<lambda>left.
            Option.bind (build_recursive chunks mid hi) (\<lambda>right.
              Some (MerkleNode (combine (mn_hash left) (mn_hash right)) (Some left) (Some right) (- 1))))))"

definition merkle_build :: "Chunk list \<Rightarrow> MerkleTree option" where
  "merkle_build chunks =
     (if chunks = [] then Some \<lparr>mt_root = None, leaf_count = 0\<rparr>
      else Option.bind (build_recursive chunks 0 (length chunks)) (\<lambda>root.
        Some \<lparr>mt_root = Some root, leaf_count = length chunks\<rparr>))"

definition tree_empty :: "MerkleTree \<Rightarrow> bool" where
  "tree_empty t \<longleftrightarrow> mt_root t = None"

text \<open>\<^verbatim>\<open>root()\<close> dereferences \<^verbatim>\<open>root_\<close>, which is null in an empty tree.\<close>

definition tree_root :: "MerkleTree \<Rightarrow> Digest result" where
  "tree_root t = (case mt_root t of None \<Rightarrow> Inl Undefined_behaviour | Some n \<Rightarrow> Inr (mn_hash n))"

fun collect_diffs :: "MerkleNode option \<Rightarrow> MerkleNode option \<Rightarrow> int list \<Rightarrow> int list" where
  "collect_diffs (Some (MerkleNode ha la ra ia)) (Some (MerkleNode hb lb rb ib)) out =
     (if ha = hb then out
      else if ia \<ge> 0 \<and> ib \<ge> 0 then out @ [ia]
      else if ia \<ge> 0 \<or> ib \<ge> 0 then out @ [if ia \<ge> 0 then ia else ib]
      else collect_diffs ra rb (collect_diffs la lb out))"
| "collect_diffs a b out = out"

definition diff_leaf_indices :: "MerkleTree \<Rightarrow> MerkleTree \<Rightarrow> int list" where
  "diff_leaf_indices a b =
     (if tree_empty a \<or> tree_empty b \<or> leaf_count a \<noteq> leaf_count b then []
      else collect_diffs (mt_root a) (mt_root b) [])"

section \<open>Building\<close>

lemma to_int_small: "n < 2 ^ 31 \<Longrightarrow> to_int n = int n"
proof -
  assume "n < 2 ^ 31"
  then have "int n < 2 ^ 31" by simp
  then show ?thesis
    by (simp add: to_int_def signed_of_nat signed_take_bit_int_eq_self)
qed

lemma build_leaf:
  "build_recursive cs lo (Suc lo) = Some (MerkleNode (ck_hash (cs ! lo)) None None (to_int lo))"
  by (simp add: build_recursive.simps)

lemma build_total: "lo < hi \<Longrightarrow> \<exists>t. build_recursive cs lo hi = Some t"
proof (induction "hi - lo" arbitrary: lo hi rule: less_induct)
  case less
  show ?case
  proof (cases "hi = Suc lo")
    case True
    then show ?thesis by (simp add: build_leaf)
  next
    case False
    define mid where "mid = lo + (hi - lo) div 2"
    have mid: "lo < mid" "mid < hi"
      using False less.prems by (auto simp: mid_def)
    obtain l r where "build_recursive cs lo mid = Some l" "build_recursive cs mid hi = Some r"
      using less.hyps [of mid lo] less.hyps [of hi mid] mid by fastforce
    with False less.prems mid_def show ?thesis
      by (subst build_recursive.simps) (simp add: Let_def)
  qed
qed

text \<open>The two halves of an interior node, and induction over the tree of a range.\<close>

lemma build_node:
  assumes "build_recursive cs lo hi = Some t" and "lo < hi" and "hi \<noteq> Suc lo"
  defines "mid \<equiv> lo + (hi - lo) div 2"
  obtains l r where "build_recursive cs lo mid = Some l" "build_recursive cs mid hi = Some r"
    "t = MerkleNode (combine (mn_hash l) (mn_hash r)) (Some l) (Some r) (- 1)"
    "lo < mid" "mid < hi"
proof -
  have mid: "lo < mid" "mid < hi"
    using assms(2,3) by (auto simp: mid_def)
  obtain l where l: "build_recursive cs lo mid = Some l"
    using build_total [OF mid(1)] by blast
  obtain r where r: "build_recursive cs mid hi = Some r"
    using build_total [OF mid(2)] by blast
  have "hi - lo \<noteq> 1" using assms(2,3) by arith
  then have "t = MerkleNode (combine (mn_hash l) (mn_hash r)) (Some l) (Some r) (- 1)"
    using assms(1) l r build_recursive.simps [of cs lo hi] by (simp add: Let_def mid_def)
  with l r mid show thesis by (intro that)
qed

lemma range_induct [consumes 1, case_names leaf node]:
  assumes "lo < hi"
    and "\<And>lo. P lo (Suc lo)"
    and "\<And>lo hi mid. lo < mid \<Longrightarrow> mid < hi \<Longrightarrow> mid = lo + (hi - lo) div 2 \<Longrightarrow> hi \<noteq> Suc lo \<Longrightarrow>
      P lo mid \<Longrightarrow> P mid hi \<Longrightarrow> P lo hi"
  shows "P lo (hi :: nat)"
  using assms(1)
proof (induction "hi - lo" arbitrary: lo hi rule: less_induct)
  case less
  show ?case
  proof (cases "hi = Suc lo")
    case True
    then show ?thesis using assms(2) by simp
  next
    case False
    define mid where "mid = lo + (hi - lo) div 2"
    have mid: "lo < mid" "mid < hi"
      using False less.prems by (auto simp: mid_def)
    with less.hyps have "P lo mid" "P mid hi" by auto
    with mid False assms(3) [of lo mid hi] show ?thesis by (simp add: mid_def)
  qed
qed

section \<open>Comparing\<close>

text \<open>The pairs of child hashes that were combined somewhere in a tree.\<close>

fun node_pairs :: "MerkleNode option \<Rightarrow> (Digest \<times> Digest) set" where
  "node_pairs (Some (MerkleNode h (Some l) (Some r) i)) =
     insert (mn_hash l, mn_hash r) (node_pairs (Some l) \<union> node_pairs (Some r))"
| "node_pairs _ = {}"

text \<open>No two different pairs combined in the two trees have the same combined hash.\<close>

definition no_collision :: "MerkleNode \<Rightarrow> MerkleNode \<Rightarrow> bool" where
  "no_collision a b \<longleftrightarrow>
     inj_on (\<lambda>(l, r). combine l r) (node_pairs (Some a) \<union> node_pairs (Some b))"

text \<open>The positions at which two chunk lists have different hashes.\<close>

definition changed :: "Chunk list \<Rightarrow> Chunk list \<Rightarrow> nat \<Rightarrow> nat \<Rightarrow> int list" where
  "changed xs ys lo hi = map int (filter (\<lambda>i. ck_hash (xs ! i) \<noteq> ck_hash (ys ! i)) [lo..<hi])"

lemma changed_leaf:
  "changed xs ys lo (Suc lo) = (if ck_hash (xs ! lo) = ck_hash (ys ! lo) then [] else [int lo])"
  by (simp add: changed_def)

lemma changed_split: "lo \<le> mid \<Longrightarrow> mid \<le> hi \<Longrightarrow> changed xs ys lo hi = changed xs ys lo mid @ changed xs ys mid hi"
  using upt_add_eq_append [of lo mid "hi - mid"] by (simp add: changed_def)

lemma no_collision_children:
  assumes "no_collision (MerkleNode h (Some l) (Some r) i) (MerkleNode h' (Some l') (Some r') i')"
  shows "no_collision l l'" "no_collision r r'"
    and "combine (mn_hash l) (mn_hash r) = combine (mn_hash l') (mn_hash r') \<longleftrightarrow>
      mn_hash l = mn_hash l' \<and> mn_hash r = mn_hash r'"
proof -
  let ?S = "node_pairs (Some (MerkleNode h (Some l) (Some r) i)) \<union>
    node_pairs (Some (MerkleNode h' (Some l') (Some r') i'))"
  have inj: "inj_on (\<lambda>(l, r). combine l r) ?S"
    using assms by (simp only: no_collision_def)
  show "no_collision l l'" "no_collision r r'"
    unfolding no_collision_def by (rule inj_on_subset [OF inj], auto)+
  have "(mn_hash l, mn_hash r) \<in> ?S" "(mn_hash l', mn_hash r') \<in> ?S"
    by simp_all
  then show "combine (mn_hash l) (mn_hash r) = combine (mn_hash l') (mn_hash r') \<longleftrightarrow>
      mn_hash l = mn_hash l' \<and> mn_hash r = mn_hash r'"
    using inj_onD [OF inj, of "(mn_hash l, mn_hash r)" "(mn_hash l', mn_hash r')"] by auto
qed

lemma collect_equal: "mn_hash a = mn_hash b \<Longrightarrow> collect_diffs (Some a) (Some b) out = out"
  by (cases a; cases b) simp

lemma collect_exact:
  assumes "lo < hi" "hi \<le> 2 ^ 31"
    and "build_recursive xs lo hi = Some a" "build_recursive ys lo hi = Some b" "no_collision a b"
  shows "collect_diffs (Some a) (Some b) out = out @ changed xs ys lo hi"
  using assms
proof (induction lo hi arbitrary: a b out rule: range_induct)
  case (leaf lo)
  then show ?case by (auto simp: build_leaf changed_leaf to_int_small)
next
  case (node lo hi mid)
  obtain l r where a: "build_recursive xs lo mid = Some l" "build_recursive xs mid hi = Some r"
      "a = MerkleNode (combine (mn_hash l) (mn_hash r)) (Some l) (Some r) (- 1)"
    using build_node [OF node.prems(2)] node.hyps by (metis less_trans)
  obtain l' r' where b: "build_recursive ys lo mid = Some l'" "build_recursive ys mid hi = Some r'"
      "b = MerkleNode (combine (mn_hash l') (mn_hash r')) (Some l') (Some r') (- 1)"
    using build_node [OF node.prems(3)] node.hyps by (metis less_trans)
  note nc = no_collision_children [OF node.prems(4) [unfolded a(3) b(3)]]
  have left: "collect_diffs (Some l) (Some l') out = out @ changed xs ys lo mid" for out
    using node.IH(1) [OF _ a(1) b(1) nc(1)] node.prems(1) node.hyps by simp
  have right: "collect_diffs (Some r) (Some r') out = out @ changed xs ys mid hi" for out
    using node.IH(2) [OF _ a(2) b(2) nc(2)] node.prems(1) by simp
  have split: "changed xs ys lo hi = changed xs ys lo mid @ changed xs ys mid hi"
    using node.hyps by (intro changed_split) auto
  show ?case
  proof (cases "mn_hash a = mn_hash b")
    case True
    then have "mn_hash l = mn_hash l'" "mn_hash r = mn_hash r'"
      using a(3) b(3) nc(3) by auto
    with left [of out] right [of out] True split show ?thesis by (simp add: collect_equal)
  next
    case False
    with a(3) b(3) left right split show ?thesis by simp
  qed
qed

lemma collect_sound:
  assumes "lo < hi" "hi \<le> 2 ^ 31"
    and "build_recursive xs lo hi = Some a" "build_recursive ys lo hi = Some b"
  shows "\<exists>d. collect_diffs (Some a) (Some b) out = out @ d \<and> set d \<subseteq> set (changed xs ys lo hi)"
  using assms
proof (induction lo hi arbitrary: a b out rule: range_induct)
  case (leaf lo)
  then show ?case by (auto simp: build_leaf changed_leaf to_int_small)
next
  case (node lo hi mid)
  obtain l r where a: "build_recursive xs lo mid = Some l" "build_recursive xs mid hi = Some r"
      "a = MerkleNode (combine (mn_hash l) (mn_hash r)) (Some l) (Some r) (- 1)"
    using build_node [OF node.prems(2)] node.hyps by (metis less_trans)
  obtain l' r' where b: "build_recursive ys lo mid = Some l'" "build_recursive ys mid hi = Some r'"
      "b = MerkleNode (combine (mn_hash l') (mn_hash r')) (Some l') (Some r') (- 1)"
    using build_node [OF node.prems(3)] node.hyps by (metis less_trans)
  obtain d where d: "collect_diffs (Some l) (Some l') out = out @ d" "set d \<subseteq> set (changed xs ys lo mid)"
    using node.IH(1) [OF _ a(1) b(1)] node.prems(1) node.hyps by (metis less_imp_le order_trans)
  obtain e where e: "collect_diffs (Some r) (Some r') (out @ d) = out @ d @ e" "set e \<subseteq> set (changed xs ys mid hi)"
    using node.IH(2) [OF node.prems(1) a(2) b(2), of "out @ d"] by auto
  have "changed xs ys lo hi = changed xs ys lo mid @ changed xs ys mid hi"
    using node.hyps by (intro changed_split) auto
  with a(3) b(3) d e show ?case
    by (cases "mn_hash a = mn_hash b") (auto simp: collect_equal)
qed

section \<open>The root hash\<close>

text \<open>What the root is, as a function of the list of chunk hashes alone.\<close>

function merkle_hash :: "Digest list \<Rightarrow> Digest" where
  "merkle_hash hs =
     (case hs of
        [] \<Rightarrow> digest_of []
      | [h] \<Rightarrow> h
      | _ \<Rightarrow> combine (merkle_hash (take (length hs div 2) hs)) (merkle_hash (drop (length hs div 2) hs)))"
  by pat_completeness auto
termination
  by (relation "measure length") auto

declare merkle_hash.simps [simp del]

lemma merkle_hash_one [simp]: "merkle_hash [h] = h"
  by (subst merkle_hash.simps) simp

lemma merkle_hash_split:
  assumes "2 \<le> length hs"
  shows "merkle_hash hs =
    combine (merkle_hash (take (length hs div 2) hs)) (merkle_hash (drop (length hs div 2) hs))"
proof -
  obtain a b r where hs: "hs = a # b # r"
    using assms by (cases hs; cases "tl hs") auto
  show ?thesis
    unfolding hs by (rule trans [OF merkle_hash.simps]) (simp only: list.case)
qed

definition range_hashes :: "Chunk list \<Rightarrow> nat \<Rightarrow> nat \<Rightarrow> Digest list" where
  "range_hashes cs lo hi = map ck_hash (take (hi - lo) (drop lo cs))"

lemma build_hash:
  assumes "lo < hi" "hi \<le> length cs" "build_recursive cs lo hi = Some t"
  shows "mn_hash t = merkle_hash (range_hashes cs lo hi)"
  using assms
proof (induction lo hi arbitrary: t rule: range_induct)
  case (leaf lo)
  then have "take (Suc lo - lo) (drop lo cs) = [cs ! lo]"
    by (simp add: take_Suc_conv_app_nth)
  with leaf show ?case by (auto simp: build_leaf range_hashes_def)
next
  case (node lo hi mid)
  obtain l r where t: "build_recursive cs lo mid = Some l" "build_recursive cs mid hi = Some r"
      "t = MerkleNode (combine (mn_hash l) (mn_hash r)) (Some l) (Some r) (- 1)"
    using build_node [OF node.prems(2)] node.hyps by (metis less_trans)
  define hs where "hs = range_hashes cs lo hi"
  have len: "length hs = hi - lo" "2 \<le> hi - lo" and half: "length hs div 2 = mid - lo"
    using node.hyps node.prems(1) by (auto simp: hs_def range_hashes_def)
  have "take (mid - lo) hs = range_hashes cs lo mid" "drop (mid - lo) hs = range_hashes cs mid hi"
    using node.hyps by (auto simp: hs_def range_hashes_def take_map drop_map drop_take add.commute)
  then have "merkle_hash hs = combine (merkle_hash (range_hashes cs lo mid)) (merkle_hash (range_hashes cs mid hi))"
    using merkle_hash_split [of hs] len half by simp
  moreover have "mn_hash l = merkle_hash (range_hashes cs lo mid)"
      "mn_hash r = merkle_hash (range_hashes cs mid hi)"
    using node.IH t(1,2) node.prems(1) node.hyps by auto
  ultimately show ?case by (simp add: t(3) hs_def)
qed

lemma merkle_build_root:
  assumes "cs \<noteq> []"
  obtains root where "merkle_build cs = Some \<lparr>mt_root = Some root, leaf_count = length cs\<rparr>"
    "build_recursive cs 0 (length cs) = Some root" "mn_hash root = merkle_hash (map ck_hash cs)"
proof -
  obtain root where root: "build_recursive cs 0 (length cs) = Some root"
    using build_total [of 0 "length cs" cs] assms by auto
  moreover have "mn_hash root = merkle_hash (map ck_hash cs)"
    using build_hash [OF _ _ root] assms by (simp add: range_hashes_def)
  ultimately show thesis
    using that assms by (simp add: merkle_build_def)
qed

section \<open>Properties\<close>

text \<open>
  Claim C32. Building a tree always returns: the empty tree for no chunks, and otherwise a tree
  with one leaf per chunk whose root is determined by the list of chunk hashes.
\<close>

theorem merkle_build_total:
  "\<exists>t. merkle_build cs = Some t \<and> leaf_count t = length cs \<and> (tree_empty t \<longleftrightarrow> cs = []) \<and>
     tree_root t = (if cs = [] then Inl Undefined_behaviour else Inr (merkle_hash (map ck_hash cs)))"
proof (cases "cs = []")
  case True
  then show ?thesis by (simp add: merkle_build_def tree_empty_def tree_root_def)
next
  case False
  then obtain root where "merkle_build cs = Some \<lparr>mt_root = Some root, leaf_count = length cs\<rparr>"
      "mn_hash root = merkle_hash (map ck_hash cs)"
    by (rule merkle_build_root)
  with False show ?thesis by (simp add: tree_empty_def tree_root_def)
qed


text \<open>Two versions of a file of one chunk, for the concrete instances below.\<close>

definition one_chunk :: "byte \<Rightarrow> Chunk list" where
  "one_chunk b = [\<lparr>ck_offset = 0, ck_data = [b], ck_hash = digest_of [b]\<rparr>]"

lemma digest_of_single: "digest_of [1] \<noteq> digest_of [2]"
  by (simp add: digest_bytes_digest_of flip: digest_bytes_inject)

lemma build_one_chunk:
  "merkle_build (one_chunk b) =
     Some \<lparr>mt_root = Some (MerkleNode (digest_of [b]) None None 0), leaf_count = 1\<rparr>"
  by (simp add: merkle_build_def one_chunk_def build_leaf to_int_def)


text \<open>
  Claim C29. Without any assumption on the hash, a reported index is never wrong: the chunk
  hashes at it do differ.
\<close>

theorem merkle_diff_sound:
  assumes "merkle_build xs = Some a" "merkle_build ys = Some b" "length xs \<le> 2 ^ 31"
    and "i \<in> set (diff_leaf_indices a b)"
  shows "0 \<le> i \<and> nat i < length xs \<and> ck_hash (xs ! nat i) \<noteq> ck_hash (ys ! nat i)"
proof -
  have ne: "xs \<noteq> []" "ys \<noteq> []"
    using assms(1,2,4) by (auto simp: merkle_build_def diff_leaf_indices_def tree_empty_def split: if_splits)
  obtain ra where ra: "a = \<lparr>mt_root = Some ra, leaf_count = length xs\<rparr>"
      "build_recursive xs 0 (length xs) = Some ra"
    using merkle_build_root [OF ne(1)] assms(1) by (metis option.inject)
  obtain rb where rb: "b = \<lparr>mt_root = Some rb, leaf_count = length ys\<rparr>"
      "build_recursive ys 0 (length ys) = Some rb"
    using merkle_build_root [OF ne(2)] assms(2) by (metis option.inject)
  have len: "length xs = length ys"
    using assms(4) ra(1) rb(1) by (auto simp: diff_leaf_indices_def split: if_splits)
  obtain d where "collect_diffs (Some ra) (Some rb) [] = [] @ d" "set d \<subseteq> set (changed xs ys 0 (length xs))"
    using collect_sound [OF _ assms(3) ra(2)] rb(2) ne(1) len by (metis length_greater_0_conv)
  then show ?thesis
    using assms(4) ra(1) rb(1) len by (auto simp: diff_leaf_indices_def tree_empty_def changed_def)
qed

theorem merkle_diff_sound_witness: "ck_hash (one_chunk 1 ! nat 0) \<noteq> ck_hash (one_chunk 2 ! nat 0)"
proof -
  have "(0::int) \<in> set (diff_leaf_indices
      \<lparr>mt_root = Some (MerkleNode (digest_of [1]) None None 0), leaf_count = 1\<rparr>
      \<lparr>mt_root = Some (MerkleNode (digest_of [2]) None None 0), leaf_count = 1\<rparr>)"
    by (simp add: diff_leaf_indices_def tree_empty_def digest_of_single)
  moreover have "length (one_chunk 1) \<le> 2 ^ 31" by (simp add: one_chunk_def)
  ultimately show ?thesis
    using merkle_diff_sound [OF build_one_chunk build_one_chunk] by blast
qed

lemma build_hash_inject:
  assumes "lo < hi" "hi \<le> length xs" "hi \<le> length ys"
    and "build_recursive xs lo hi = Some a" "build_recursive ys lo hi = Some b" "no_collision a b"
    and "mn_hash a = mn_hash b"
  shows "range_hashes xs lo hi = range_hashes ys lo hi"
  using assms
proof (induction lo hi arbitrary: a b rule: range_induct)
  case (leaf lo)
  then have "take (Suc lo - lo) (drop lo cs) = [cs ! lo]" if "cs \<in> {xs, ys}" for cs
    using that by (auto simp: take_Suc_conv_app_nth)
  with leaf show ?case by (auto simp: build_leaf range_hashes_def)
next
  case (node lo hi mid)
  obtain l r where a: "build_recursive xs lo mid = Some l" "build_recursive xs mid hi = Some r"
      "a = MerkleNode (combine (mn_hash l) (mn_hash r)) (Some l) (Some r) (- 1)"
    using build_node [OF node.prems(3)] node.hyps by (metis less_trans)
  obtain l' r' where b: "build_recursive ys lo mid = Some l'" "build_recursive ys mid hi = Some r'"
      "b = MerkleNode (combine (mn_hash l') (mn_hash r')) (Some l') (Some r') (- 1)"
    using build_node [OF node.prems(4)] node.hyps by (metis less_trans)
  note nc = no_collision_children [OF node.prems(5) [unfolded a(3) b(3)]]
  have "mn_hash l = mn_hash l'" "mn_hash r = mn_hash r'"
    using node.prems(6) a(3) b(3) nc(3) by auto
  then have "range_hashes xs lo mid = range_hashes ys lo mid" "range_hashes xs mid hi = range_hashes ys mid hi"
    using node.IH a b nc(1,2) node.prems(1,2) node.hyps by auto
  moreover have "range_hashes cs lo hi = range_hashes cs lo mid @ range_hashes cs mid hi" for cs
    using node.hyps take_add [of "mid - lo" "hi - mid" "drop lo cs"]
    by (simp add: range_hashes_def add.commute)
  ultimately show ?case by simp
qed

text \<open>
  Claim C30. Equal roots mean equal files, for chunk lists of the same length and as long as no
  two different pairs of hashes in the two trees combine to the same hash: the roots match
  exactly if all chunk hashes match.
\<close>

theorem merkle_root_identifies:
  assumes "merkle_build xs = Some a" "merkle_build ys = Some b"
    and "length xs = length ys" "xs \<noteq> []"
    and "\<And>ra rb. mt_root a = Some ra \<Longrightarrow> mt_root b = Some rb \<Longrightarrow> no_collision ra rb"
  shows "tree_root a = tree_root b \<longleftrightarrow> map ck_hash xs = map ck_hash ys"
proof -
  have "ys \<noteq> []" using assms(3,4) by auto
  obtain ra where ra: "a = \<lparr>mt_root = Some ra, leaf_count = length xs\<rparr>"
      "build_recursive xs 0 (length xs) = Some ra" "mn_hash ra = merkle_hash (map ck_hash xs)"
    using merkle_build_root [OF assms(4)] assms(1) by (metis option.inject)
  obtain rb where rb: "b = \<lparr>mt_root = Some rb, leaf_count = length ys\<rparr>"
      "build_recursive ys 0 (length ys) = Some rb" "mn_hash rb = merkle_hash (map ck_hash ys)"
    using merkle_build_root [OF \<open>ys \<noteq> []\<close>] assms(2) by (metis option.inject)
  have "map ck_hash xs = map ck_hash ys" if "mn_hash ra = mn_hash rb"
    using build_hash_inject [of 0 "length xs" xs ys ra rb] that ra rb assms(3-5) \<open>ys \<noteq> []\<close>
    by (simp add: range_hashes_def)
  with ra rb show ?thesis by (auto simp: tree_root_def)
qed

theorem merkle_root_identifies_witness:
  "tree_root \<lparr>mt_root = Some (MerkleNode (digest_of [1]) None None 0), leaf_count = 1\<rparr> \<noteq>
   tree_root \<lparr>mt_root = Some (MerkleNode (digest_of [2]) None None 0), leaf_count = 1\<rparr>"
proof -
  have "length (one_chunk 1) = length (one_chunk 2)" "one_chunk 1 \<noteq> []"
    by (simp_all add: one_chunk_def)
  note root = merkle_root_identifies [OF build_one_chunk [of 1] build_one_chunk [of 2] this]
  show ?thesis
    by (subst root) (auto simp: no_collision_def one_chunk_def digest_of_single)
qed

text \<open>
  Claim C31. Across different numbers of chunks equal roots do not mean equal files: leaves and
  interior nodes are hashed alike, so for every file of two chunks the 64 bytes of their two
  hashes, as a file of one chunk, have the same root.
\<close>

theorem merkle_root_forged:
  assumes "ck_data z = digest_bytes (ck_hash x) @ digest_bytes (ck_hash y)"
    and "ck_hash z = hash (ck_data z)"
  shows "\<exists>a b. merkle_build [x, y] = Some a \<and> merkle_build [z] = Some b \<and>
    leaf_count a \<noteq> leaf_count b \<and> tree_root a = tree_root b"
proof -
  have "merkle_hash [ck_hash x, ck_hash y] = combine (ck_hash x) (ck_hash y)"
    by (simp add: merkle_hash_split)
  then have "merkle_hash (map ck_hash [x, y]) = merkle_hash (map ck_hash [z])"
    using assms by (simp add: combine_def)
  moreover obtain a where "merkle_build [x, y] = Some \<lparr>mt_root = Some a, leaf_count = 2\<rparr>"
      "mn_hash a = merkle_hash (map ck_hash [x, y])"
    by (rule merkle_build_root [of "[x, y]"]) auto
  moreover obtain b where "merkle_build [z] = Some \<lparr>mt_root = Some b, leaf_count = 1\<rparr>"
      "mn_hash b = merkle_hash (map ck_hash [z])"
    by (rule merkle_build_root [of "[z]"]) auto
  ultimately show ?thesis by (simp add: tree_root_def)
qed

theorem merkle_root_forged_witness:
  "\<exists>a b. merkle_build [one_chunk 1 ! 0, one_chunk 2 ! 0] = Some a \<and>
     merkle_build [\<lparr>ck_offset = 0, ck_data = digest_bytes (digest_of [1]) @ digest_bytes (digest_of [2]),
       ck_hash = hash (digest_bytes (digest_of [1]) @ digest_bytes (digest_of [2]))\<rparr>] = Some b \<and>
     leaf_count a \<noteq> leaf_count b \<and> tree_root a = tree_root b"
  by (rule merkle_root_forged) (simp_all add: one_chunk_def)

end
