(* ===== verification/System_World.thy ===== *)
theory System_World
  imports P2P_Prelude
begin

text \<open>
  The world the program runs in, as far as the sources use it through the standard library:
  a file system (\<^verbatim>\<open>std::filesystem\<close>, \<^verbatim>\<open>std::ifstream\<close>, \<^verbatim>\<open>std::ofstream\<close>), the standard
  output and error streams, and one TCP connection.  Code with effects takes the world and
  returns its result, or the exception it throws, together with the world it leaves behind, so
  that what an operation did before it threw is kept.

  Left out: symbolic links, permissions, full disks and over-long names; every file the program
  may create it can create.
\<close>

section \<open>Effects\<close>

datatype node = File "byte list" | Dir

text \<open>
  What a \<^verbatim>\<open>send\<close> or \<^verbatim>\<open>recv\<close> call does next: it fails, or it moves one byte and at most so
  many more.  The operating system chooses; a list of these choices is part of the world, and
  a call past its end moves as much as it can.  A call that opens or connects a socket fails or
  not in the same way.
\<close>

datatype syscall = Fail | Upto nat

text \<open>
  The disk and the working directory; what has been printed; the bytes of the connection that
  are still to arrive, those sent, and what the next calls on it do; the open descriptors, what
  the next calls to open and connect sockets do, the addresses a host name and a port resolve to
  (none if resolution fails), and the port last bound.
\<close>

record world =
  w_nodes :: "string list \<Rightarrow> node option"
  w_cwd :: "string list"
  w_out :: string
  w_err :: string
  w_incoming :: "byte list"
  w_sent :: "byte list"
  w_recv_calls :: "syscall list"
  w_send_calls :: "syscall list"
  w_fds :: "int list"
  w_socket_calls :: "syscall list"
  w_hosts :: "string \<Rightarrow> string \<Rightarrow> string list"
  w_bound :: "u16 option"

type_synonym 'a io = "world \<Rightarrow> 'a result \<times> world"

definition io_return :: "'a \<Rightarrow> 'a io" where
  "io_return x w = (Inr x, w)"

definition io_throw :: "error \<Rightarrow> 'a io" where
  "io_throw e w = (Inl e, w)"

definition io_bind :: "'a io \<Rightarrow> ('a \<Rightarrow> 'b io) \<Rightarrow> 'b io" where
  "io_bind m f w = (case m w of (Inl e, w') \<Rightarrow> (Inl e, w') | (Inr x, w') \<Rightarrow> f x w')"

definition io_then :: "unit io \<Rightarrow> 'b io \<Rightarrow> 'b io" where
  "io_then m k = io_bind m (\<lambda>_. k)"

definition io_lift :: "'a result \<Rightarrow> 'a io" where
  "io_lift r w = (r, w)"

definition io_gets :: "(world \<Rightarrow> 'a) \<Rightarrow> 'a io" where
  "io_gets f w = (Inr (f w), w)"

fun io_for :: "'a list \<Rightarrow> ('a \<Rightarrow> unit io) \<Rightarrow> unit io" where
  "io_for [] f = io_return ()"
| "io_for (x # xs) f = io_then (f x) (io_for xs f)"

definition print_out :: "string \<Rightarrow> unit io" where
  "print_out s w = (Inr (), w\<lparr>w_out := w_out w @ s\<rparr>)"

definition print_err :: "string \<Rightarrow> unit io" where
  "print_err s w = (Inr (), w\<lparr>w_err := w_err w @ s\<rparr>)"

lemma io_bind_Inr [simp]: "m w = (Inr x, w') \<Longrightarrow> io_bind m f w = f x w'"
  by (simp add: io_bind_def)

lemma io_bind_Inl [simp]: "m w = (Inl e, w') \<Longrightarrow> io_bind m f w = (Inl e, w')"
  by (simp add: io_bind_def)

lemma io_then_Inr [simp]: "m w = (Inr (), w') \<Longrightarrow> io_then m k w = k w'"
  by (simp add: io_then_def)

lemma io_then_Inl [simp]: "m w = (Inl e, w') \<Longrightarrow> io_then m k w = (Inl e, w')"
  by (simp add: io_then_def)

lemma io_simps [simp]:
  "io_return x w = (Inr x, w)" "io_throw e w = (Inl e, w)" "io_lift r w = (r, w)"
  "io_gets f w = (Inr (f w), w)"
  by (simp_all add: io_return_def io_throw_def io_lift_def io_gets_def)

lemma io_bind_eq_Inr:
  "io_bind m f w = (Inr y, w') \<longleftrightarrow> (\<exists>x v. m w = (Inr x, v) \<and> f x v = (Inr y, w'))"
  by (auto simp: io_bind_def split: prod.split sum.split)

lemma io_then_eq_Inr:
  "io_then m k w = (Inr y, w') \<longleftrightarrow> (\<exists>v. m w = (Inr (), v) \<and> k v = (Inr y, w'))"
  by (simp add: io_then_def io_bind_eq_Inr)

section \<open>Paths\<close>

text \<open>
  A \<^verbatim>\<open>std::filesystem::path\<close>: its components, the pieces between slashes.  An empty component
  (a doubled or a trailing slash) names the directory reached so far.
\<close>

datatype path = Path (absolute: bool) (comps: "string list")

abbreviation SLASH :: char where
  "SLASH \<equiv> CHR ''/''"

abbreviation NUL :: char where
  "NUL \<equiv> CHR 0x00"

fun split_on :: "'a \<Rightarrow> 'a list \<Rightarrow> 'a list list" where
  "split_on d [] = [[]]"
| "split_on d (c # cs) =
     (if c = d then [] # split_on d cs
      else case split_on d cs of [] \<Rightarrow> [[c]] | p # ps \<Rightarrow> (c # p) # ps)"

definition path_of :: "string \<Rightarrow> path" where
  "path_of s =
     (if s = [] then Path False []
      else if hd s = SLASH then Path True (split_on SLASH (tl s))
      else Path False (split_on SLASH s))"

text \<open>\<^verbatim>\<open>fs::path(dir) / relative\<close>: an absolute right operand replaces the left one.\<close>

definition path_append :: "string \<Rightarrow> string \<Rightarrow> path" where
  "path_append dir rel =
     (if rel \<noteq> [] \<and> hd rel = SLASH then path_of rel
      else if dir = [] then path_of rel
      else case path_of dir of
             Path a cs \<Rightarrow> Path a ((if last cs = [] then butlast cs else cs) @ split_on SLASH rel))"

text \<open>\<^verbatim>\<open>parent_path()\<close>: without the last component.\<close>

fun parent_path :: "path \<Rightarrow> path" where
  "parent_path (Path a cs) = Path a (butlast cs)"

text \<open>A system call sees a path up to its first NUL character.\<close>

fun cut_nul :: "string list \<Rightarrow> string list" where
  "cut_nul [] = []"
| "cut_nul (c # cs) = (if NUL \<in> set c then [takeWhile (\<lambda>x. x \<noteq> NUL) c] else c # cut_nul cs)"

fun is_empty_path :: "path \<Rightarrow> bool" where
  "is_empty_path (Path a cs) \<longleftrightarrow> \<not> a \<and> (cut_nul cs = [] \<or> hd (cut_nul cs) = [])"

section \<open>The file system\<close>

definition path_step :: "string list \<Rightarrow> string \<Rightarrow> string list" where
  "path_step cur c =
     (if c = [] \<or> c = ''.'' then cur else if c = ''..'' then butlast cur else cur @ [c])"

fun walk :: "world \<Rightarrow> string list \<Rightarrow> string list \<Rightarrow> string list option" where
  "walk w cur [] = Some cur"
| "walk w cur (c # cs) =
     (if w_nodes w cur = Some Dir then walk w (path_step cur c) cs else None)"

definition path_start :: "world \<Rightarrow> path \<Rightarrow> string list" where
  "path_start w p = (if absolute p then [] else w_cwd w)"

text \<open>The place a path names, if every directory on the way exists.\<close>

definition resolve :: "world \<Rightarrow> path \<Rightarrow> string list option" where
  "resolve w p = (if is_empty_path p then None else walk w (path_start w p) (cut_nul (comps p)))"

definition node_at :: "world \<Rightarrow> path \<Rightarrow> node option" where
  "node_at w p = Option.bind (resolve w p) (w_nodes w)"

text \<open>\<^verbatim>\<open>fs::exists\<close>.\<close>

definition fs_exists :: "world \<Rightarrow> path \<Rightarrow> bool" where
  "fs_exists w p \<longleftrightarrow> node_at w p \<noteq> None"

text \<open>
  \<^verbatim>\<open>std::ofstream out(p, \<dots>); out.write(\<dots>)\<close>: truncates or creates the file; where the file
  cannot be opened nothing is written and nothing is reported.
\<close>

definition write_file :: "path \<Rightarrow> byte list \<Rightarrow> unit io" where
  "write_file p bytes w =
     (Inr (),
      case resolve w p of
        None \<Rightarrow> w
      | Some q \<Rightarrow> if w_nodes w q = Some Dir then w else w\<lparr>w_nodes := (w_nodes w)(q \<mapsto> File bytes)\<rparr>)"

text \<open>\<^verbatim>\<open>fs::create_directories\<close>: every missing component in turn.\<close>

fun make_dirs :: "string list \<Rightarrow> string list \<Rightarrow> unit io" where
  "make_dirs cur [] w = (Inr (), w)"
| "make_dirs cur (c # cs) w =
     (let q = path_step cur c
      in case w_nodes w q of
           Some Dir \<Rightarrow> make_dirs q cs w
         | Some (File _) \<Rightarrow> (Inl (Runtime_error ''filesystem error: Not a directory''), w)
         | None \<Rightarrow> make_dirs q cs (w\<lparr>w_nodes := (w_nodes w)(q \<mapsto> Dir)\<rparr>))"

definition create_directories :: "path \<Rightarrow> unit io" where
  "create_directories p w =
     (if is_empty_path p then (Inl (Runtime_error ''filesystem error: Invalid argument''), w)
      else make_dirs (path_start w p) (cut_nul (comps p)) w)"

section \<open>Facts about the file system\<close>

text \<open>The file system is a tree: what exists lies in directories that exist.\<close>

definition tree_ok :: "world \<Rightarrow> bool" where
  "tree_ok w \<longleftrightarrow> w_nodes w [] = Some Dir \<and> w_nodes w (w_cwd w) = Some Dir \<and>
     (\<forall>q c. w_nodes w (q @ [c]) \<noteq> None \<longrightarrow> w_nodes w q = Some Dir)"

text \<open>
  What the program does to the file system: directories stay directories and files stay files,
  with whatever content; nothing is removed.
\<close>

definition fs_le :: "world \<Rightarrow> world \<Rightarrow> bool" where
  "fs_le w w' \<longleftrightarrow> w_cwd w' = w_cwd w \<and>
     (\<forall>q. w_nodes w q = Some Dir \<longrightarrow> w_nodes w' q = Some Dir) \<and>
     (\<forall>q. w_nodes w q \<noteq> None \<longrightarrow> w_nodes w q \<noteq> Some Dir \<longrightarrow>
        w_nodes w' q \<noteq> None \<and> w_nodes w' q \<noteq> Some Dir)"

lemma fs_le_refl [simp]: "fs_le w w"
  by (simp add: fs_le_def)

lemma fs_le_trans: "fs_le u v \<Longrightarrow> fs_le v w \<Longrightarrow> fs_le u w"
  by (simp add: fs_le_def)

lemma fs_le_cong: "w_nodes w = w_nodes w' \<Longrightarrow> w_cwd w = w_cwd w' \<Longrightarrow> fs_le w w'"
  by (simp add: fs_le_def)

lemma nodes_only_trans:
  "v = w\<lparr>w_nodes := w_nodes v\<rparr> \<Longrightarrow> u = v\<lparr>w_nodes := w_nodes u\<rparr> \<Longrightarrow> u = (w\<lparr>w_nodes := w_nodes u\<rparr> :: world)"
  by (cases u, cases v, cases w) simp

lemma split_on_neq_Nil [simp]: "split_on d s \<noteq> []"
  by (induction d s rule: split_on.induct) (auto split: list.split)

lemma split_on_append: "split_on d (a @ d # b) = split_on d a @ split_on d b"
  by (induction a) (auto split: list.split)

lemma split_on_single: "d \<notin> set s \<Longrightarrow> split_on d s = [s]"
  by (induction s) auto

lemma split_on_parts: "c \<in> set (split_on d s) \<Longrightarrow> d \<notin> set c \<and> set c \<subseteq> set s"
  by (induction s arbitrary: c) (fastforce split: list.splits if_splits)+

lemma cut_nul_id: "\<forall>c \<in> set cs. NUL \<notin> set c \<Longrightarrow> cut_nul cs = cs"
  by (induction cs) auto

lemma cut_nul_append: "\<forall>c \<in> set cs. NUL \<notin> set c \<Longrightarrow> cut_nul (cs @ ds) = cs @ cut_nul ds"
  by (induction cs) auto

lemma walk_append: "walk w cur (cs @ ds) = Option.bind (walk w cur cs) (\<lambda>q. walk w q ds)"
  by (induction cs arbitrary: cur) auto

text \<open>What a path names depends on the disk only.\<close>

lemma resolve_cong:
  assumes "w_nodes w' = w_nodes w" "w_cwd w' = w_cwd w"
  shows "resolve w' p = resolve w p" "node_at w' p = node_at w p" "tree_ok w' \<longleftrightarrow> tree_ok w"
proof -
  have "walk w' cur cs = walk w cur cs" for cur cs
    using assms(1) by (induction cs arbitrary: cur) auto
  then show "resolve w' p = resolve w p"
    using assms(2) by (simp add: resolve_def path_start_def)
  then show "node_at w' p = node_at w p" "tree_ok w' \<longleftrightarrow> tree_ok w"
    using assms by (simp_all add: node_at_def tree_ok_def)
qed

lemma walk_mono: "walk w cur cs = Some q \<Longrightarrow> fs_le w w' \<Longrightarrow> walk w' cur cs = Some q"
  by (induction cs arbitrary: cur) (auto simp: fs_le_def split: if_splits)

lemma resolve_mono: "resolve w p = Some q \<Longrightarrow> fs_le w w' \<Longrightarrow> resolve w' p = Some q"
  by (auto simp: resolve_def path_start_def fs_le_def intro: walk_mono split: if_splits)

lemma walk_dir:
  "walk w cur cs = Some q \<Longrightarrow> tree_ok w \<Longrightarrow> w_nodes w cur = Some Dir \<Longrightarrow> cs \<noteq> [] \<Longrightarrow>
   w_nodes w q = Some Dir \<or> (\<exists>d c. q = d @ [c] \<and> w_nodes w d = Some Dir)"
proof (induction cs arbitrary: cur)
  case (Cons c cs)
  have dir: "w_nodes w (butlast cur) = Some Dir"
    using Cons.prems(2,3) by (cases cur rule: rev_cases) (auto simp: tree_ok_def)
  show ?case
  proof (cases "cs = []")
    case True
    with Cons.prems dir show ?thesis by (auto simp: path_step_def)
  next
    case False
    then obtain d ds where "cs = d # ds" by (cases cs) auto
    with Cons show ?thesis by (auto split: if_splits)
  qed
qed simp

lemma resolve_dir:
  assumes "resolve w p = Some q" "tree_ok w"
  shows "w_nodes w q = Some Dir \<or> (\<exists>d c. q = d @ [c] \<and> w_nodes w d = Some Dir)"
proof -
  have start: "w_nodes w (path_start w p) = Some Dir"
    using assms(2) by (simp add: path_start_def tree_ok_def)
  have "walk w (path_start w p) (cut_nul (comps p)) = Some q"
    using assms(1) by (simp add: resolve_def split: if_splits)
  then show ?thesis
    using walk_dir [OF _ assms(2) start] start by (cases "cut_nul (comps p) = []") auto
qed

lemma tree_ok_write_node:
  assumes "tree_ok w" "w_nodes w q \<noteq> Some Dir" "resolve w p = Some q"
  shows "tree_ok (w\<lparr>w_nodes := (w_nodes w)(q \<mapsto> File b)\<rparr>)"
proof -
  from resolve_dir [OF assms(3,1)] assms(2) obtain d c where q: "q = d @ [c]" "w_nodes w d = Some Dir"
    by auto
  have "w_nodes w (q @ [x]) = None" for x
    using assms(1,2) unfolding tree_ok_def by blast
  with q assms(1,2) show ?thesis by (auto simp: tree_ok_def)
qed

lemma write_file_Inr [simp]: "fst (write_file p b w) = Inr ()"
  by (simp add: write_file_def)

lemma write_file_ok: "tree_ok w \<Longrightarrow> tree_ok (snd (write_file p b w))"
  by (auto simp: write_file_def tree_ok_write_node split: option.split)

lemma write_file_le: "fs_le w (snd (write_file p b w))"
  by (auto simp: write_file_def fs_le_def split: option.split)

lemma tree_ok_make_dir:
  assumes "tree_ok w" "w_nodes w cur = Some Dir" "w_nodes w (path_step cur c) = None"
  shows "tree_ok (w\<lparr>w_nodes := (w_nodes w)(path_step cur c \<mapsto> Dir)\<rparr>)"
proof -
  have "w_nodes w (butlast cur) = Some Dir"
    using assms(1,2) by (cases cur rule: rev_cases) (auto simp: tree_ok_def)
  with assms have "path_step cur c = cur @ [c]" by (auto simp: path_step_def split: if_splits)
  with assms show ?thesis by (auto simp: tree_ok_def)
qed

text \<open>Creating directories: nothing else changes, and afterwards the path leads to a directory.\<close>

lemma make_dirs_frame:
  "make_dirs cur cs w = (r, w') \<Longrightarrow> tree_ok w \<Longrightarrow> w_nodes w cur = Some Dir \<Longrightarrow>
   tree_ok w' \<and> fs_le w w' \<and> w_cwd w' = w_cwd w \<and>
   (\<forall>q. w_nodes w' q = w_nodes w q \<or> w_nodes w q = None \<and> w_nodes w' q = Some Dir) \<and>
   w' = w\<lparr>w_nodes := w_nodes w'\<rparr>"
proof (induction cur cs w rule: make_dirs.induct)
  case (2 cur c cs w)
  show ?case
  proof (cases "w_nodes w (path_step cur c)")
    case None
    define v where "v = w\<lparr>w_nodes := (w_nodes w)(path_step cur c \<mapsto> Dir)\<rparr>"
    have v: "tree_ok v" "w_nodes v (path_step cur c) = Some Dir" "fs_le w v"
      using tree_ok_make_dir [OF 2(4,5) None] None by (auto simp: v_def fs_le_def)
    have "make_dirs (path_step cur c) cs v = (r, w')"
      using 2(3) None by (simp add: v_def Let_def)
    from 2(1) [OF refl None] this v
    have IH: "tree_ok w' \<and> fs_le v w' \<and> w_cwd w' = w_cwd v \<and>
        (\<forall>q. w_nodes w' q = w_nodes v q \<or> w_nodes v q = None \<and> w_nodes w' q = Some Dir) \<and>
        w' = v\<lparr>w_nodes := w_nodes w'\<rparr>"
      by (simp add: v_def)
    then have "w' = w\<lparr>w_nodes := w_nodes w'\<rparr>"
      by (intro nodes_only_trans [of v w w']) (simp_all add: v_def)
    moreover have "w_nodes w' q = w_nodes w q \<or> w_nodes w q = None \<and> w_nodes w' q = Some Dir" for q
      using IH None by (auto simp: v_def split: if_splits)
    ultimately show ?thesis using IH v fs_le_trans by (auto simp: v_def)
  next
    case (Some n)
    with 2 show ?thesis by (cases n) (auto simp: Let_def)
  qed
qed auto

lemma make_dirs_walk:
  "make_dirs cur cs w = (Inr (), w') \<Longrightarrow> tree_ok w \<Longrightarrow> w_nodes w cur = Some Dir \<Longrightarrow>
   \<exists>q. walk w' cur cs = Some q \<and> w_nodes w' q = Some Dir"
proof (induction cur cs w rule: make_dirs.induct)
  case (2 cur c cs w)
  have dir: "w_nodes w' cur = Some Dir"
    using make_dirs_frame [OF 2(3-5)] 2(5) by (simp add: fs_le_def)
  show ?case
  proof (cases "w_nodes w (path_step cur c)")
    case None
    with 2(1) [OF refl None] 2(3) dir tree_ok_make_dir [OF 2(4,5) None] show ?thesis
      by (simp add: Let_def)
  next
    case (Some n)
    with 2 dir show ?thesis by (cases n) (auto simp: Let_def)
  qed
qed auto

text \<open>The same for whole paths.\<close>

definition grows :: "world \<Rightarrow> world \<Rightarrow> bool" where
  "grows w w' \<longleftrightarrow>
     (\<forall>q. w_nodes w' q = w_nodes w q \<or> w_nodes w q = None \<and> w_nodes w' q = Some Dir)"

lemma path_start_dir: "tree_ok w \<Longrightarrow> w_nodes w (path_start w p) = Some Dir"
  by (simp add: tree_ok_def path_start_def)

lemma create_directories_frame:
  assumes "create_directories p w = (r, w')" "tree_ok w"
  shows "tree_ok w' \<and> fs_le w w' \<and> grows w w' \<and> w' = w\<lparr>w_nodes := w_nodes w'\<rparr>"
  using assms make_dirs_frame [OF _ assms(2) path_start_dir [OF assms(2)]]
  by (auto simp: create_directories_def grows_def split: if_splits)

lemma create_directories_resolve:
  assumes "create_directories p w = (Inr (), w')" "tree_ok w"
  shows "\<exists>q. resolve w' p = Some q \<and> w_nodes w' q = Some Dir"
proof -
  have "path_start w' p = path_start w p"
    using create_directories_frame [OF assms] by (simp add: path_start_def fs_le_def)
  then show ?thesis
    using assms make_dirs_walk [OF _ assms(2) path_start_dir [OF assms(2)]]
    by (auto simp: create_directories_def resolve_def split: if_splits)
qed

lemma make_dirs_existing:
  "walk w cur cs = Some q \<Longrightarrow> w_nodes w q = Some Dir \<Longrightarrow> make_dirs cur cs w = (Inr (), w)"
proof (induction cs arbitrary: cur)
  case (Cons c cs)
  have "w_nodes w (path_step cur c) = Some Dir"
    using Cons.prems by (cases cs) (auto split: if_splits)
  with Cons show ?case by (auto simp: Let_def split: if_splits)
qed simp

lemma create_directories_existing:
  "resolve w p = Some q \<Longrightarrow> w_nodes w q = Some Dir \<Longrightarrow> create_directories p w = (Inr (), w)"
  by (auto simp: resolve_def create_directories_def make_dirs_existing split: if_splits)

text \<open>Names that stand for one entry of a directory.\<close>

definition plain :: "string \<Rightarrow> bool" where
  "plain n \<longleftrightarrow> n \<noteq> [] \<and> n \<noteq> ''.'' \<and> n \<noteq> ''..'' \<and> SLASH \<notin> set n \<and> NUL \<notin> set n"

lemma path_of_child:
  "s \<noteq> [] \<Longrightarrow> path_of (s @ SLASH # t) = Path (absolute (path_of s)) (comps (path_of s) @ split_on SLASH t)"
  using split_on_append [of SLASH s t] split_on_append [of SLASH "tl s" t]
  by (cases s) (simp_all add: path_of_def del: split_on.simps)

lemma comps_path_of: "c \<in> set (comps (path_of s)) \<Longrightarrow> set c \<subseteq> set s"
  using split_on_parts [of c SLASH s] split_on_parts [of c SLASH "tl s"]
  by (cases s) (auto simp: path_of_def split: if_splits)

lemma walk_child:
  "walk w cur cs = Some q \<Longrightarrow> w_nodes w q = Some Dir \<Longrightarrow> plain n \<Longrightarrow> walk w cur (cs @ [n]) = Some (q @ [n])"
  by (simp add: walk_append path_step_def plain_def)

lemma resolve_child:
  assumes "resolve w (path_of s) = Some q" "w_nodes w q = Some Dir" "plain n" "NUL \<notin> set s"
  shows "resolve w (path_of (s @ SLASH # n)) = Some (q @ [n])"
proof -
  obtain a cs where p: "path_of s = Path a cs" by (cases "path_of s")
  have "s \<noteq> []" using assms(1) by (auto simp: resolve_def path_of_def)
  then have child: "path_of (s @ SLASH # n) = Path a (cs @ [n])"
    using assms(3) by (simp add: path_of_child p split_on_single plain_def)
  have nul: "\<forall>c \<in> set cs. NUL \<notin> set c"
    using comps_path_of [of _ s] assms(4) by (fastforce simp: p)
  then have "cut_nul (cs @ [n]) = cs @ [n]" "cut_nul cs = cs"
    using assms(3) by (auto simp: cut_nul_append cut_nul_id plain_def)
  then show ?thesis
    using assms(1-3) walk_child [of w _ cs q n]
    by (auto simp: resolve_def child p path_start_def split: if_splits)
qed

text \<open>
  Writing a file whose place is known, and where it can be read back.
\<close>

lemma write_file_at:
  "resolve w p = Some q \<Longrightarrow> w_nodes w q \<noteq> Some Dir \<Longrightarrow>
   write_file p b w = (Inr (), w\<lparr>w_nodes := (w_nodes w)(q \<mapsto> File b)\<rparr>)"
  by (simp add: write_file_def)

lemma write_file_frame:
  "write_file p b w = (r, w') \<Longrightarrow> r = Inr () \<and> w' = w\<lparr>w_nodes := w_nodes w'\<rparr> \<and>
     (\<forall>q. w_nodes w' q = w_nodes w q \<or> resolve w p = Some q \<and> w_nodes w' q = Some (File b))"
  by (auto simp: write_file_def split: option.splits if_splits)

section \<open>Paths below a directory\<close>

lemma make_dirs_append:
  "walk w cur cs = Some q \<Longrightarrow> w_nodes w q = Some Dir \<Longrightarrow> make_dirs cur (cs @ ds) w = make_dirs q ds w"
proof (induction cs arbitrary: cur)
  case (Cons c cs)
  have "w_nodes w (path_step cur c) = Some Dir"
    using Cons.prems by (cases cs) (auto split: if_splits)
  with Cons show ?case by (auto simp: Let_def split: if_splits)
qed simp

lemma step_plain [simp]: "plain c \<Longrightarrow> path_step q c = q @ [c]"
  by (simp add: path_step_def plain_def)

lemma walk_plain: "walk w q ds = Some x \<Longrightarrow> \<forall>c \<in> set ds. plain c \<Longrightarrow> x = q @ ds"
  by (induction ds arbitrary: q) (fastforce split: if_splits)+

lemma make_dirs_plain:
  "make_dirs q ds w = (r, w') \<Longrightarrow> \<forall>c \<in> set ds. plain c \<Longrightarrow> w_nodes w' x \<noteq> w_nodes w x \<Longrightarrow>
   \<exists>ys. x = q @ ys \<and> ys \<noteq> [] \<and> prefix ys ds"
proof (induction q ds w rule: make_dirs.induct)
  case (2 q c cs w)
  show ?case
  proof (cases "w_nodes w (q @ [c])")
    case None
    define v where "v = w\<lparr>w_nodes := (w_nodes w)(q @ [c] \<mapsto> Dir)\<rparr>"
    have run: "make_dirs (q @ [c]) cs v = (r, w')"
      using 2(3,4) None by (simp add: v_def Let_def)
    show ?thesis
    proof (cases "x = q @ [c]")
      case False
      with 2(5) have "w_nodes w' x \<noteq> w_nodes v x" by (simp add: v_def)
      with 2(1) [of "q @ [c]"] None run 2(4) obtain ys where "x = (q @ [c]) @ ys" "prefix ys cs"
        by (auto simp: v_def)
      then show ?thesis by (intro exI [of _ "c # ys"]) simp
    qed auto
  next
    case (Some n)
    with 2(3-5) have n: "n = Dir" and run: "make_dirs (q @ [c]) cs w = (r, w')"
      by (cases n; simp add: Let_def)+
    with 2(2) [of "q @ [c]"] Some 2(4,5) obtain ys where "x = (q @ [c]) @ ys" "prefix ys cs" by auto
    then show ?thesis by (intro exI [of _ "c # ys"]) simp
  qed
qed simp

lemma make_dirs_free:
  "\<forall>c \<in> set ds. plain c \<Longrightarrow> \<forall>ys b. prefix ys ds \<longrightarrow> w_nodes w (q @ ys) \<noteq> Some (File b) \<Longrightarrow>
   fst (make_dirs q ds w) = Inr ()"
proof (induction q ds w rule: make_dirs.induct)
  case (2 q c cs w)
  have free: "w_nodes w ((q @ [c]) @ ys) \<noteq> Some (File b)" if "prefix ys cs" for ys b
    using 2(4) that by (metis append.assoc append_Cons append_Nil same_prefix_prefix)
  show ?case
  proof (cases "w_nodes w (q @ [c])")
    case None
    with 2(1) [of "q @ [c]"] 2(3) free show ?thesis by (auto simp: Let_def)
  next
    case (Some n)
    with free [of "[]"] have "n = Dir" by (cases n) auto
    with 2(2) [of "q @ [c]"] 2(3) free Some show ?thesis by (auto simp: Let_def)
  qed
qed simp

text \<open>Below what does not exist nothing exists.\<close>

lemma tree_below_none: "tree_ok w \<Longrightarrow> w_nodes w D = None \<Longrightarrow> w_nodes w (D @ ys) = None"
proof (induction ys rule: rev_induct)
  case (snoc y ys)
  then have "w_nodes w (D @ ys) \<noteq> Some Dir" by simp
  then show ?case using snoc.prems(1) by (metis append.assoc tree_ok_def)
qed simp

text \<open>A chain of directories, made where nothing but directories is in the way.\<close>

lemma make_place:
  assumes "tree_ok w" "\<forall>c \<in> set ds. plain c" "w_nodes w q = Some Dir"
    and "\<forall>ys b. prefix ys ds \<longrightarrow> w_nodes w (q @ ys) \<noteq> Some (File b)"
  shows "\<exists>w'. make_dirs q ds w = (Inr (), w') \<and> tree_ok w' \<and> fs_le w w' \<and> grows w w' \<and>
    walk w' q ds = Some (q @ ds) \<and> w_nodes w' (q @ ds) = Some Dir \<and>
    (\<forall>x. w_nodes w' x \<noteq> w_nodes w x \<longrightarrow> (\<exists>ys. x = q @ ys \<and> prefix ys ds))"
proof -
  obtain w' where run: "make_dirs q ds w = (Inr (), w')"
    using make_dirs_free [OF assms(2,4)] by (cases "make_dirs q ds w") auto
  moreover obtain x where "walk w' q ds = Some x" "w_nodes w' x = Some Dir"
    using make_dirs_walk [OF run assms(1,3)] by blast
  moreover have "x = q @ ds" using walk_plain [OF \<open>walk w' q ds = Some x\<close> assms(2)] .
  ultimately show ?thesis
    using make_dirs_frame [OF run assms(1,3)] make_dirs_plain [OF run assms(2)]
    by (intro exI [of _ w'] conjI) (auto simp: grows_def)
qed

text \<open>A relative path that goes down only, through ordinary names.\<close>

definition safe_rel :: "string \<Rightarrow> bool" where
  "safe_rel rel \<longleftrightarrow> (\<forall>c \<in> set (split_on SLASH rel). plain c)"

lemma safe_rel_append:
  assumes "safe_rel rel" "base \<noteq> []" "plain n"
  shows "path_append (base @ SLASH # n) rel =
    Path (absolute (path_of base)) (comps (path_of base) @ n # split_on SLASH rel)"
proof -
  have "\<not> plain []" by (simp add: plain_def)
  then have "\<not> (rel \<noteq> [] \<and> hd rel = SLASH)"
    using assms(1) by (cases rel) (auto simp: safe_rel_def)
  moreover have "path_of (base @ SLASH # n) = Path (absolute (path_of base)) (comps (path_of base) @ [n])"
    using assms(2,3) by (simp add: path_of_child split_on_single plain_def)
  moreover have "n \<noteq> []" using assms(3) by (simp add: plain_def)
  ultimately show ?thesis by (auto simp: path_append_def)
qed

lemma resolve_below:
  assumes "resolve w (path_of base) = Some B" "NUL \<notin> set base" "\<forall>c \<in> set ds. plain c"
  shows "resolve w (Path (absolute (path_of base)) (comps (path_of base) @ ds)) = walk w B ds"
    and "w_nodes w B = Some Dir \<Longrightarrow>
      create_directories (Path (absolute (path_of base)) (comps (path_of base) @ ds)) w = make_dirs B ds w"
proof -
  obtain a cs where p: "path_of base = Path a cs" by (cases "path_of base")
  have "\<forall>c \<in> set cs. NUL \<notin> set c"
    using comps_path_of [of _ base] assms(2) by (fastforce simp: p)
  then have cut: "cut_nul (cs @ ds) = cs @ ds" "cut_nul cs = cs"
    using assms(3) by (auto simp: cut_nul_append cut_nul_id plain_def)
  have cs: "\<not> is_empty_path (Path a cs)" "walk w (path_start w (Path a cs)) cs = Some B"
    using assms(1) by (auto simp: resolve_def p cut split: if_splits)
  then have ne: "\<not> is_empty_path (Path a (cs @ ds))"
    by (auto simp: cut hd_append)
  show "resolve w (Path (absolute (path_of base)) (comps (path_of base) @ ds)) = walk w B ds"
    using ne cs(2) by (simp add: resolve_def p cut walk_append path_start_def del: is_empty_path.simps)
  show "create_directories (Path (absolute (path_of base)) (comps (path_of base) @ ds)) w = make_dirs B ds w"
    if "w_nodes w B = Some Dir"
    using ne cs(2) that
    by (simp add: create_directories_def p cut path_start_def make_dirs_append del: is_empty_path.simps)
qed

end
