(* ===== verification/Framing.thy ===== *)
theory Framing
  imports System_World
begin

text \<open>
  The transport half of \<^verbatim>\<open>network.cpp\<close>: \<^verbatim>\<open>send_all\<close> and \<^verbatim>\<open>recv_all\<close>, which loop over
  system calls that move as many bytes as they like, and the length-prefixed frames on top.
  The connection is the bytes that will arrive until the peer closes it and the bytes sent so
  far; how it is opened and closed is in the theory \<open>Tcp_Socket\<close>.
\<close>

section \<open>Operations\<close>

text \<open>How many of \<open>n\<close> bytes the next call moves; \<^const>\<open>None\<close> is an error return.\<close>

fun call_moves :: "syscall list \<Rightarrow> nat \<Rightarrow> nat option" where
  "call_moves [] n = Some n"
| "call_moves (Fail # _) n = None"
| "call_moves (Upto k # _) n = Some (min (Suc k) n)"

lemma call_moves_pos: "call_moves cs n = Some k \<Longrightarrow> 0 < n \<Longrightarrow> 0 < k \<and> k \<le> n"
  by (cases "(cs, n)" rule: call_moves.cases) auto

function (sequential) send_all :: "byte list \<Rightarrow> unit io" where
  "send_all [] w = (Inr (), w)"
| "send_all (b # data) w =
     (let w1 = w\<lparr>w_send_calls := tl (w_send_calls w)\<rparr>
      in case call_moves (w_send_calls w) (length (b # data)) of
           None \<Rightarrow> (Inl (Runtime_error ''send() failed / peer closed connection''), w1)
         | Some n \<Rightarrow> send_all (drop n (b # data)) (w1\<lparr>w_sent := w_sent w1 @ take n (b # data)\<rparr>))"
  by pat_completeness auto
termination
  by (relation "measure (\<lambda>(d, w). length d)") (auto dest!: call_moves_pos)

text \<open>\<^const>\<open>None\<close> is the result \<^verbatim>\<open>false\<close>: the peer closed the connection first.\<close>

function recv_all :: "nat \<Rightarrow> byte list \<Rightarrow> byte list option io" where
  "recv_all len got w =
     (if len \<le> length got then (Inr (Some got), w)
      else
        let w1 = w\<lparr>w_recv_calls := tl (w_recv_calls w)\<rparr>
        in if w_incoming w = [] then
             (if call_moves (w_recv_calls w) 1 = None
              then (Inl (Runtime_error ''recv() failed''), w1) else (Inr None, w1))
           else
             case call_moves (w_recv_calls w) (min (len - length got) (length (w_incoming w))) of
               None \<Rightarrow> (Inl (Runtime_error ''recv() failed''), w1)
             | Some n \<Rightarrow>
                 recv_all len (got @ take n (w_incoming w)) (w1\<lparr>w_incoming := drop n (w_incoming w)\<rparr>))"
  by pat_completeness auto
termination
proof (relation "measure (\<lambda>(len, got, w). len - length got)", goal_cases)
  case (2 len got w w1 n)
  then show ?case
    using call_moves_pos [OF 2(4)] by auto
qed simp

declare recv_all.simps [simp del]

definition send_frame :: "byte \<Rightarrow> byte list \<Rightarrow> unit io" where
  "send_frame t payload =
     (let len = (of_nat (length payload) :: u32);
          header = be32_bytes len @ [t]
      in io_then (send_all header)
           (if payload \<noteq> [] then send_all payload else io_return ()))"

definition recv_frame :: "(byte \<times> byte list) option io" where
  "recv_frame =
     io_bind (recv_all 5 []) (\<lambda>header. case header of
       None \<Rightarrow> io_return None
     | Some h \<Rightarrow>
         let len = be32_word (h ! 0) (h ! 1) (h ! 2) (h ! 3); t = h ! 4
         in if 0 < len then
              io_bind (recv_all (unat len) []) (\<lambda>payload. case payload of
                None \<Rightarrow> io_return None
              | Some bs \<Rightarrow> io_return (Some (t, bs)))
            else io_return (Some (t, [])))"

section \<open>Sending and receiving everything\<close>

text \<open>The bytes of a frame on the wire.\<close>

definition frame :: "byte \<Rightarrow> byte list \<Rightarrow> byte list" where
  "frame t payload = be32_bytes (of_nat (length payload)) @ t # payload"

text \<open>A world in which the next calls on the connection do not fail.\<close>

definition reliable :: "world \<Rightarrow> bool" where
  "reliable w \<longleftrightarrow> Fail \<notin> set (w_send_calls w) \<and> Fail \<notin> set (w_recv_calls w)"

text \<open>Worlds that differ in the connection only.\<close>

definition same_but_net :: "world \<Rightarrow> world \<Rightarrow> bool" where
  "same_but_net w w' \<longleftrightarrow>
     w' = w\<lparr>w_incoming := w_incoming w', w_sent := w_sent w', w_recv_calls := w_recv_calls w',
            w_send_calls := w_send_calls w'\<rparr>"

lemma same_but_net_refl [simp]: "same_but_net w w"
  by (simp add: same_but_net_def)

lemma same_but_net_iff:
  "same_but_net w w' \<longleftrightarrow>
     w_nodes w' = w_nodes w \<and> w_cwd w' = w_cwd w \<and> w_out w' = w_out w \<and> w_err w' = w_err w \<and>
     w_fds w' = w_fds w \<and> w_socket_calls w' = w_socket_calls w \<and> w_hosts w' = w_hosts w \<and> w_bound w' = w_bound w"
  by (cases w, cases w') (auto simp: same_but_net_def)

lemma set_tlD: "x \<in> set (tl xs) \<Longrightarrow> x \<in> set xs"
  by (cases xs) auto

lemma call_moves_reliable: "Fail \<notin> set cs \<Longrightarrow> 0 < n \<Longrightarrow> \<exists>k. call_moves cs n = Some k \<and> 0 < k \<and> k \<le> n"
  by (cases "(cs, n)" rule: call_moves.cases) auto

lemma send_all_reliable:
  "reliable w \<Longrightarrow> \<exists>w'. send_all data w = (Inr (), w') \<and> reliable w' \<and> same_but_net w w' \<and>
     w_sent w' = w_sent w @ data \<and> w_incoming w' = w_incoming w"
proof (induction data w rule: send_all.induct)
  case (2 b data w)
  from 2(2) obtain k where k: "call_moves (w_send_calls w) (length (b # data)) = Some k"
    using call_moves_reliable [of "w_send_calls w" "length (b # data)"] by (auto simp: reliable_def)
  define v where "v = w\<lparr>w_send_calls := tl (w_send_calls w), w_sent := w_sent w @ take k (b # data)\<rparr>"
  have v: "reliable v" "same_but_net w v"
    using 2(2) by (auto simp: v_def reliable_def same_but_net_iff dest: set_tlD)
  have run: "send_all (b # data) w = send_all (drop k (b # data)) v"
    using k by (simp add: v_def Let_def)
  from 2(1) [OF refl k] v(1) obtain w' where
    "send_all (drop k (b # data)) v = (Inr (), w')" "reliable w'" "same_but_net v w'"
    "w_sent w' = w_sent v @ drop k (b # data)" "w_incoming w' = w_incoming v"
    by (auto simp: v_def)
  with v(2) run show ?case
    by (auto simp: same_but_net_iff v_def simp del: send_all.simps)
qed simp

lemma recv_all_reliable:
  "reliable w \<Longrightarrow> w_incoming w = xs @ rest \<Longrightarrow> length got + length xs = len \<Longrightarrow>
   \<exists>w'. recv_all len got w = (Inr (Some (got @ xs)), w') \<and> reliable w' \<and> same_but_net w w' \<and>
     w_incoming w' = rest \<and> w_sent w' = w_sent w"
proof (induction len got w arbitrary: xs rule: recv_all.induct)
  case (1 len got w)
  show ?case
  proof (cases "xs = []")
    case True
    with 1 show ?thesis by (simp add: recv_all.simps [of len got w])
  next
    case False
    then have len: "\<not> len \<le> length got" "w_incoming w \<noteq> []"
      and min: "min (len - length got) (length (w_incoming w)) = length xs"
      using 1(3,4) by auto
    obtain k where k: "call_moves (w_recv_calls w) (length xs) = Some k" "k \<le> length xs"
      using call_moves_reliable [of "w_recv_calls w" "length xs"] 1(2) False by (auto simp: reliable_def)
    define v where "v = w\<lparr>w_recv_calls := tl (w_recv_calls w), w_incoming := drop k (w_incoming w)\<rparr>"
    have v: "reliable v" "same_but_net w v"
      using 1(2) by (auto simp: v_def reliable_def same_but_net_iff dest: set_tlD)
    have take: "take k (w_incoming w) = take k xs" "w_incoming v = drop k xs @ rest"
      using k(2) 1(3) by (simp_all add: v_def)
    have run: "recv_all len got w = recv_all len (got @ take k xs) v"
      using len k(1) by (subst recv_all.simps) (simp add: min Let_def take(1) v_def)
    from 1(1) [OF len(1) refl len(2) k(1) [folded min], of "drop k xs"] v(1) take 1(4) k(2)
    obtain w' where "recv_all len (got @ take k xs) v = (Inr (Some ((got @ take k xs) @ drop k xs)), w')"
      "reliable w'" "same_but_net v w'" "w_incoming w' = rest" "w_sent w' = w_sent v"
      by (auto simp: v_def)
    with v(2) run show ?thesis by (auto simp: same_but_net_iff v_def)
  qed
qed

section \<open>Frames\<close>

lemma send_frame_reliable:
  assumes "reliable w"
  obtains w' where "send_frame t payload w = (Inr (), w')" "reliable w'" "same_but_net w w'"
    "w_sent w' = w_sent w @ frame t payload" "w_incoming w' = w_incoming w"
proof -
  obtain v where v: "send_all (be32_bytes (of_nat (length payload)) @ [t]) w = (Inr (), v)" "reliable v"
    "same_but_net w v" "w_sent v = w_sent w @ be32_bytes (of_nat (length payload)) @ [t]"
    "w_incoming v = w_incoming w"
    using send_all_reliable [OF assms] by blast
  obtain w' where w': "send_all payload v = (Inr (), w')" "reliable w'" "same_but_net v w'"
    "w_sent w' = w_sent v @ payload" "w_incoming w' = w_incoming v"
    using send_all_reliable [OF v(2)] by blast
  have "send_frame t payload w = (Inr (), w')"
    using v(1) w'(1) by (cases "payload = []") (simp_all add: send_frame_def Let_def)
  with v w' show ?thesis
    by (intro that [of w']) (auto simp: frame_def same_but_net_iff)
qed

lemma recv_frame_reliable:
  assumes "reliable w" "w_incoming w = frame t payload @ rest" "length payload < 2 ^ 32"
  obtains w' where "recv_frame w = (Inr (Some (t, payload)), w')" "reliable w'" "same_but_net w w'"
    "w_incoming w' = rest" "w_sent w' = w_sent w"
proof -
  let ?len = "of_nat (length payload) :: u32"
  let ?h = "be32_bytes ?len @ [t]"
  have "w_incoming w = ?h @ payload @ rest" using assms(2) by (simp add: frame_def)
  from recv_all_reliable [OF assms(1) this, of "[]" 5] obtain v where
    v: "recv_all 5 [] w = (Inr (Some ?h), v)" "reliable v" "same_but_net w v"
      "w_incoming v = payload @ rest" "w_sent v = w_sent w"
    by auto
  have len: "unat ?len = length payload" using assms(3) by (simp add: unat_of_nat)
  have head: "be32_word (?h ! 0) (?h ! 1) (?h ! 2) (?h ! 3) = ?len" "?h ! 4 = t"
    using be32_word_bytes [of ?len] by (simp_all add: nth_append)
  show ?thesis
  proof (cases "payload = []")
    case True
    with v head show ?thesis by (intro that [of v]) (simp_all add: recv_frame_def Let_def)
  next
    case False
    then have "0 < ?len" using len by (metis length_greater_0_conv unat_gt_0 unat_0 word_neq_0_conv)
    obtain w' where w': "recv_all (unat ?len) [] v = (Inr (Some payload), w')" "reliable w'"
        "same_but_net v w'" "w_incoming w' = rest" "w_sent w' = w_sent v"
      using recv_all_reliable [OF v(2,4), of "[]" "unat ?len"] len by auto
    with v head \<open>0 < ?len\<close> show ?thesis
      by (intro that [of w']) (auto simp: recv_frame_def Let_def same_but_net_iff)
  qed
qed

text \<open>
  Claim C23. A frame arrives as it was sent: whatever number of bytes each \<^verbatim>\<open>send\<close> and
  \<^verbatim>\<open>recv\<close> call moves, as long as none fails, the receiver of the bytes that
  \<^verbatim>\<open>send_frame\<close> put on the wire gets the same type and payload, and what follows the frame
  stays in the stream for the next one.  Payloads must be shorter than \<open>2 ^ 32\<close> bytes.
\<close>

theorem frame_roundtrip:
  assumes "reliable a" "reliable b" "length payload < 2 ^ 32"
    and "w_incoming b = drop (length (w_sent a)) (w_sent (snd (send_frame t payload a))) @ rest"
  shows "fst (send_frame t payload a) = Inr () \<and> fst (recv_frame b) = Inr (Some (t, payload)) \<and>
    w_incoming (snd (recv_frame b)) = rest"
proof -
  obtain a' where a': "send_frame t payload a = (Inr (), a')" "w_sent a' = w_sent a @ frame t payload"
    using send_frame_reliable [OF assms(1)] by metis
  with assms(4) have "w_incoming b = frame t payload @ rest" by simp
  from recv_frame_reliable [OF assms(2) this assms(3)] a'(1) show ?thesis
    by (metis fst_conv snd_conv)
qed

text \<open>A connection that moves one byte per call, for the concrete case.\<close>

definition slow_line :: "byte list \<Rightarrow> world" where
  "slow_line bytes = \<lparr>w_nodes = Map.empty, w_cwd = [], w_out = [], w_err = [], w_incoming = bytes,
     w_sent = [], w_recv_calls = replicate 8 (Upto 0), w_send_calls = replicate 8 (Upto 0),
     w_fds = [0, 1, 2, 3], w_socket_calls = [], w_hosts = (\<lambda>h p. []), w_bound = None\<rparr>"

theorem frame_roundtrip_witness:
  "fst (send_frame 4 [1, 2] (slow_line [])) = Inr () \<and>
   fst (recv_frame (slow_line ([0, 0, 0, 2, 4, 1, 2] @ [9]))) = Inr (Some (4, [1, 2]))"
proof -
  have ok: "reliable (slow_line bytes)" for bytes by (simp add: reliable_def slow_line_def)
  moreover have "w_sent (snd (send_frame 4 [1, 2] (slow_line []))) = frame 4 [1, 2]"
    by (rule send_frame_reliable [OF ok [of "[]"], of 4 "[1, 2]"]) (simp add: slow_line_def)
  moreover have "frame 4 [1, 2] = [0, 0, 0, 2, 4, 1, 2]" by (simp add: frame_def be32_bytes_def)
  ultimately show ?thesis
    using frame_roundtrip [of "slow_line []" "slow_line ([0, 0, 0, 2, 4, 1, 2] @ [9])" "[1, 2]" 4 "[9]"]
    by (simp add: slow_line_def)
qed

end
