(* ===== verification/Vector_Clock.thy ===== *)
theory Vector_Clock
  imports P2P_Prelude
begin

text \<open>
  \<^verbatim>\<open>vector_clock.cpp\<close>: one 64-bit counter per node id, with increment, component-wise merge
  and the four-way comparison.  The locale \<open>version_order\<close> is the interface the replicated
  store relies on; the clocks are shown to provide it.
\<close>

section \<open>The clock and its operations\<close>

datatype ClockOrder = EQUAL | BEFORE | AFTER | CONCURRENT

text \<open>\<^verbatim>\<open>class VectorClock\<close> has one field, \<^verbatim>\<open>std::map<std::string, uint64_t> counters_\<close>.\<close>

type_synonym VectorClock = "(string, u64) omap"

definition vc_get :: "VectorClock \<Rightarrow> string \<Rightarrow> u64" where
  "vc_get c node = (case om_lookup c node of None \<Rightarrow> 0 | Some v \<Rightarrow> v)"

definition vc_set :: "VectorClock \<Rightarrow> string \<Rightarrow> u64 \<Rightarrow> VectorClock" where
  "vc_set c node v = om_update node v c"

text \<open>\<^verbatim>\<open>counters_[node_id] += 1\<close>: a missing counter starts at 0, the sum wraps at 64 bits.\<close>

definition increment :: "VectorClock \<Rightarrow> string \<Rightarrow> VectorClock" where
  "increment c node = om_update node (vc_get c node + 1) c"

fun merge_counter :: "VectorClock \<Rightarrow> string \<times> u64 \<Rightarrow> VectorClock" where
  "merge_counter c (node, val) =
     (case om_lookup c node of
        None \<Rightarrow> om_update node val c
      | Some w \<Rightarrow> if w < val then om_update node val c else c)"

definition vc_merge :: "VectorClock \<Rightarrow> VectorClock \<Rightarrow> VectorClock" where
  "vc_merge c other = foldl merge_counter c (items other)"

text \<open>The node ids of both clocks, collected in the map \<^verbatim>\<open>seen\<close>.\<close>

definition seen_nodes :: "VectorClock \<Rightarrow> VectorClock \<Rightarrow> (string, bool) omap" where
  "seen_nodes a b =
     foldl (\<lambda>seen e. om_update (fst e) True seen)
       (foldl (\<lambda>seen e. om_update (fst e) True seen) om_empty (items a)) (items b)"

fun compare_counter :: "VectorClock \<Rightarrow> VectorClock \<Rightarrow> bool \<times> bool \<Rightarrow> string \<Rightarrow> bool \<times> bool" where
  "compare_counter a b (a_less, b_less) n =
     (let av = vc_get a n; bv = vc_get b n
      in (if av < bv then True else a_less, if bv < av then True else b_less))"

definition vc_compare :: "VectorClock \<Rightarrow> VectorClock \<Rightarrow> ClockOrder" where
  "vc_compare a b =
     (case foldl (compare_counter a b) (False, False) (map fst (items (seen_nodes a b))) of
        (a_less, b_less) \<Rightarrow>
          if \<not> a_less \<and> \<not> b_less then EQUAL
          else if a_less \<and> \<not> b_less then BEFORE
          else if b_less \<and> \<not> a_less then AFTER
          else CONCURRENT)"

definition clock_to_string :: "VectorClock \<Rightarrow> string" where
  "clock_to_string c =
     ''{'' @ join '', '' (map (\<lambda>(n, v). n @ '':'' @ dec_digits (unat v)) (items c)) @ ''}''"

section \<open>The interface of version clocks\<close>

text \<open>
  What the replicated store relies on: versions carry clocks that are preordered by
  \<open>leq\<close> (causality), \<open>cmp\<close> decides that preorder, and \<open>mrg\<close> is its least upper bound.
\<close>

locale version_order =
  fixes leq :: "'c \<Rightarrow> 'c \<Rightarrow> bool"
    and cmp :: "'c \<Rightarrow> 'c \<Rightarrow> ClockOrder"
    and mrg :: "'c \<Rightarrow> 'c \<Rightarrow> 'c"
  assumes leq_refl: "leq a a"
    and leq_trans: "leq a b \<Longrightarrow> leq b c \<Longrightarrow> leq a c"
    and cmp_leq: "cmp a b =
      (if leq a b then (if leq b a then EQUAL else BEFORE)
       else if leq b a then AFTER else CONCURRENT)"
    and mrg_upper1: "leq a (mrg a b)"
    and mrg_upper2: "leq b (mrg a b)"
    and mrg_least: "leq a c \<Longrightarrow> leq b c \<Longrightarrow> leq (mrg a b) c"
begin

lemma cmp_refl: "cmp a a = EQUAL"
  by (simp add: cmp_leq leq_refl)

lemma cmp_swap:
  "cmp b a = (case cmp a b of EQUAL \<Rightarrow> EQUAL | BEFORE \<Rightarrow> AFTER | AFTER \<Rightarrow> BEFORE | CONCURRENT \<Rightarrow> CONCURRENT)"
  by (simp add: cmp_leq)

lemma before_trans: "cmp a b = BEFORE \<Longrightarrow> cmp b c = BEFORE \<Longrightarrow> cmp a c = BEFORE"
  by (auto simp: cmp_leq intro: leq_trans split: if_splits)

lemma equal_cmp: "cmp a b = EQUAL \<Longrightarrow> cmp a c = cmp b c"
  by (auto simp: cmp_leq intro: leq_trans split: if_splits)

lemma cmp_equal: "cmp a b = EQUAL \<Longrightarrow> cmp c a = cmp c b"
  by (auto simp: cmp_leq intro: leq_trans split: if_splits)

text \<open>After a conflict both sides' joined clocks are strictly above either version and equal.\<close>

lemma joined_dominates:
  assumes "cmp a b = CONCURRENT"
  shows "cmp (mrg a b) a = AFTER" and "cmp (mrg a b) b = AFTER"
  using assms mrg_upper1 [of a b] mrg_upper2 [of b a]
  by (auto simp: cmp_leq intro: leq_trans split: if_splits)

lemma joined_equal: "cmp (mrg a b) (mrg b a) = EQUAL"
  by (auto simp: cmp_leq mrg_upper1 mrg_upper2 intro: mrg_least)

lemma joined_absorbs: "cmp a b \<in> {EQUAL, AFTER} \<Longrightarrow> cmp (mrg a b) a = EQUAL"
  by (auto simp: cmp_leq mrg_upper1 leq_refl intro: mrg_least split: if_splits)

end

section \<open>Vector clocks provide it\<close>

definition vc_leq :: "VectorClock \<Rightarrow> VectorClock \<Rightarrow> bool" where
  "vc_leq a b \<longleftrightarrow> (\<forall>n. vc_get a n \<le> vc_get b n)"

definition join_counter :: "u64 option \<Rightarrow> u64 option \<Rightarrow> u64 option" where
  "join_counter x y =
     (case (x, y) of (None, _) \<Rightarrow> y | (_, None) \<Rightarrow> x | (Some v, Some w) \<Rightarrow> Some (max v w))"

lemma join_counter_simps [simp]:
  "join_counter None y = y" "join_counter x None = x"
  "join_counter (Some v) (Some w) = Some (max v w)"
  by (simp_all add: join_counter_def split: option.split)

lemma lookup_merge_counter:
  "om_lookup (merge_counter c (n, v)) k =
     (if k = n then join_counter (om_lookup c k) (Some v) else om_lookup c k)"
  by (auto simp: max_def split: option.split)

lemma lookup_foldl_merge:
  "distinct (map fst es) \<Longrightarrow>
   om_lookup (foldl merge_counter c es) k = join_counter (om_lookup c k) (map_of es k)"
proof (induction es arbitrary: c)
  case Nil
  then show ?case by simp
next
  case (Cons e es)
  obtain n v where e: "e = (n, v)" by fastforce
  have "map_of es n = None"
    using Cons.prems e by (simp add: map_of_eq_None_iff)
  with Cons e show ?case
    by (simp add: lookup_merge_counter del: merge_counter.simps)
qed

lemma lookup_merge: "om_lookup (vc_merge a b) k = join_counter (om_lookup a k) (om_lookup b k)"
  by (simp add: vc_merge_def lookup_foldl_merge distinct_keys om_lookup.rep_eq [of b])

lemma get_merge [simp]: "vc_get (vc_merge a b) n = max (vc_get a n) (vc_get b n)"
  by (simp add: vc_get_def lookup_merge split: option.split)

interpretation clock_join: semilattice vc_merge
proof
  fix a b c
  show "vc_merge (vc_merge a b) c = vc_merge a (vc_merge b c)"
    by (rule omap_eqI) (simp add: lookup_merge join_counter_def max.assoc split: option.split)
  show "vc_merge a b = vc_merge b a"
    by (rule omap_eqI) (simp add: lookup_merge join_counter_def max.commute split: option.split)
  show "vc_merge a a = a"
    by (rule omap_eqI) (simp add: lookup_merge join_counter_def split: option.split)
qed

lemma fst_foldl_compare:
  "fst (foldl (compare_counter a b) p ns) \<longleftrightarrow> fst p \<or> (\<exists>n \<in> set ns. vc_get a n < vc_get b n)"
  by (induction ns arbitrary: p) (auto simp: Let_def split: prod.splits)

lemma snd_foldl_compare:
  "snd (foldl (compare_counter a b) p ns) \<longleftrightarrow> snd p \<or> (\<exists>n \<in> set ns. vc_get b n < vc_get a n)"
  by (induction ns arbitrary: p) (auto simp: Let_def split: prod.splits)

lemma keys_foldl_update:
  "fst ` set (items (foldl (\<lambda>m e. om_update (fst e) v m) m es)) = fst ` set (items m) \<union> fst ` set es"
  by (induction es arbitrary: m) (auto simp: keys_put_item)

lemma seen_nodes_keys:
  "set (map fst (items (seen_nodes a b))) = fst ` set (items a) \<union> fst ` set (items b)"
  by (simp add: seen_nodes_def keys_foldl_update)

lemma get_absent: "n \<notin> fst ` set (items c) \<Longrightarrow> vc_get c n = 0"
  using lookup_dom [of c n] by (simp add: vc_get_def)

lemma less_seen:
  "(\<exists>n \<in> set (map fst (items (seen_nodes a b))). vc_get a n < vc_get b n) \<longleftrightarrow> \<not> vc_leq b a"
  "(\<exists>n \<in> set (map fst (items (seen_nodes a b))). vc_get b n < vc_get a n) \<longleftrightarrow> \<not> vc_leq a b"
  unfolding seen_nodes_keys vc_leq_def not_all not_le
  by (metis UnCI get_absent word_not_simps(1))+

lemma vc_compare_leq:
  "vc_compare a b =
     (if vc_leq a b then (if vc_leq b a then EQUAL else BEFORE)
      else if vc_leq b a then AFTER else CONCURRENT)"
proof -
  define r where "r = foldl (compare_counter a b) (False, False) (map fst (items (seen_nodes a b)))"
  have "fst r \<longleftrightarrow> \<not> vc_leq b a" "snd r \<longleftrightarrow> \<not> vc_leq a b"
    unfolding r_def fst_foldl_compare snd_foldl_compare less_seen by simp_all
  then show ?thesis
    by (simp add: vc_compare_def case_prod_beta flip: r_def)
qed

interpretation clock_order: version_order vc_leq vc_compare vc_merge
  by unfold_locales (auto simp: vc_leq_def vc_compare_leq intro: order_trans)

lemma vc_compare_iff:
  "vc_compare a b = EQUAL \<longleftrightarrow> vc_leq a b \<and> vc_leq b a"
  "vc_compare a b = BEFORE \<longleftrightarrow> vc_leq a b \<and> \<not> vc_leq b a"
  "vc_compare a b = AFTER \<longleftrightarrow> \<not> vc_leq a b \<and> vc_leq b a"
  "vc_compare a b = CONCURRENT \<longleftrightarrow> \<not> vc_leq a b \<and> \<not> vc_leq b a"
  by (simp_all add: vc_compare_leq)

lemma get_increment: "vc_get (increment c n) k = (if k = n then vc_get c n + 1 else vc_get c k)"
  by (simp add: increment_def vc_get_def)

lemma u64_succ_less: "x \<noteq> - 1 \<Longrightarrow> x < (x + 1 :: u64)"
  by (metis inc_less_eq_triv_imp linorder_less_linear word_le_less_eq)

lemma increment_before: "vc_get c n \<noteq> - 1 \<Longrightarrow> vc_compare c (increment c n) = BEFORE"
  unfolding vc_compare_iff vc_leq_def
  by (auto simp: get_increment dest!: u64_succ_less)

section \<open>Properties\<close>

text \<open>
  Claim C18. \<^verbatim>\<open>VectorClock::compare\<close> decides causality: its answer is determined by whether
  every counter of one clock is at most the other's, over all node ids (an absent counter
  counts as 0), although the loop visits only the ids that occur in either map.
\<close>

theorem compare_decides_causality:
  "vc_compare a b =
     (if \<forall>n. vc_get a n = vc_get b n then EQUAL
      else if \<forall>n. vc_get a n \<le> vc_get b n then BEFORE
      else if \<forall>n. vc_get b n \<le> vc_get a n then AFTER
      else CONCURRENT)"
  unfolding vc_compare_leq vc_leq_def by (auto intro: order_antisym)

text \<open>
  Claim C19. \<^verbatim>\<open>VectorClock::merge\<close> is the least upper bound of the two clocks, and as an
  operation on the maps themselves it is associative, commutative and idempotent.
\<close>

theorem merge_is_join:
  "vc_get (vc_merge a b) n = max (vc_get a n) (vc_get b n) \<and>
   vc_merge a b = vc_merge b a \<and>
   vc_merge (vc_merge a b) c = vc_merge a (vc_merge b c) \<and>
   vc_merge a a = a"
  by (intro conjI get_merge clock_join.commute clock_join.assoc clock_join.idem)

text \<open>
  Claim C20. A local edit moves the clock strictly forward, so it is never mistaken for a
  concurrent or older version, as long as the 64-bit counter does not wrap; at the maximum
  the increment wraps to 0 and the clock moves strictly backward.
\<close>

theorem increment_strictly_advances:
  "vc_compare c (increment c n) = (if vc_get c n = - 1 then AFTER else BEFORE)"
proof (cases "vc_get c n = - 1")
  case True
  then have "vc_leq (increment c n) c" "\<not> vc_leq c (increment c n)"
    by (auto simp: vc_leq_def get_increment intro!: exI [of _ n])
  with True show ?thesis by (simp add: vc_compare_leq)
next
  case False
  then show ?thesis by (simp add: increment_before)
qed

end
