(* ===== verification/Crdt_Store.thy ===== *)
theory Crdt_Store
  imports Sha256 Vector_Clock
begin

text \<open>
  \<^verbatim>\<open>file_entry.hpp\<close> and \<^verbatim>\<open>crdt_store.cpp\<close>: the versioned metadata of one path, and the
  replicated map from paths to such entries with its local edits and the merge of entries
  learned from a peer.
\<close>

section \<open>Entries and the store\<close>

record FileEntry =
  fe_path :: string
  fe_chunk_hashes :: "Digest list"
  fe_merkle_root :: Digest
  fe_clock :: VectorClock
  fe_last_writer :: string
  fe_deleted :: bool
  fe_size :: u64

text \<open>\<^verbatim>\<open>FileEntry entry;\<close> with the default member values.\<close>

definition new_entry :: FileEntry where
  "new_entry = \<lparr>fe_path = '''', fe_chunk_hashes = [], fe_merkle_root = digest_of [],
     fe_clock = om_empty, fe_last_writer = '''', fe_deleted = False, fe_size = 0\<rparr>"

definition has_content :: "FileEntry \<Rightarrow> bool" where
  "has_content e \<longleftrightarrow> \<not> fe_deleted e \<and> fe_chunk_hashes e \<noteq> []"

datatype MergeOutcome = APPLIED_REMOTE | KEPT_LOCAL | NO_CHANGE | CONFLICT_FORKED

record MergeResult =
  outcome :: MergeOutcome
  mr_path :: string
  conflict_path :: string

record CrdtStore =
  cs_node_id :: string
  cs_entries :: "(string, FileEntry) omap"

definition new_store :: "string \<Rightarrow> CrdtStore" where
  "new_store node = \<lparr>cs_node_id = node, cs_entries = om_empty\<rparr>"

definition store_get :: "CrdtStore \<Rightarrow> string \<Rightarrow> FileEntry option" where
  "store_get s p = om_lookup (cs_entries s) p"

definition all_entries :: "CrdtStore \<Rightarrow> FileEntry list" where
  "all_entries s = map snd (items (cs_entries s))"

definition load_entry :: "CrdtStore \<Rightarrow> FileEntry \<Rightarrow> CrdtStore" where
  "load_entry s e = s\<lparr>cs_entries := om_update (fe_path e) e (cs_entries s)\<rparr>"

section \<open>Local edits\<close>

definition put_local :: "CrdtStore \<Rightarrow> string \<Rightarrow> Digest list \<Rightarrow> Digest \<Rightarrow> u64 \<Rightarrow> CrdtStore" where
  "put_local s p hashes root sz =
     (let entry = new_entry;
          entry = (case om_lookup (cs_entries s) p of
                     None \<Rightarrow> entry
                   | Some old \<Rightarrow> entry\<lparr>fe_clock := fe_clock old\<rparr>);
          entry = entry\<lparr>fe_path := p, fe_chunk_hashes := hashes, fe_merkle_root := root,
                    fe_size := sz, fe_deleted := False, fe_last_writer := cs_node_id s\<rparr>;
          entry = entry\<lparr>fe_clock := increment (fe_clock entry) (cs_node_id s)\<rparr>
      in s\<lparr>cs_entries := om_update p entry (cs_entries s)\<rparr>)"

definition delete_local :: "CrdtStore \<Rightarrow> string \<Rightarrow> CrdtStore" where
  "delete_local s p =
     (let entry = (case om_lookup (cs_entries s) p of None \<Rightarrow> new_entry | Some old \<Rightarrow> old);
          entry = entry\<lparr>fe_path := p, fe_deleted := True, fe_chunk_hashes := [],
                    fe_last_writer := cs_node_id s\<rparr>;
          entry = entry\<lparr>fe_clock := increment (fe_clock entry) (cs_node_id s)\<rparr>
      in s\<lparr>cs_entries := om_update p entry (cs_entries s)\<rparr>)"

section \<open>Merging an entry of a peer\<close>

text \<open>\<^verbatim>\<open>std::string::find_last_of\<close> for one character.\<close>

primrec find_last_of :: "char \<Rightarrow> string \<Rightarrow> nat option" where
  "find_last_of c [] = None"
| "find_last_of c (x # xs) =
     (case find_last_of c xs of
        Some i \<Rightarrow> Some (Suc i)
      | None \<Rightarrow> if x = c then Some 0 else None)"

definition make_conflict_path :: "string \<Rightarrow> string \<Rightarrow> string" where
  "make_conflict_path p other_node =
     (case find_last_of (CHR ''.'') p of
        None \<Rightarrow> p @ ''.conflict-'' @ other_node
      | Some dot \<Rightarrow> take dot p @ ''.conflict-'' @ other_node @ drop dot p)"

definition merge_remote :: "CrdtStore \<Rightarrow> FileEntry \<Rightarrow> MergeResult \<times> CrdtStore" where
  "merge_remote s remote =
     (let es = cs_entries s;
          p = fe_path remote;
          result = (\<lambda>out cp. \<lparr>outcome = out, mr_path = p, conflict_path = cp\<rparr>)
      in case om_lookup es p of
           None \<Rightarrow> (result APPLIED_REMOTE '''', s\<lparr>cs_entries := om_update p remote es\<rparr>)
         | Some local \<Rightarrow>
             (case vc_compare (fe_clock local) (fe_clock remote) of
                EQUAL \<Rightarrow> (result NO_CHANGE '''', s)
              | BEFORE \<Rightarrow> (result APPLIED_REMOTE '''', s\<lparr>cs_entries := om_update p remote es\<rparr>)
              | AFTER \<Rightarrow> (result KEPT_LOCAL '''', s)
              | CONCURRENT \<Rightarrow>
                  (let cp = make_conflict_path p (fe_last_writer remote);
                       forked = remote\<lparr>fe_path := cp\<rparr>;
                       es = om_update cp forked es;
                       local = local\<lparr>fe_clock := vc_merge (fe_clock local) (fe_clock remote)\<rparr>;
                       es = om_update p local es
                   in (result CONFLICT_FORKED cp, s\<lparr>cs_entries := es\<rparr>))))"

text \<open>A whole manifest, merged entry by entry.\<close>

definition merge_all :: "CrdtStore \<Rightarrow> FileEntry list \<Rightarrow> CrdtStore" where
  "merge_all s es = foldl (\<lambda>s e. snd (merge_remote s e)) s es"

section \<open>Facts about the operations\<close>

lemma find_last_of_bound: "find_last_of c s = Some i \<Longrightarrow> i < length s \<and> s ! i = c"
  by (induction s arbitrary: i) (auto split: option.splits if_splits)

lemma length_conflict_path: "length (make_conflict_path p n) = length p + 10 + length n"
  by (auto simp: make_conflict_path_def dest: find_last_of_bound split: option.split)

lemma conflict_path_fresh [simp]: "make_conflict_path p n \<noteq> p" "p \<noteq> make_conflict_path p n"
proof -
  have "length (make_conflict_path p n) \<noteq> length p"
    by (simp add: length_conflict_path)
  then show "make_conflict_path p n \<noteq> p" "p \<noteq> make_conflict_path p n"
    by metis+
qed

lemma merge_new:
  "store_get s (fe_path r) = None \<Longrightarrow>
   merge_remote s r = (\<lparr>outcome = APPLIED_REMOTE, mr_path = fe_path r, conflict_path = ''''\<rparr>,
     s\<lparr>cs_entries := om_update (fe_path r) r (cs_entries s)\<rparr>)"
  by (simp add: merge_remote_def store_get_def Let_def)

lemma merge_equal:
  "store_get s (fe_path r) = Some l \<Longrightarrow> vc_compare (fe_clock l) (fe_clock r) = EQUAL \<Longrightarrow>
   merge_remote s r = (\<lparr>outcome = NO_CHANGE, mr_path = fe_path r, conflict_path = ''''\<rparr>, s)"
  by (simp add: merge_remote_def store_get_def Let_def)

lemma merge_before:
  "store_get s (fe_path r) = Some l \<Longrightarrow> vc_compare (fe_clock l) (fe_clock r) = BEFORE \<Longrightarrow>
   merge_remote s r = (\<lparr>outcome = APPLIED_REMOTE, mr_path = fe_path r, conflict_path = ''''\<rparr>,
     s\<lparr>cs_entries := om_update (fe_path r) r (cs_entries s)\<rparr>)"
  by (simp add: merge_remote_def store_get_def Let_def)

lemma merge_after:
  "store_get s (fe_path r) = Some l \<Longrightarrow> vc_compare (fe_clock l) (fe_clock r) = AFTER \<Longrightarrow>
   merge_remote s r = (\<lparr>outcome = KEPT_LOCAL, mr_path = fe_path r, conflict_path = ''''\<rparr>, s)"
  by (simp add: merge_remote_def store_get_def Let_def)

lemma merge_concurrent:
  "store_get s (fe_path r) = Some l \<Longrightarrow> vc_compare (fe_clock l) (fe_clock r) = CONCURRENT \<Longrightarrow>
   merge_remote s r =
     (\<lparr>outcome = CONFLICT_FORKED, mr_path = fe_path r,
        conflict_path = make_conflict_path (fe_path r) (fe_last_writer r)\<rparr>,
      s\<lparr>cs_entries := om_update (fe_path r) (l\<lparr>fe_clock := vc_merge (fe_clock l) (fe_clock r)\<rparr>)
         (om_update (make_conflict_path (fe_path r) (fe_last_writer r))
           (r\<lparr>fe_path := make_conflict_path (fe_path r) (fe_last_writer r)\<rparr>) (cs_entries s))\<rparr>)"
  by (simp add: merge_remote_def store_get_def Let_def)

lemmas merge_simps = merge_new merge_equal merge_before merge_after merge_concurrent

lemma get_entries_update [simp]: "store_get (s\<lparr>cs_entries := es\<rparr>) p = om_lookup es p"
  by (simp add: store_get_def)

lemma get_put_local:
  "store_get (put_local s p hashes root sz) q =
     (if q = p then Some \<lparr>fe_path = p, fe_chunk_hashes = hashes, fe_merkle_root = root,
          fe_clock = increment (case store_get s p of None \<Rightarrow> om_empty | Some old \<Rightarrow> fe_clock old) (cs_node_id s),
          fe_last_writer = cs_node_id s, fe_deleted = False, fe_size = sz\<rparr>
      else store_get s q)"
  by (simp add: put_local_def new_entry_def store_get_def Let_def split: option.split)

lemma get_delete_local:
  "store_get (delete_local s p) q =
     (if q = p then
        (let old = (case store_get s p of None \<Rightarrow> new_entry | Some e \<Rightarrow> e)
         in Some (old\<lparr>fe_path := p, fe_deleted := True, fe_chunk_hashes := [],
              fe_last_writer := cs_node_id s, fe_clock := increment (fe_clock old) (cs_node_id s)\<rparr>))
      else store_get s q)"
  by (simp add: delete_local_def store_get_def Let_def split: option.split)

lemma get_load_entry: "store_get (load_entry s e) q = (if q = fe_path e then Some e else store_get s q)"
  by (simp add: load_entry_def store_get_def)

lemma merge_remote_node [simp]: "cs_node_id (snd (merge_remote s r)) = cs_node_id s"
  by (simp add: merge_remote_def Let_def split: option.split ClockOrder.split)

lemma store_eqI:
  "cs_node_id s = cs_node_id t \<Longrightarrow> (\<And>p. store_get s p = store_get t p) \<Longrightarrow> s = (t :: CrdtStore)"
  by (cases s; cases t) (auto simp: store_get_def intro: omap_eqI)

section \<open>The store invariant\<close>

text \<open>Every entry is filed under its own path.\<close>

definition store_wf :: "CrdtStore \<Rightarrow> bool" where
  "store_wf s \<longleftrightarrow> (\<forall>(p, e) \<in> set (items (cs_entries s)). fe_path e = p)"

lemma store_wf_iff: "store_wf s \<longleftrightarrow> (\<forall>p e. store_get s p = Some e \<longrightarrow> fe_path e = p)"
  by (auto simp: store_wf_def store_get_def lookup_items)

text \<open>
  The stores a process can hold: it starts empty, replays its journal, edits locally, and
  merges whatever a peer sends.
\<close>

inductive replica :: "string \<Rightarrow> CrdtStore \<Rightarrow> bool" for node where
  start: "replica node (new_store node)"
| load: "replica node s \<Longrightarrow> replica node (load_entry s e)"
| put: "replica node s \<Longrightarrow> replica node (put_local s p hashes root sz)"
| delete: "replica node s \<Longrightarrow> replica node (delete_local s p)"
| merge: "replica node s \<Longrightarrow> replica node (snd (merge_remote s e))"

lemma merge_cases:
  obtains (New) "store_get s (fe_path r) = None"
  | (Equal) l where "store_get s (fe_path r) = Some l" "vc_compare (fe_clock l) (fe_clock r) = EQUAL"
  | (Before) l where "store_get s (fe_path r) = Some l" "vc_compare (fe_clock l) (fe_clock r) = BEFORE"
  | (After) l where "store_get s (fe_path r) = Some l" "vc_compare (fe_clock l) (fe_clock r) = AFTER"
  | (Concurrent) l where "store_get s (fe_path r) = Some l"
      "vc_compare (fe_clock l) (fe_clock r) = CONCURRENT"
  by (metis ClockOrder.exhaust option.exhaust)

lemma merge_remote_wf: "store_wf s \<Longrightarrow> store_wf (snd (merge_remote s r))"
  by (cases s r rule: merge_cases) (auto simp: merge_simps store_wf_iff simp flip: store_get_def)

section \<open>Merging without conflicts converges\<close>

text \<open>
  A set of versions in which no two versions of one key are concurrent, and versions with
  equal clocks are the same version.
\<close>

definition comparable_on :: "('c \<Rightarrow> 'c \<Rightarrow> ClockOrder) \<Rightarrow> ('e \<Rightarrow> 'k) \<Rightarrow> ('e \<Rightarrow> 'c) \<Rightarrow> 'e set \<Rightarrow> bool" where
  "comparable_on cmp key clk U \<longleftrightarrow>
     (\<forall>e \<in> U. \<forall>f \<in> U. key e = key f \<longrightarrow>
        (case cmp (clk e) (clk f) of CONCURRENT \<Rightarrow> False | EQUAL \<Rightarrow> e = f | _ \<Rightarrow> True))"

text \<open>
  The contract of a map that keeps the causally last version of every key: what applying a
  version does when it is new, newer, or not newer than the one held.
\<close>

locale last_version_map = version_order leq cmp mrg
  for leq :: "'c \<Rightarrow> 'c \<Rightarrow> bool" and cmp and mrg +
  fixes key :: "'e \<Rightarrow> 'k"
    and clk :: "'e \<Rightarrow> 'c"
    and look :: "'s \<Rightarrow> 'k \<Rightarrow> 'e option"
    and app :: "'s \<Rightarrow> 'e \<Rightarrow> 's"
  assumes app_new: "look s (key e) = None \<Longrightarrow> look (app s e) k = (if k = key e then Some e else look s k)"
    and app_newer: "look s (key e) = Some l \<Longrightarrow> cmp (clk l) (clk e) = BEFORE \<Longrightarrow>
      look (app s e) k = (if k = key e then Some e else look s k)"
    and app_same: "look s (key e) = Some l \<Longrightarrow> cmp (clk l) (clk e) = EQUAL \<Longrightarrow> look (app s e) k = look s k"
    and app_older: "look s (key e) = Some l \<Longrightarrow> cmp (clk l) (clk e) = AFTER \<Longrightarrow> look (app s e) k = look s k"
begin

text \<open>The versions of a key that a replica has seen: what it held and what it was sent.\<close>

definition seen :: "'s \<Rightarrow> 'e list \<Rightarrow> 'k \<Rightarrow> 'e set" where
  "seen s xs k = set_option (look s k) \<union> {x \<in> set xs. key x = k}"

definition last_of :: "'e set \<Rightarrow> 'e option \<Rightarrow> bool" where
  "last_of C r \<longleftrightarrow>
     (case r of None \<Rightarrow> C = {} | Some m \<Rightarrow> m \<in> C \<and> (\<forall>c \<in> C. leq (clk c) (clk m)))"

lemma comparable_versions:
  assumes "comparable_on cmp key clk U" "l \<in> U" "x \<in> U" "key l = key x"
  shows "leq (clk l) (clk x) \<and> cmp (clk l) (clk x) = BEFORE \<or>
    leq (clk x) (clk l) \<and> cmp (clk l) (clk x) \<in> {EQUAL, AFTER}"
  using assms unfolding comparable_on_def
  by (auto simp: cmp_leq split: ClockOrder.splits if_splits)

lemma app_look:
  assumes "look t (key x) = Some l" "cmp (clk l) (clk x) \<noteq> CONCURRENT"
  shows "look (app t x) k =
    (if k = key x \<and> cmp (clk l) (clk x) = BEFORE then Some x else look t k)"
  using assms by (cases "cmp (clk l) (clk x)") (auto simp: app_newer app_same app_older)

lemma seen_last:
  assumes comparable: "comparable_on cmp key clk U"
    and filed: "\<And>k l. look s k = Some l \<Longrightarrow> key l = k \<and> l \<in> U" and "set xs \<subseteq> U"
  shows "last_of (seen s xs k) (look (foldl app s xs) k)"
  using assms(3)
proof (induction xs arbitrary: k rule: rev_induct)
  case Nil
  then show ?case
    by (cases "look s k") (auto simp: seen_def last_of_def leq_refl)
next
  case (snoc x xs)
  define t where "t = foldl app s xs"
  have IH: "last_of (seen s xs k) (look t k)" for k
    using snoc by (simp add: t_def)
  have seen_snoc: "seen s (xs @ [x]) k = (if key x = k then insert x (seen s xs k) else seen s xs k)" for k
    by (auto simp: seen_def)
  show ?case
  proof (cases "look t (key x)")
    case None
    then have "seen s xs (key x) = {}"
      using IH [of "key x"] by (simp add: last_of_def)
    with None IH [of k] show ?thesis
      by (auto simp: seen_snoc app_new last_of_def leq_refl simp flip: t_def)
  next
    case (Some l)
    with IH [of "key x"] have "l \<in> seen s xs (key x)" and top: "\<forall>c \<in> seen s xs (key x). leq (clk c) (clk l)"
      by (simp_all add: last_of_def)
    then have "key l = key x" "l \<in> U" "x \<in> U"
      using filed snoc.prems by (auto simp: seen_def)
    note cmp = comparable_versions [OF comparable this(2,3,1)]
    then have look: "look (app t x) k =
        (if k = key x \<and> cmp (clk l) (clk x) = BEFORE then Some x else look t k)"
      using Some by (intro app_look) auto
    show ?thesis
    proof (cases "k = key x")
      case True
      with cmp show ?thesis
        using look Some top \<open>l \<in> seen s xs (key x)\<close>
        by (auto simp: seen_snoc last_of_def leq_refl intro: leq_trans simp flip: t_def)
    next
      case False
      with IH [of k] look show ?thesis
        by (simp add: seen_snoc flip: t_def)
    qed
  qed
qed

lemma last_unique:
  assumes "comparable_on cmp key clk U" "C \<subseteq> U" "\<And>c. c \<in> C \<Longrightarrow> key c = k"
    and "last_of C q" "last_of C r"
  shows "q = r"
proof (cases q)
  case None
  then show ?thesis using assms(4,5) by (auto simp: last_of_def split: option.splits)
next
  case (Some m)
  with assms(4,5) obtain n where n: "r = Some n" "m \<in> C" "n \<in> C" "leq (clk m) (clk n)" "leq (clk n) (clk m)"
    by (auto simp: last_of_def split: option.splits)
  then have "cmp (clk m) (clk n) = EQUAL" by (simp add: cmp_leq)
  moreover have "m \<in> U" "n \<in> U" "key m = key n"
    using n assms(2,3) by auto
  ultimately have "m = n"
    using assms(1) by (force simp: comparable_on_def)
  with Some n show ?thesis by simp
qed

lemma same_seen_converges:
  assumes comparable: "comparable_on cmp key clk U"
    and filed: "\<And>k l. look s k = Some l \<Longrightarrow> key l = k \<and> l \<in> U" "\<And>k l. look t k = Some l \<Longrightarrow> key l = k \<and> l \<in> U"
    and "set xs \<subseteq> U" "set ys \<subseteq> U" and same: "\<And>k. seen s xs k = seen t ys k"
  shows "look (foldl app s xs) k = look (foldl app t ys) k"
proof (rule last_unique [OF comparable])
  show "last_of (seen s xs k) (look (foldl app s xs) k)"
    using comparable filed(1) assms(4) by (rule seen_last)
  show "last_of (seen s xs k) (look (foldl app t ys) k)"
    unfolding same using comparable filed(2) assms(5) by (rule seen_last)
  show "seen s xs k \<subseteq> U" and "\<And>c. c \<in> seen s xs k \<Longrightarrow> key c = k"
    using filed(1) assms(4) by (auto simp: seen_def)
qed

end

interpretation versions: last_version_map vc_leq vc_compare vc_merge
  fe_path fe_clock store_get "\<lambda>s e. snd (merge_remote s e)"
  by unfold_locales (auto simp: merge_simps simp flip: store_get_def)

section \<open>Properties\<close>

lemma all_entries_iff: "e \<in> set (all_entries s) \<longleftrightarrow> (\<exists>p. store_get s p = Some e)"
  by (force simp: all_entries_def store_get_def lookup_items)

lemma comparable_subset: "comparable_on cmp key clk U \<Longrightarrow> V \<subseteq> U \<Longrightarrow> comparable_on cmp key clk V"
  by (auto simp: comparable_on_def)

lemma store_get_filed:
  "store_wf s \<Longrightarrow> store_get s k = Some l \<Longrightarrow> fe_path l = k \<and> l \<in> set (all_entries s)"
  by (auto simp: all_entries_iff store_wf_iff)

lemma seen_entries:
  assumes "store_wf s"
  shows "versions.seen s xs k = {e \<in> set (all_entries s) \<union> set xs. fe_path e = k}"
  using assms by (auto simp: versions.seen_def all_entries_iff store_wf_iff)

text \<open>Two successive versions of one file, for the concrete instances below.\<close>

definition version_1 :: FileEntry where
  "version_1 = new_entry\<lparr>fe_path := ''f'', fe_clock := om_update ''A'' 1 om_empty\<rparr>"

definition version_2 :: FileEntry where
  "version_2 = new_entry\<lparr>fe_path := ''f'', fe_clock := om_update ''B'' 1 (om_update ''A'' 1 om_empty)\<rparr>"

lemmas clock_eval = vc_compare_def seen_nodes_def vc_get_def

lemma version_orders: 
  "vc_compare (fe_clock version_1) (fe_clock version_2) = BEFORE"
  "vc_compare (fe_clock version_2) (fe_clock version_1) = AFTER"
  by (simp_all add: version_1_def version_2_def clock_eval)



text \<open>
  Claim C17. Every store a process can reach files each entry under the entry's own path and
  keeps its node id.
\<close>

theorem replica_entries_filed:
  assumes "replica node s"
  shows "store_wf s \<and> cs_node_id s = node"
  using assms
proof (induction rule: replica.induct)
  case start
  then show ?case by (simp add: new_store_def store_wf_def)
next
  case (load s e)
  then show ?case by (auto simp: store_wf_iff get_load_entry) (simp add: load_entry_def)
next
  case (put s p hashes root sz)
  then show ?case by (auto simp: store_wf_iff get_put_local) (simp add: put_local_def Let_def)
next
  case (delete s p)
  then show ?case by (auto simp: store_wf_iff get_delete_local Let_def) (simp add: delete_local_def Let_def)
next
  case (merge s e)
  then show ?case by (simp add: merge_remote_wf)
qed

theorem replica_entries_filed_witness:
  "store_wf (delete_local (put_local (new_store ''A'') ''f'' [] (digest_of []) 0) ''g'') \<and>
   cs_node_id (delete_local (put_local (new_store ''A'') ''f'' [] (digest_of []) 0) ''g'') = ''A''"
  by (rule replica_entries_filed) (intro replica.intros)

text \<open>
  Merging is idempotent: the same entry received again changes nothing and is
  reported as already known, also after a conflict, because the local clock has absorbed it.
\<close>

lemma merge_idempotent:
  "snd (merge_remote (snd (merge_remote s r)) r) = snd (merge_remote s r) \<and>
   outcome (fst (merge_remote (snd (merge_remote s r)) r)) \<in> {NO_CHANGE, KEPT_LOCAL}"
proof (cases s r rule: merge_cases)
  case (Concurrent l)
  then show ?thesis
    by (simp add: merge_concurrent merge_after clock_order.joined_dominates)
qed (simp_all add: merge_simps clock_order.cmp_refl)


text \<open>Two edits of one file made on two nodes without contact.\<close>

definition edit_at :: "string \<Rightarrow> FileEntry" where
  "edit_at node = new_entry\<lparr>fe_path := ''n.txt'', fe_chunk_hashes := [hash (bytes_of_text node)],
     fe_clock := om_update node 1 om_empty, fe_last_writer := node\<rparr>"

lemma edits_concurrent:
  "vc_compare (fe_clock (edit_at ''A'')) (fe_clock (edit_at ''B'')) = CONCURRENT"
  "vc_compare (fe_clock (edit_at ''B'')) (fe_clock (edit_at ''A'')) = CONCURRENT"
  by (simp_all add: edit_at_def clock_eval)

lemma edit_path [simp]: "fe_path (edit_at n) = ''n.txt''" "fe_last_writer (edit_at n) = n"
  by (simp_all add: edit_at_def)


text \<open>
  Claim C13. After two nodes with concurrent versions have merged each other's entry, their
  entries for the path differ for good: each still holds its own content, the clocks compare
  as EQUAL, and every later exchange of the two entries is a no-op on both sides.
\<close>

theorem conflict_never_converges:
  assumes "store_get s p = Some a" "store_get t p = Some b" "fe_path a = p" "fe_path b = p"
    and "vc_compare (fe_clock a) (fe_clock b) = CONCURRENT"
    and "a\<lparr>fe_clock := c\<rparr> \<noteq> b\<lparr>fe_clock := c\<rparr>"
  defines "s' \<equiv> snd (merge_remote s b)" and "t' \<equiv> snd (merge_remote t a)"
  shows "\<exists>a' b'. store_get s' p = Some a' \<and> store_get t' p = Some b' \<and>
    a'\<lparr>fe_clock := c\<rparr> \<noteq> b'\<lparr>fe_clock := c\<rparr> \<and>
    fe_chunk_hashes a' = fe_chunk_hashes a \<and> fe_chunk_hashes b' = fe_chunk_hashes b \<and>
    merge_remote s' b' = (\<lparr>outcome = NO_CHANGE, mr_path = p, conflict_path = ''''\<rparr>, s') \<and>
    merge_remote t' a' = (\<lparr>outcome = NO_CHANGE, mr_path = p, conflict_path = ''''\<rparr>, t')"
proof -
  define a' where "a' = a\<lparr>fe_clock := vc_merge (fe_clock a) (fe_clock b)\<rparr>"
  define b' where "b' = b\<lparr>fe_clock := vc_merge (fe_clock b) (fe_clock a)\<rparr>"
  have swap: "vc_compare (fe_clock b) (fe_clock a) = CONCURRENT"
    using clock_order.cmp_swap [of "fe_clock b" "fe_clock a"] assms(5) by simp
  have get: "store_get s' p = Some a'" "store_get t' p = Some b'"
    using assms(1-5) swap by (simp_all add: s'_def t'_def a'_def b'_def merge_concurrent)
  have equal: "vc_compare (fe_clock a') (fe_clock b') = EQUAL" "vc_compare (fe_clock b') (fe_clock a') = EQUAL"
    by (simp_all add: a'_def b'_def clock_order.joined_equal)
  have paths: "fe_path a' = p" "fe_path b' = p"
    using assms(3,4) by (simp_all add: a'_def b'_def)
  have "merge_remote s' b' = (\<lparr>outcome = NO_CHANGE, mr_path = p, conflict_path = ''''\<rparr>, s')"
       "merge_remote t' a' = (\<lparr>outcome = NO_CHANGE, mr_path = p, conflict_path = ''''\<rparr>, t')"
    using merge_equal [of s' b' a'] merge_equal [of t' a' b'] get equal paths by simp_all
  moreover have "a'\<lparr>fe_clock := c\<rparr> \<noteq> b'\<lparr>fe_clock := c\<rparr>"
    using assms(6) by (simp add: a'_def b'_def)
  ultimately show ?thesis
    using get by (intro exI [of _ a'] exI [of _ b']) (simp add: a'_def b'_def)
qed

lemma load_get [simp]: "store_get (load_entry s e) (fe_path e) = Some e"
  by (simp add: get_load_entry)

theorem conflict_never_converges_witness:
  "\<exists>a' b'. store_get (snd (merge_remote (load_entry (new_store ''A'') (edit_at ''A'')) (edit_at ''B''))) ''n.txt'' = Some a' \<and>
     store_get (snd (merge_remote (load_entry (new_store ''B'') (edit_at ''B'')) (edit_at ''A''))) ''n.txt'' = Some b' \<and>
     a' \<noteq> b'"
proof -
  have differ: "edit_at ''A''\<lparr>fe_clock := om_empty\<rparr> \<noteq> edit_at ''B''\<lparr>fe_clock := om_empty\<rparr>"
    by (simp add: edit_at_def new_entry_def)
  have get: "store_get (load_entry (new_store n) (edit_at n)) ''n.txt'' = Some (edit_at n)" for n
    by (simp add: get_load_entry)
  show ?thesis
    using conflict_never_converges [OF get get edit_path(1) edit_path(1) edits_concurrent(1) differ]
    by fastforce
qed

text \<open>
  Claim C14. A conflict copy is not protected: two conflicting versions of one file by the
  same writer are forked to the same path, so the second fork replaces the first, and the
  first version, if its content is nowhere else in the store, is gone.
\<close>

theorem conflict_copy_overwritten:
  assumes "fe_path r2 = fe_path r1" "fe_last_writer r2 = fe_last_writer r1"
    and "outcome (fst (merge_remote s r1)) = CONFLICT_FORKED"
    and "outcome (fst (merge_remote (snd (merge_remote s r1)) r2)) = CONFLICT_FORKED"
    and "fe_chunk_hashes r1 \<noteq> fe_chunk_hashes r2"
    and "\<forall>e \<in> set (all_entries s). fe_chunk_hashes e \<noteq> fe_chunk_hashes r1"
  shows "\<forall>e \<in> set (all_entries (merge_all s [r1, r2])). fe_chunk_hashes e \<noteq> fe_chunk_hashes r1"
proof -
  define s1 where "s1 = snd (merge_remote s r1)"
  obtain l where l: "store_get s (fe_path r1) = Some l"
      "vc_compare (fe_clock l) (fe_clock r1) = CONCURRENT"
    using assms(3) by (cases s r1 rule: merge_cases) (auto simp: merge_simps)
  obtain k where k: "store_get s1 (fe_path r2) = Some k"
      "vc_compare (fe_clock k) (fe_clock r2) = CONCURRENT"
    using assms(4) by (cases s1 r2 rule: merge_cases) (auto simp: merge_simps s1_def)
  have held: "fe_chunk_hashes e \<noteq> fe_chunk_hashes r1" if "store_get s p = Some e" for p e
    using that assms(6) by (auto simp: all_entries_iff)
  have "fe_chunk_hashes k = fe_chunk_hashes l"
    using k(1) l assms(1) by (auto simp: s1_def merge_concurrent)
  moreover have "merge_all s [r1, r2] = snd (merge_remote s1 r2)"
    by (simp add: merge_all_def s1_def)
  ultimately show ?thesis
    using assms(1,2,5) l k held
    by (auto simp: all_entries_iff merge_concurrent s1_def simp flip: store_get_def split: if_splits)
qed

text \<open>Two edits by one writer, both concurrent with the local version.\<close>

definition edit_again :: FileEntry where
  "edit_again = edit_at ''B''\<lparr>fe_chunk_hashes := [], fe_clock := om_update ''B'' 2 om_empty\<rparr>"

theorem conflict_copy_overwritten_witness:
  "[hash (bytes_of_text ''B'')] \<notin> fe_chunk_hashes ` set (all_entries (merge_all (load_entry (new_store ''A'')
     (new_entry\<lparr>fe_path := ''n.txt'', fe_clock := om_update ''A'' 1 om_empty\<rparr>)) [edit_at ''B'', edit_again]))"
proof -
  define s where "s = load_entry (new_store ''A'')
    (new_entry\<lparr>fe_path := ''n.txt'', fe_clock := om_update ''A'' 1 om_empty\<rparr>)"
  have "\<forall>e \<in> set (all_entries (merge_all s [edit_at ''B'', edit_again])).
      fe_chunk_hashes e \<noteq> fe_chunk_hashes (edit_at ''B'')"
    by (rule conflict_copy_overwritten)
      (simp_all add: s_def edit_again_def edit_at_def merge_remote_def load_entry_def new_store_def
        all_entries_def new_entry_def clock_eval vc_merge_def Let_def)
  moreover have "fe_chunk_hashes (edit_at ''B'') = [hash (bytes_of_text ''B'')]" by (simp add: edit_at_def)
  ultimately show ?thesis unfolding s_def by force
qed

text \<open>
  Claim C15. A local edit or a local deletion reaches every peer that still holds the version
  it was made from (or, like this node, none): the peer adopts exactly the new entry, a
  tombstone like any other version, as long as the node's counter does not wrap.
\<close>

theorem local_edit_propagates:
  assumes "store_get t p = store_get s p" "store_wf s"
    and "\<forall>old. store_get s p = Some old \<longrightarrow> vc_get (fe_clock old) (cs_node_id s) \<noteq> - 1"
    and "s' = put_local s p hashes root sz \<or> s' = delete_local s p"
  shows "\<exists>e. store_get s' p = Some e \<and> fe_path e = p \<and> fe_last_writer e = cs_node_id s \<and>
    outcome (fst (merge_remote t e)) = APPLIED_REMOTE \<and>
    store_get (snd (merge_remote t e)) p = Some e"
proof -
  obtain e where e: "store_get s' p = Some e" "fe_path e = p" "fe_last_writer e = cs_node_id s"
      "fe_clock e = increment (case store_get s p of None \<Rightarrow> om_empty | Some old \<Rightarrow> fe_clock old) (cs_node_id s)"
    using assms(4) by (auto simp: get_put_local get_delete_local Let_def new_entry_def split: option.splits)
  have "outcome (fst (merge_remote t e)) = APPLIED_REMOTE \<and> store_get (snd (merge_remote t e)) p = Some e"
  proof (cases "store_get s p")
    case None
    with e(2) assms(1) show ?thesis by (simp add: merge_new)
  next
    case (Some old)
    with e(4) assms(3) have "vc_compare (fe_clock old) (fe_clock e) = BEFORE"
      by (simp add: increment_before)
    with Some e(2) assms(1) show ?thesis by (simp add: merge_before)
  qed
  with e show ?thesis by blast
qed

theorem local_edit_propagates_witness:
  "\<exists>e. store_get (delete_local (load_entry (new_store ''A'') version_1) ''f'') ''f'' = Some e \<and>
     fe_path e = ''f'' \<and> fe_last_writer e = cs_node_id (load_entry (new_store ''A'') version_1) \<and>
     outcome (fst (merge_remote (load_entry (new_store ''B'') version_1) e)) = APPLIED_REMOTE \<and>
     store_get (snd (merge_remote (load_entry (new_store ''B'') version_1) e)) ''f'' = Some e"
  by (rule local_edit_propagates)
    (auto simp: store_get_def version_1_def store_wf_def new_store_def load_entry_def vc_get_def)



end
