(* ===== verification/Entry_Codec.thy ===== *)
theory Entry_Codec
  imports Crdt_Store
begin

text \<open>
  \<^verbatim>\<open>entry_codec.cpp\<close>: one \<^verbatim>\<open>FileEntry\<close> as one tab-separated line of text, the format of
  the journal on disk and of the manifest on the wire, with the number parsing of the
  standard library it relies on.
\<close>

section \<open>std::stoi and std::stoull\<close>

text \<open>
  The text-to-number conversions (\<^verbatim>\<open>strtol\<close> and \<^verbatim>\<open>strtoull\<close> underneath): skip white
  space, read a sign, for base 16 skip \<^verbatim>\<open>0x\<close> when a digit follows, then read digits up to
  the first character that is none.  No digit at all is \<^verbatim>\<open>std::invalid_argument\<close>; a value
  outside the type is \<^verbatim>\<open>std::out_of_range\<close>; \<^verbatim>\<open>strtoull\<close> negates a number with a minus
  sign modulo \<open>2 ^ 64\<close>.
\<close>

definition is_space :: "char \<Rightarrow> bool" where
  "is_space c \<longleftrightarrow> of_char c \<in> {9, 10, 11, 12, 13, 32 :: nat}"

definition digit_val :: "nat \<Rightarrow> char \<Rightarrow> nat option" where
  "digit_val base c =
     (let n = (of_char c :: nat);
          v = (if 48 \<le> n \<and> n \<le> 57 then n - 48
               else if 97 \<le> n \<and> n \<le> 122 then n - 87
               else if 65 \<le> n \<and> n \<le> 90 then n - 55
               else base)
      in if v < base then Some v else None)"

fun read_digits :: "nat \<Rightarrow> nat \<Rightarrow> string \<Rightarrow> nat" where
  "read_digits base acc [] = acc"
| "read_digits base acc (c # cs) =
     (case digit_val base c of
        None \<Rightarrow> acc
      | Some v \<Rightarrow> read_digits base (acc * base + v) cs)"

fun skip_sign :: "string \<Rightarrow> bool \<times> string" where
  "skip_sign (c # cs) =
     (if c = CHR ''-'' then (True, cs) else if c = CHR ''+'' then (False, cs) else (False, c # cs))"
| "skip_sign [] = (False, [])"

fun skip_0x :: "nat \<Rightarrow> string \<Rightarrow> string" where
  "skip_0x base (z # x # d # cs) =
     (if base = 16 \<and> z = CHR ''0'' \<and> (x = CHR ''x'' \<or> x = CHR ''X'') \<and> digit_val 16 d \<noteq> None
      then d # cs else z # x # d # cs)"
| "skip_0x base cs = cs"

definition strto :: "nat \<Rightarrow> string \<Rightarrow> (bool \<times> nat) option" where
  "strto base s =
     (let (neg, s) = skip_sign (dropWhile is_space s);
          s = skip_0x base s
      in case s of
           [] \<Rightarrow> None
         | c # cs \<Rightarrow> if digit_val base c = None then None else Some (neg, read_digits base 0 s))"

definition stoi :: "nat \<Rightarrow> string \<Rightarrow> int result" where
  "stoi base s =
     (case strto base s of
        None \<Rightarrow> Inl Invalid_argument
      | Some (neg, n) \<Rightarrow>
          let v = (if neg then - int n else int n)
          in if v < - (2 ^ 31) \<or> 2 ^ 31 \<le> v then Inl Out_of_range else Inr v)"

definition stoull :: "string \<Rightarrow> u64 result" where
  "stoull s =
     (case strto 10 s of
        None \<Rightarrow> Inl Invalid_argument
      | Some (neg, n) \<Rightarrow>
          if 2 ^ 64 \<le> n then Inl Out_of_range
          else Inr (if neg then - of_nat n else of_nat n))"

section \<open>The codec\<close>

text \<open>Two hex digits per byte; bytes past the end of the text stay zero.\<close>

definition hex_to_digest :: "string \<Rightarrow> Digest result" where
  "hex_to_digest hex =
     res_bind
       (res_map (\<lambda>i. res_bind (stoi 16 (take 2 (drop (i * 2) hex))) (\<lambda>v. Inr (word_of_int v)))
         (takeWhile (\<lambda>i. i * 2 + 1 < length hex) [0..<32]))
       (\<lambda>bs. Inr (digest_of bs))"

definition clock_to_wire :: "VectorClock \<Rightarrow> string" where
  "clock_to_wire c = join '','' (map (\<lambda>(node, val). node @ '':'' @ dec_digits (unat val)) (items c))"

fun clock_pairs :: "VectorClock \<Rightarrow> string list \<Rightarrow> VectorClock result" where
  "clock_pairs c [] = Inr c"
| "clock_pairs c (pair # pairs) =
     (if CHR '':'' \<notin> set pair then clock_pairs c pairs
      else
        let node = takeWhile (\<lambda>x. x \<noteq> CHR '':'') pair;
            num = drop (length node + 1) pair
        in res_bind (stoull num) (\<lambda>val. clock_pairs (vc_set c node val) pairs))"

definition clock_from_wire :: "string \<Rightarrow> VectorClock result" where
  "clock_from_wire s = (if s = '''' then Inr om_empty else clock_pairs om_empty (getlines (CHR '','') s))"

text \<open>The tab character of the line format.\<close>

abbreviation TAB :: char where
  "TAB \<equiv> CHR 0x09"

definition entry_to_line :: "FileEntry \<Rightarrow> string" where
  "entry_to_line e =
     fe_path e @ [TAB] @
     (if fe_deleted e then ''1'' else ''0'') @ [TAB] @
     dec_digits (unat (fe_size e)) @ [TAB] @
     to_hex (fe_merkle_root e) @ [TAB] @
     clock_to_wire (fe_clock e) @ [TAB] @
     fe_last_writer e @ [TAB] @
     join '','' (map to_hex (fe_chunk_hashes e))"

definition line_to_entry :: "string \<Rightarrow> FileEntry result" where
  "line_to_entry line =
     (let fields = getlines TAB line;
          fields = fields @ replicate (7 - length fields) ''''
      in res_bind (if fields ! 2 = '''' then Inr 0 else stoull (fields ! 2)) (\<lambda>sz.
         res_bind (hex_to_digest (fields ! 3)) (\<lambda>root.
         res_bind (clock_from_wire (fields ! 4)) (\<lambda>clk.
         res_bind (res_map hex_to_digest (filter (\<lambda>h. h \<noteq> '''') (getlines (CHR '','') (fields ! 6)))) (\<lambda>hashes.
         Inr \<lparr>fe_path = fields ! 0, fe_chunk_hashes = hashes, fe_merkle_root = root,
              fe_clock = clk, fe_last_writer = fields ! 5, fe_deleted = (fields ! 1 = ''1''),
              fe_size = sz\<rparr>)))))"

section \<open>Numbers are read back as printed\<close>

lemma digit_val_digit_char: "v < 10 \<Longrightarrow> digit_val 10 (digit_char v) = Some v"
  by (simp add: digit_val_def digit_char_def)

lemma digit_val_hex_digit: "v < 16 \<Longrightarrow> digit_val 16 (hex_digit v) = Some v"
  by (auto simp: digit_val_def of_char_hex_digit Let_def)

lemma read_digits_append:
  "\<forall>c \<in> set s. digit_val base c \<noteq> None \<Longrightarrow>
   read_digits base acc (s @ t) = read_digits base (read_digits base acc s) t"
  by (induction s arbitrary: acc) auto

lemma dec_digits_chars: "c \<in> set (dec_digits n) \<Longrightarrow> \<exists>v < 10. c = digit_char v"
proof (induction n rule: dec_digits.induct)
  case (1 n)
  show ?case
  proof (cases "n < 10")
    case True
    with 1(2) show ?thesis by (auto simp: dec_digits.simps [of n])
  next
    case False
    with 1(2) consider "c \<in> set (dec_digits (n div 10))" | "c = digit_char (n mod 10)"
      by (auto simp: dec_digits.simps [of n])
    then show ?thesis
      using 1(1) [OF False] by cases (auto intro: exI [of _ "n mod 10"])
  qed
qed

lemma dec_digits_neq_Nil [simp]: "dec_digits n \<noteq> []"
  by (simp add: dec_digits.simps [of n])

lemma read_dec_digits: "read_digits 10 0 (dec_digits n) = n"
proof (induction n rule: dec_digits.induct)
  case (1 n)
  show ?case
  proof (cases "n < 10")
    case True
    then show ?thesis by (simp add: dec_digits.simps [of n] digit_val_digit_char)
  next
    case False
    have "\<forall>c \<in> set (dec_digits (n div 10)). digit_val 10 c \<noteq> None"
      using dec_digits_chars by (fastforce simp: digit_val_digit_char)
    with False show ?thesis
      by (simp add: dec_digits.simps [of n] read_digits_append 1 digit_val_digit_char)
  qed
qed

lemma of_digit_char: "v < 10 \<Longrightarrow> of_char (digit_char v) = 48 + v"
  by (simp add: digit_char_def)

lemma digit_not_special:
  assumes "v < 10"
  shows "digit_char v \<noteq> CHR ''-''" "digit_char v \<noteq> CHR ''+''" "\<not> is_space (digit_char v)"
    "digit_char v \<noteq> TAB" "digit_char v \<noteq> CHR '',''" "digit_char v \<noteq> CHR 0x0A"
proof -
  have "digit_char v = c \<Longrightarrow> of_char c = 48 + v" for c
    using of_digit_char [OF assms] by auto
  then show "digit_char v \<noteq> CHR ''-''" "digit_char v \<noteq> CHR ''+''"
    "digit_char v \<noteq> TAB" "digit_char v \<noteq> CHR '',''" "digit_char v \<noteq> CHR 0x0A"
    by fastforce+
  show "\<not> is_space (digit_char v)"
    using assms by (simp add: is_space_def of_digit_char)
qed

lemma strto_dec_digits: "strto 10 (dec_digits n) = Some (False, n)"
proof -
  obtain c cs where eq: "dec_digits n = c # cs"
    by (cases "dec_digits n") auto
  then obtain v where v: "v < 10" "c = digit_char v"
    using dec_digits_chars [of c n] by auto
  then have "skip_sign (dropWhile is_space (c # cs)) = (False, c # cs)"
    by (simp add: digit_not_special)
  moreover have "skip_0x 10 (c # cs) = c # cs"
    by (cases "(10 :: nat, c # cs)" rule: skip_0x.cases) auto
  ultimately show ?thesis
    using v read_dec_digits [of n] by (simp add: strto_def eq digit_val_digit_char)
qed

lemma stoull_dec_digits [codec_simps]: "stoull (dec_digits (unat w)) = Inr (w :: u64)"
  using unsigned_less [of w, where ?'a = nat] by (simp add: stoull_def strto_dec_digits)

section \<open>Digests are read back as printed\<close>

lemma stoi_byte_hex: "stoi 16 (byte_hex b) = Inr (uint b)"
proof -
  let ?hi = "unat b div 16" and ?lo = "unat b mod 16"
  have b: "unat b < 256"
    using unsigned_less [of b, where ?'a = nat] by simp
  then have v: "?hi < 16" "?lo < 16" by auto
  have "hex_digit ?hi = c \<Longrightarrow> of_char c = (if ?hi < 10 then 48 + ?hi else 87 + ?hi)" for c
    using of_char_hex_digit [OF v(1)] by auto
  then have "hex_digit ?hi \<noteq> CHR ''-''" "hex_digit ?hi \<noteq> CHR ''+''"
    by (fastforce split: if_splits)+
  moreover have "\<not> is_space (hex_digit ?hi)"
    using v by (simp add: is_space_def of_char_hex_digit)
  ultimately have "strto 16 (byte_hex b) = Some (False, ?hi * 16 + ?lo)"
    using v by (simp add: strto_def byte_hex_def digit_val_hex_digit)
  then show ?thesis
    using b by (simp add: stoi_def)
qed

lemma nth_byte_hex:
  "i < length bs \<Longrightarrow> take 2 (drop (i * 2) (concat (map byte_hex bs))) = byte_hex (bs ! i)"
proof (induction bs arbitrary: i)
  case (Cons b bs)
  then show ?case
    by (cases i) (auto simp: byte_hex_def)
qed simp

lemma res_map_nth:
  assumes "\<And>i. i < length bs \<Longrightarrow> f i = Inr (bs ! i)"
  shows "res_map f [0..<length bs] = Inr bs"
proof -
  have "res_map f (map (\<lambda>i. i) [k..<length bs]) = Inr (drop k bs)" if "k \<le> length bs" for k
    using that
  proof (induction rule: inc_induct)
    case (step k)
    then show ?case
      by (simp add: upt_rec [of k] assms Cons_nth_drop_Suc)
  qed simp
  from this [of 0] show ?thesis by simp
qed

lemma hex_to_digest_to_hex [codec_simps]: "hex_to_digest (to_hex d) = Inr d"
proof -
  let ?bs = "digest_bytes d"
  have len: "takeWhile (\<lambda>i. i * 2 + 1 < length (to_hex d)) [0..<32] = [0..<length ?bs]"
    by (auto simp: length_digest_bytes takeWhile_eq_all_conv)
  have "res_map (\<lambda>i. res_bind (stoi 16 (take 2 (drop (i * 2) (to_hex d)))) (\<lambda>v. Inr (word_of_int v)))
      [0..<length ?bs] = Inr ?bs"
    by (rule res_map_nth) (simp add: to_hex_def nth_byte_hex stoi_byte_hex)
  then show ?thesis
    unfolding hex_to_digest_def len by (simp add: digest_of_bytes)
qed

section \<open>Clocks and entries are read back as printed\<close>

definition clock_safe :: "VectorClock \<Rightarrow> bool" where
  "clock_safe c \<longleftrightarrow> (\<forall>node \<in> fst ` set (items c). set node \<inter> {TAB, CHR '','', CHR '':''} = {})"

definition codec_safe :: "FileEntry \<Rightarrow> bool" where
  "codec_safe e \<longleftrightarrow> TAB \<notin> set (fe_path e) \<and> TAB \<notin> set (fe_last_writer e) \<and> clock_safe (fe_clock e)"



lemma clock_pair_read:
  assumes "CHR '':'' \<notin> set node"
  shows "clock_pairs c ((node @ '':'' @ dec_digits (unat val)) # ps) = clock_pairs (vc_set c node val) ps"
proof -
  have "\<forall>x \<in> set node. x \<noteq> CHR '':''" using assms by auto
  then have "takeWhile (\<lambda>x. x \<noteq> CHR '':'') (node @ CHR '':'' # t) = node" for t
    by (simp add: takeWhile_append)
  then show ?thesis by (simp add: Let_def codec_simps)
qed

lemma clock_pairs_items:
  assumes "\<forall>node \<in> fst ` set es. CHR '':'' \<notin> set node"
  shows "clock_pairs c (map (\<lambda>(node, val). node @ '':'' @ dec_digits (unat val)) es) =
    Inr (foldl (\<lambda>m e. om_update (fst e) (snd e) m) c es)"
  using assms
  by (induction es arbitrary: c) (auto simp: clock_pair_read vc_set_def simp del: append.simps clock_pairs.simps(2))

lemma dec_digits_no_sep:
  "TAB \<notin> set (dec_digits n)" "CHR '','' \<notin> set (dec_digits n)" "CHR 0x0A \<notin> set (dec_digits n)"
  using dec_digits_chars digit_not_special by metis+

lemma clock_roundtrip:
  assumes "clock_safe c"
  shows "clock_from_wire (clock_to_wire c) = Inr c"
proof -
  let ?pr = "\<lambda>(node, val). node @ '':'' @ dec_digits (unat (val :: u64))"
  have safe: "\<forall>node \<in> fst ` set (items c). CHR '':'' \<notin> set node"
    using assms by (auto simp: clock_safe_def)
  have "\<forall>p \<in> set (map ?pr (items c)). CHR '','' \<notin> set p"
    using assms by (fastforce simp: clock_safe_def dec_digits_no_sep)
  moreover have ne: "[] \<notin> set (map ?pr (items c))" by auto
  ultimately have lines: "getlines (CHR '','') (clock_to_wire c) = map ?pr (items c)"
    unfolding clock_to_wire_def by (rule getlines_join)
  have "clock_pairs om_empty (getlines (CHR '','') (clock_to_wire c)) = Inr c"
    unfolding lines using clock_pairs_items [OF safe, of om_empty] om_of_list_items [of c]
    by (simp add: om_of_list_def)
  moreover have "c = om_empty" if "clock_to_wire c = []"
  proof (rule omap_eqI)
    from that ne have "items c = []"
      by (simp add: clock_to_wire_def join_eq_Nil)
    then show "om_lookup c k = om_lookup om_empty k" for k
      by (simp add: om_lookup.rep_eq)
  qed
  ultimately show ?thesis by (auto simp: clock_from_wire_def)
qed

lemma clock_wire_chars:
  assumes "clock_safe c"
  shows "TAB \<notin> set (clock_to_wire c)"
proof -
  have "set (clock_to_wire c) \<subseteq>
      set '','' \<union> \<Union> (set ` set (map (\<lambda>(node, val). node @ '':'' @ dec_digits (unat val)) (items c)))"
    unfolding clock_to_wire_def by (rule set_join)
  moreover have "TAB \<notin> \<Union> (set ` set (map (\<lambda>(node, val). node @ '':'' @ dec_digits (unat val)) (items c)))"
    using assms by (fastforce simp: clock_safe_def dec_digits_no_sep)
  ultimately show ?thesis by auto
qed

lemma to_hex_no_sep: "TAB \<notin> set (to_hex d)" "CHR '','' \<notin> set (to_hex d)" "CHR 0x0A \<notin> set (to_hex d)"
  using to_hex_chars [of _ d] by fastforce+

lemma to_hex_neq_Nil [simp]: "to_hex d \<noteq> []" "[] \<noteq> to_hex d"
  using length_to_hex [of d] by (metis length_0_conv zero_neq_numeral)+

lemma hash_list_chars: "TAB \<notin> set (join '','' (map to_hex hs))" "CHR 0x0A \<notin> set (join '','' (map to_hex hs))"
  using set_join [of "'',''" "map to_hex hs"] to_hex_no_sep by auto

lemma entry_roundtrip:
  assumes "codec_safe e"
  shows "line_to_entry (entry_to_line e) = Inr e"
proof -
  define flag where "flag = (if fe_deleted e then ''1'' else ''0'')"
  define hs where "hs = join '','' (map to_hex (fe_chunk_hashes e))"
  have "getlines TAB (entry_to_line e) =
      [fe_path e, flag, dec_digits (unat (fe_size e)), to_hex (fe_merkle_root e),
       clock_to_wire (fe_clock e), fe_last_writer e] @ (if hs = [] then [] else [hs])"
    using assms clock_wire_chars hash_list_chars [of "fe_chunk_hashes e"]
    by (simp add: entry_to_line_def codec_safe_def getlines_part getlines_last dec_digits_no_sep
        to_hex_no_sep flag_def flip: hs_def)
  then have fields: "(let fields = getlines TAB (entry_to_line e)
      in fields @ replicate (7 - length fields) '''') =
      [fe_path e, flag, dec_digits (unat (fe_size e)), to_hex (fe_merkle_root e),
       clock_to_wire (fe_clock e), fe_last_writer e, hs]"
    by (simp add: Let_def)
  have "getlines (CHR '','') hs = map to_hex (fe_chunk_hashes e)"
    unfolding hs_def by (rule getlines_join) (auto simp: to_hex_no_sep)
  then have "res_map hex_to_digest (filter (\<lambda>h. h \<noteq> '''') (getlines (CHR '','') hs)) = Inr (fe_chunk_hashes e)"
    by (simp add: res_map_Inr hex_to_digest_to_hex filter_id_conv)
  moreover have "flag = ''1'' \<longleftrightarrow> fe_deleted e" by (simp add: flag_def)
  ultimately show ?thesis
    using assms fields
    by (simp add: line_to_entry_def Let_def codec_simps clock_roundtrip codec_safe_def)
qed

text \<open>Whatever a line holds, the entry read from it has only names that can be written.\<close>

lemma clock_pairs_safe:
  "clock_pairs c ps = Inr c' \<Longrightarrow> clock_safe c \<Longrightarrow> \<forall>p \<in> set ps. TAB \<notin> set p \<and> CHR '','' \<notin> set p \<Longrightarrow>
   clock_safe c'"
proof (induction c ps rule: clock_pairs.induct)
  case (2 c pair pairs)
  define node where "node = takeWhile (\<lambda>x. x \<noteq> CHR '':'') pair"
  have node: "clock_safe (vc_set c node val)" for val
    using 2(4,5) by (auto simp: clock_safe_def vc_set_def keys_put_item node_def dest: set_takeWhileD)
  show ?case
    using 2(1) 2(3-5) 2(2) [OF _ refl refl] node
    by (auto simp: Let_def node_def res_bind_Inr_iff split: if_splits)
qed simp

lemma clock_from_wire_safe:
  "clock_from_wire s = Inr c \<Longrightarrow> TAB \<notin> set s \<Longrightarrow> clock_safe c"
  using clock_pairs_safe [of om_empty "getlines (CHR '','') s" c] getlines_parts [of _ "CHR '',''" s]
  by (fastforce simp: clock_from_wire_def clock_safe_def split: if_splits)

lemma line_to_entry_safe:
  assumes "line_to_entry line = Inr e"
  shows "codec_safe e"
proof -
  define fields where "fields = getlines TAB line @ replicate (7 - length (getlines TAB line)) ''''"
  have "TAB \<notin> set f" if "f \<in> set fields" for f
    using that getlines_parts [of f TAB line] by (auto simp: fields_def)
  moreover have "7 \<le> length fields" by (simp add: fields_def)
  ultimately have "TAB \<notin> set (fields ! i)" if "i < 7" for i
    using that by simp
  with assms show ?thesis
    unfolding line_to_entry_def codec_safe_def Let_def fields_def [symmetric]
    by (auto simp: res_bind_Inr_iff dest!: clock_from_wire_safe)
qed

text \<open>Nor does reading invent characters: a name in the entry is a piece of the line.\<close>

definition entry_names :: "FileEntry \<Rightarrow> string set" where
  "entry_names e = {fe_path e, fe_last_writer e} \<union> fst ` set (items (fe_clock e))"

lemma clock_pairs_names:
  "clock_pairs c ps = Inr c' \<Longrightarrow> n \<in> fst ` set (items c') \<Longrightarrow>
   n \<in> fst ` set (items c) \<or> (\<exists>p \<in> set ps. set n \<subseteq> set p)"
proof (induction c ps rule: clock_pairs.induct)
  case (2 c pair pairs)
  define node where "node = takeWhile (\<lambda>x. x \<noteq> CHR '':'') pair"
  have "set node \<subseteq> set pair" by (auto simp: node_def dest: set_takeWhileD)
  then have node: "n \<in> fst ` set (items (vc_set c node val)) \<Longrightarrow>
      n \<in> fst ` set (items c) \<or> set n \<subseteq> set pair" for val
    by (auto simp: vc_set_def keys_put_item)
  show ?case
  proof (cases "CHR '':'' \<in> set pair")
    case True
    with 2(3) obtain val where "clock_pairs (vc_set c node val) pairs = Inr c'"
      by (auto simp: Let_def node_def res_bind_Inr_iff)
    from 2(2) [OF _ node_def refl this 2(4)] True node show ?thesis by auto
  qed (use 2 in auto)
qed auto

lemma line_to_entry_names:
  assumes "line_to_entry line = Inr e" "n \<in> entry_names e"
  shows "set n \<subseteq> set line"
proof -
  define fields where "fields = getlines TAB line @ replicate (7 - length (getlines TAB line)) ''''"
  have "set f \<subseteq> set line" if "f \<in> set fields" for f
    using that getlines_parts [of f TAB line] by (auto simp: fields_def)
  moreover have "7 \<le> length fields" by (simp add: fields_def)
  ultimately have field: "set (fields ! i) \<subseteq> set line" if "i < 7" for i
    using that by simp
  have "clock_from_wire (fields ! 4) = Inr (fe_clock e)" "fe_path e = fields ! 0" "fe_last_writer e = fields ! 5"
    using assms(1) unfolding line_to_entry_def Let_def fields_def [symmetric]
    by (auto simp: res_bind_Inr_iff)
  moreover have "set n \<subseteq> set (fields ! 4)"
    if "clock_from_wire (fields ! 4) = Inr (fe_clock e)" "n \<in> fst ` set (items (fe_clock e))"
  proof -
    have "\<exists>p \<in> set (getlines (CHR '','') (fields ! 4)). set n \<subseteq> set p"
      using that clock_pairs_names [of om_empty "getlines (CHR '','') (fields ! 4)" "fe_clock e" n]
      by (auto simp: clock_from_wire_def split: if_splits)
    then show ?thesis using getlines_parts [of _ "CHR '',''" "fields ! 4"] by fastforce
  qed
  ultimately show ?thesis
    using assms(2) field [of 0] field [of 4] field [of 5] by (auto simp: entry_names_def)
qed

text \<open>
  The entries that survive in a file of lines: no newline in a name either.
\<close>

abbreviation NL :: char where
  "NL \<equiv> CHR 0x0A"

definition line_safe :: "FileEntry \<Rightarrow> bool" where
  "line_safe e \<longleftrightarrow> codec_safe e \<and> (\<forall>n \<in> entry_names e. NL \<notin> set n)"

lemma clock_wire_no_NL:
  assumes "\<forall>n \<in> fst ` set (items c). NL \<notin> set n"
  shows "NL \<notin> set (clock_to_wire c)"
proof -
  have "set (clock_to_wire c) \<subseteq>
      set '','' \<union> \<Union> (set ` set (map (\<lambda>(node, val). node @ '':'' @ dec_digits (unat val)) (items c)))"
    unfolding clock_to_wire_def by (rule set_join)
  moreover have "NL \<notin> \<Union> (set ` set (map (\<lambda>(node, val). node @ '':'' @ dec_digits (unat val)) (items c)))"
    using assms by (fastforce simp: dec_digits_no_sep)
  ultimately show ?thesis by auto
qed

lemma entry_line_no_NL: "line_safe e \<Longrightarrow> NL \<notin> set (entry_to_line e)"
  using clock_wire_no_NL [of "fe_clock e"]
  by (simp add: line_safe_def entry_names_def entry_to_line_def dec_digits_no_sep to_hex_no_sep
      hash_list_chars)

lemma entry_line_neq_Nil [simp]: "entry_to_line e \<noteq> []"
  by (simp add: entry_to_line_def)

lemma line_to_entry_line_safe: "line_to_entry line = Inr e \<Longrightarrow> NL \<notin> set line \<Longrightarrow> line_safe e"
  unfolding line_safe_def using line_to_entry_safe line_to_entry_names by blast

text \<open>A text of lines, as the journal and the manifest are: written and read line by line.\<close>

lemma lines_roundtrip:
  assumes "\<forall>e \<in> set es. line_safe e"
  shows "getlines NL (concat (map (\<lambda>e. entry_to_line e @ [NL]) es)) = map entry_to_line es"
proof -
  have "concat (map (\<lambda>e. entry_to_line e @ [NL]) es) = concat (map (\<lambda>p. p @ [NL]) (map entry_to_line es))"
    by (simp add: comp_def)
  also have "getlines NL \<dots> = map entry_to_line es"
    by (rule getlines_terminated) (use assms entry_line_no_NL in auto)
  finally show ?thesis .
qed

lemma res_map_lines: "\<forall>e \<in> set es. line_safe e \<Longrightarrow> res_map line_to_entry (map entry_to_line es) = Inr es"
  by (rule res_map_Inr) (simp add: entry_roundtrip line_safe_def)

lemma res_map_set: "res_map f xs = Inr ys \<Longrightarrow> y \<in> set ys \<Longrightarrow> \<exists>x \<in> set xs. f x = Inr y"
  by (induction xs arbitrary: ys) (auto simp: res_bind_Inr_iff)

lemma lines_read_safe:
  assumes "res_map line_to_entry (filter (\<lambda>l. l \<noteq> '''') (getlines NL t)) = Inr es" "e \<in> set es"
  shows "line_safe e"
proof -
  from res_map_set [OF assms] obtain l where "l \<in> set (getlines NL t)" "line_to_entry l = Inr e"
    by auto
  then show ?thesis using getlines_parts [of l NL t] line_to_entry_line_safe by blast
qed

text \<open>
  Claim C34. An entry is read back from its line exactly when no name in it contains a character
  of the format: no tab in the path, in the last writer or in a node id, and no comma or colon
  in a node id.  Nothing is escaped, so every other entry is lost or changed by the trip.
\<close>

theorem entry_roundtrip_iff: "line_to_entry (entry_to_line e) = Inr e \<longleftrightarrow> codec_safe e"
  using entry_roundtrip line_to_entry_safe by blast

end
