(* ===== verification/File_Store.thy ===== *)
theory File_Store
  imports Chunker System_World
begin

text \<open>
  \<^verbatim>\<open>file_store.cpp\<close>: chunks on disk, each in a file named by its hash, and the
  reassembly of a file from its list of chunk hashes.  The interface the rest of the program
  relies on is the locale \<open>content_store\<close>, which the model of the file store interprets.
\<close>

section \<open>Operations\<close>

record FileStore =
  fs_root :: string

definition new_file_store :: "string \<Rightarrow> FileStore io" where
  "new_file_store root_dir =
     io_then (create_directories (path_of (root_dir @ ''/chunks''))) (io_return \<lparr>fs_root = root_dir\<rparr>)"

definition chunk_path :: "FileStore \<Rightarrow> Digest \<Rightarrow> string" where
  "chunk_path fs h = fs_root fs @ ''/chunks/'' @ to_hex h @ ''.chunk''"

definition put_chunk :: "FileStore \<Rightarrow> Chunk \<Rightarrow> unit io" where
  "put_chunk fs c w =
     (let p = path_of (chunk_path fs (ck_hash c))
      in if fs_exists w p then (Inr (), w) else write_file p (ck_data c) w)"

definition has_chunk :: "FileStore \<Rightarrow> Digest \<Rightarrow> world \<Rightarrow> bool" where
  "has_chunk fs h w \<longleftrightarrow> fs_exists w (path_of (chunk_path fs h))"

definition get_chunk :: "FileStore \<Rightarrow> Digest \<Rightarrow> byte list io" where
  "get_chunk fs h w =
     (case node_at w (path_of (chunk_path fs h)) of
        None \<Rightarrow> (Inl (Runtime_error (''missing chunk: '' @ to_hex h)), w)
      | Some Dir \<Rightarrow> (Inl (Runtime_error ''basic_filebuf::underflow error reading the file''), w)
      | Some (File bytes) \<Rightarrow> (Inr bytes, w))"

fun reassemble :: "FileStore \<Rightarrow> Digest list \<Rightarrow> byte list io" where
  "reassemble fs [] = io_return []"
| "reassemble fs (h # hs) =
     io_bind (get_chunk fs h) (\<lambda>bytes. io_bind (reassemble fs hs) (\<lambda>rest. io_return (bytes @ rest)))"

definition fs_materialize :: "FileStore \<Rightarrow> string \<Rightarrow> string \<Rightarrow> Digest list \<Rightarrow> unit io" where
  "fs_materialize fs materialized_dir relative_path hashes =
     (let full = path_append materialized_dir relative_path
      in io_then (create_directories (parent_path full))
           (io_bind (reassemble fs hashes) (\<lambda>bytes. write_file full bytes)))"

section \<open>The contract of a content store\<close>

text \<open>
  Storing under a key that is present changes nothing; storing under a new key makes its data
  available and disturbs no other key.
\<close>

locale content_store =
  fixes ready :: "'s \<Rightarrow> bool"
    and put :: "'s \<Rightarrow> 'k \<Rightarrow> 'd \<Rightarrow> 's"
    and look :: "'s \<Rightarrow> 'k \<Rightarrow> 'd option"
  assumes ready_put: "ready s \<Longrightarrow> ready (put s k d)"
    and look_put: "ready s \<Longrightarrow>
      look (put s k d) j = (if j = k \<and> look s k = None then Some d else look s j)"
begin

definition put_all :: "'s \<Rightarrow> ('k \<times> 'd) list \<Rightarrow> 's" where
  "put_all s kds = foldl (\<lambda>s kd. put s (fst kd) (snd kd)) s kds"

lemma put_all_simps [simp]:
  "put_all s [] = s" "put_all s (kd # kds) = put_all (put s (fst kd) (snd kd)) kds"
  by (simp_all add: put_all_def)

lemma ready_put_all: "ready s \<Longrightarrow> ready (put_all s kds)"
  by (induction kds arbitrary: s) (auto simp: ready_put)

lemma look_put_all:
  "ready s \<Longrightarrow> look (put_all s kds) k = (case look s k of None \<Rightarrow> map_of kds k | Some d \<Rightarrow> Some d)"
  by (induction kds arbitrary: s) (auto simp: ready_put look_put split: option.split)

text \<open>What is stored is never replaced.\<close>

lemma first_wins: "ready s \<Longrightarrow> look s k = Some d \<Longrightarrow> look (put_all s kds) k = Some d"
  by (simp add: look_put_all)

text \<open>A store in which every datum is filed under its own address stays one.\<close>

definition honest :: "('d \<Rightarrow> 'k) \<Rightarrow> 's \<Rightarrow> bool" where
  "honest addr s \<longleftrightarrow> (\<forall>k d. look s k = Some d \<longrightarrow> addr d = k)"

lemma honest_put_all:
  "ready s \<Longrightarrow> honest addr s \<Longrightarrow> \<forall>(k, d) \<in> set kds. addr d = k \<Longrightarrow> honest addr (put_all s kds)"
  unfolding honest_def look_put_all
  by (auto simp: look_put_all split: option.splits dest!: map_of_SomeD)

end

section \<open>The file store keeps the contract\<close>

text \<open>The content filed under a hash.\<close>

definition blob :: "FileStore \<Rightarrow> world \<Rightarrow> Digest \<Rightarrow> byte list option" where
  "blob fs w h =
     (case node_at w (path_of (chunk_path fs h)) of Some (File b) \<Rightarrow> Some b | _ \<Rightarrow> None)"

definition chunk_name :: "Digest \<Rightarrow> string" where
  "chunk_name h = to_hex h @ ''.chunk''"

text \<open>The chunk directory exists, at the place \<open>B\<close>, and no directory is named like a chunk.\<close>

definition store_at :: "FileStore \<Rightarrow> world \<Rightarrow> string list \<Rightarrow> bool" where
  "store_at fs w B \<longleftrightarrow> tree_ok w \<and> NUL \<notin> set (fs_root fs) \<and>
     resolve w (path_of (fs_root fs @ ''/chunks'')) = Some B \<and> w_nodes w B = Some Dir \<and>
     (\<forall>h. w_nodes w (B @ [chunk_name h]) \<noteq> Some Dir)"

definition store_ready :: "FileStore \<Rightarrow> world \<Rightarrow> bool" where
  "store_ready fs w \<longleftrightarrow> (\<exists>B. store_at fs w B)"

lemma store_at_ready: "store_at fs w B \<Longrightarrow> store_ready fs w"
  by (auto simp: store_ready_def)

lemma disk_cong:
  assumes "w_nodes w' = w_nodes w" "w_cwd w' = w_cwd w"
  shows "blob fs w' h = blob fs w h" "store_at fs w' B \<longleftrightarrow> store_at fs w B"
    "store_ready fs w' \<longleftrightarrow> store_ready fs w" "has_chunk fs h w' \<longleftrightarrow> has_chunk fs h w"
  using resolve_cong [OF assms] assms(1)
  by (simp_all add: blob_def store_at_def store_ready_def has_chunk_def fs_exists_def)

lemma chunk_name_inject [simp]: "chunk_name h = chunk_name k \<longleftrightarrow> h = k"
  by (simp add: chunk_name_def)

lemma plain_chunk_name: "plain (chunk_name h)"
proof -
  have "SLASH \<notin> set (to_hex h)" "NUL \<notin> set (to_hex h)"
    using to_hex_chars [of SLASH h] to_hex_chars [of NUL h] by auto
  moreover have "length (chunk_name h) = 70" by (simp add: chunk_name_def)
  ultimately show ?thesis by (auto simp: plain_def chunk_name_def)
qed

lemma chunk_path_child: "chunk_path fs h = (fs_root fs @ ''/chunks'') @ SLASH # chunk_name h"
  by (simp add: chunk_path_def chunk_name_def)

lemma resolve_chunk: "store_at fs w B \<Longrightarrow> resolve w (path_of (chunk_path fs h)) = Some (B @ [chunk_name h])"
  unfolding chunk_path_child store_at_def by (rule resolve_child) (auto simp: plain_chunk_name)

lemma blob_at:
  "store_at fs w B \<Longrightarrow>
   blob fs w h = (case w_nodes w (B @ [chunk_name h]) of Some (File b) \<Rightarrow> Some b | _ \<Rightarrow> None)"
  by (simp add: blob_def node_at_def resolve_chunk)

lemma has_chunk_blob: "store_ready fs w \<Longrightarrow> has_chunk fs h w \<longleftrightarrow> blob fs w h \<noteq> None"
  unfolding store_ready_def has_chunk_def fs_exists_def
  by (auto simp: blob_def node_at_def resolve_chunk store_at_def split: option.splits node.splits)

lemma get_chunk_blob: "blob fs w h = Some b \<Longrightarrow> get_chunk fs h w = (Inr b, w)"
  by (auto simp: blob_def get_chunk_def split: option.splits node.splits)

lemma get_chunk_missing:
  "store_ready fs w \<Longrightarrow> blob fs w h = None \<Longrightarrow>
   get_chunk fs h w = (Inl (Runtime_error (''missing chunk: '' @ to_hex h)), w)"
  using has_chunk_blob [of fs w h]
  by (auto simp: get_chunk_def has_chunk_def fs_exists_def split: option.splits)

text \<open>Storing a chunk: nothing if it is there, and otherwise one new file.\<close>

lemma put_chunk_old: "store_ready fs w \<Longrightarrow> blob fs w (ck_hash c) \<noteq> None \<Longrightarrow> put_chunk fs c w = (Inr (), w)"
  using has_chunk_blob [of fs w "ck_hash c"] by (auto simp: put_chunk_def has_chunk_def Let_def)

lemma put_chunk_new:
  assumes "store_at fs w B" "blob fs w (ck_hash c) = None"
  shows "put_chunk fs c w =
    (Inr (), w\<lparr>w_nodes := (w_nodes w)(B @ [chunk_name (ck_hash c)] \<mapsto> File (ck_data c))\<rparr>)"
proof -
  have "\<not> has_chunk fs (ck_hash c) w"
    using assms(2) by (simp add: has_chunk_blob [OF store_at_ready [OF assms(1)]])
  then show ?thesis
    using assms(1)
    by (simp add: put_chunk_def has_chunk_def Let_def write_file_at [OF resolve_chunk] store_at_def)
qed

lemma put_chunk_at:
  assumes "store_at fs w B"
  shows "\<exists>w'. put_chunk fs c w = (Inr (), w') \<and> store_at fs w' B \<and> fs_le w w' \<and>
    w' = w\<lparr>w_nodes := w_nodes w'\<rparr> \<and>
    (\<forall>q. w_nodes w' q = (if q = B @ [chunk_name (ck_hash c)] \<and> blob fs w (ck_hash c) = None
      then Some (File (ck_data c)) else w_nodes w q))"
proof (cases "blob fs w (ck_hash c)")
  case None
  define w' where "w' = w\<lparr>w_nodes := (w_nodes w)(B @ [chunk_name (ck_hash c)] \<mapsto> File (ck_data c))\<rparr>"
  have put: "put_chunk fs c w = (Inr (), w')"
    unfolding w'_def by (rule put_chunk_new [OF assms None])
  have place: "resolve w (path_of (chunk_path fs (ck_hash c))) = Some (B @ [chunk_name (ck_hash c)])"
    by (rule resolve_chunk [OF assms])
  have "tree_ok w'"
    unfolding w'_def using assms by (intro tree_ok_write_node [OF _ _ place]) (auto simp: store_at_def)
  moreover have le: "fs_le w w'"
    using assms by (auto simp: w'_def fs_le_def store_at_def)
  ultimately have "store_at fs w' B"
    using assms resolve_mono [OF _ le] by (auto simp: store_at_def w'_def)
  with put le show ?thesis by (auto simp: w'_def None)
next
  case (Some b)
  then show ?thesis
    using put_chunk_old [OF store_at_ready [OF assms], of c] assms by simp
qed

lemma blob_put_chunk:
  assumes "store_ready fs w"
  shows "store_ready fs (snd (put_chunk fs c w)) \<and>
    blob fs (snd (put_chunk fs c w)) h =
      (if h = ck_hash c \<and> blob fs w (ck_hash c) = None then Some (ck_data c) else blob fs w h)"
proof -
  from assms obtain B where B: "store_at fs w B" by (auto simp: store_ready_def)
  from put_chunk_at [OF B, of c] obtain w' where w': "put_chunk fs c w = (Inr (), w')" "store_at fs w' B"
    "\<forall>q. w_nodes w' q = (if q = B @ [chunk_name (ck_hash c)] \<and> blob fs w (ck_hash c) = None
      then Some (File (ck_data c)) else w_nodes w q)" by blast
  then show ?thesis
    using B by (auto simp: blob_at store_ready_def)
qed

interpretation blobs: content_store "store_ready fs"
  "\<lambda>w h d. snd (put_chunk fs \<lparr>ck_offset = 0, ck_data = d, ck_hash = h\<rparr> w)" "blob fs" for fs
  by unfold_locales (simp_all add: blob_put_chunk)

text \<open>What storing a list of chunks does to the world outside the chunk directory: nothing.\<close>

definition chunk_pairs :: "Chunk list \<Rightarrow> (Digest \<times> byte list) list" where
  "chunk_pairs cs = map (\<lambda>c. (ck_hash c, ck_data c)) cs"

lemma put_chunk_pair:
  "put_chunk fs \<lparr>ck_offset = 0, ck_data = ck_data c, ck_hash = ck_hash c\<rparr> w = put_chunk fs c w"
  by (simp add: put_chunk_def Let_def)

lemma put_chunks_at:
  assumes "store_at fs w B"
  shows "\<exists>w'. io_for cs (put_chunk fs) w = (Inr (), w') \<and> store_at fs w' B \<and> fs_le w w' \<and>
    w' = w\<lparr>w_nodes := w_nodes w'\<rparr> \<and> (\<forall>q. w_nodes w' q \<noteq> w_nodes w q \<longrightarrow> (\<exists>h. q = B @ [chunk_name h]))"
  using assms
proof (induction cs arbitrary: w)
  case (Cons c cs)
  from put_chunk_at [OF Cons.prems, of c] obtain v where v: "put_chunk fs c w = (Inr (), v)"
    "store_at fs v B" "fs_le w v" "v = w\<lparr>w_nodes := w_nodes v\<rparr>"
    "\<forall>q. w_nodes v q = (if q = B @ [chunk_name (ck_hash c)] \<and> blob fs w (ck_hash c) = None
      then Some (File (ck_data c)) else w_nodes w q)" by blast
  from Cons.IH [OF v(2)] obtain w' where w': "io_for cs (put_chunk fs) v = (Inr (), w')"
    "store_at fs w' B" "fs_le v w'" "w' = v\<lparr>w_nodes := w_nodes w'\<rparr>"
    "\<forall>q. w_nodes w' q \<noteq> w_nodes v q \<longrightarrow> (\<exists>h. q = B @ [chunk_name h])" by blast
  have "w' = w\<lparr>w_nodes := w_nodes w'\<rparr>"
    using v(4) w'(4) by (rule nodes_only_trans)
  moreover have "\<exists>h. q = B @ [chunk_name h]" if "w_nodes w' q \<noteq> w_nodes w q" for q
    using that v(5) w'(5) by metis
  ultimately show ?case
    using v(1,3) w'(1-3) fs_le_trans by auto
qed simp

lemma put_chunks_all:
  assumes "store_ready fs w"
  shows "io_for cs (put_chunk fs) w = (Inr (), blobs.put_all fs w (chunk_pairs cs))"
  using assms
proof (induction cs arbitrary: w)
  case (Cons c cs)
  from Cons.prems obtain v where v: "put_chunk fs c w = (Inr (), v)"
    using put_chunk_at by (metis store_ready_def)
  moreover have "store_ready fs v"
    using blob_put_chunk [OF Cons.prems, of c] v by simp
  ultimately show ?case
    using Cons.IH by (simp add: chunk_pairs_def put_chunk_pair)
qed (simp add: chunk_pairs_def)

section \<open>Reassembly\<close>

lemma reassemble_blobs:
  "\<forall>h \<in> set hs. blob fs w h = Some (f h) \<Longrightarrow> reassemble fs hs w = (Inr (concat (map f hs)), w)"
  by (induction hs) (auto simp: get_chunk_blob io_bind_def)

lemma reassemble_missing:
  assumes "store_ready fs w" "h \<in> set hs" "blob fs w h = None"
  shows "\<exists>k \<in> set hs. blob fs w k = None \<and>
    reassemble fs hs w = (Inl (Runtime_error (''missing chunk: '' @ to_hex k)), w)"
  using assms(2)
proof (induction hs)
  case (Cons k hs)
  show ?case
  proof (cases "blob fs w k")
    case None
    then show ?thesis by (simp add: get_chunk_missing [OF assms(1)])
  next
    case (Some b)
    with Cons assms(3) obtain j where "j \<in> set hs" "blob fs w j = None"
      "reassemble fs hs w = (Inl (Runtime_error (''missing chunk: '' @ to_hex j)), w)" by auto
    with Some show ?thesis by (auto simp: get_chunk_blob)
  qed
qed simp

text \<open>
  Chunks that can be stored together: equal hashes mean equal content, among them and with
  what the store holds already.
\<close>

definition compatible :: "FileStore \<Rightarrow> world \<Rightarrow> Chunk list \<Rightarrow> bool" where
  "compatible fs w cs \<longleftrightarrow>
     (\<forall>c \<in> set cs. (\<forall>d \<in> set cs. ck_hash d = ck_hash c \<longrightarrow> ck_data d = ck_data c) \<and>
        (case blob fs w (ck_hash c) of None \<Rightarrow> True | Some b \<Rightarrow> b = ck_data c))"

lemma blob_put_chunks:
  assumes "store_ready fs w" "compatible fs w cs" "c \<in> set cs"
    and "io_for cs (put_chunk fs) w = (Inr (), w')"
  shows "blob fs w' (ck_hash c) = Some (ck_data c)"
proof -
  have w': "w' = blobs.put_all fs w (chunk_pairs cs)"
    using put_chunks_all [OF assms(1), of cs] assms(4) by simp
  have "ck_hash c \<in> fst ` set (chunk_pairs cs)"
    using assms(3) by (simp add: chunk_pairs_def image_image)
  then obtain d where d: "map_of (chunk_pairs cs) (ck_hash c) = Some d"
    by (cases "map_of (chunk_pairs cs) (ck_hash c)") (auto simp: map_of_eq_None_iff)
  then obtain e where "e \<in> set cs" "ck_hash e = ck_hash c" "ck_data e = d"
    using map_of_SomeD [OF d] by (auto simp: chunk_pairs_def)
  then have "d = ck_data c"
    using assms(2,3) unfolding compatible_def by blast
  moreover have "case blob fs w (ck_hash c) of None \<Rightarrow> True | Some b \<Rightarrow> b = ck_data c"
    using assms(2,3) by (simp add: compatible_def)
  ultimately show ?thesis
    unfolding w' blobs.look_put_all [OF assms(1)] using d by (simp split: option.splits)
qed

lemma reassemble_put_chunks:
  assumes "store_ready fs w" "compatible fs w cs" "io_for cs (put_chunk fs) w = (Inr (), w')"
  shows "reassemble fs (map ck_hash cs) w' = (Inr (concat (map ck_data cs)), w')"
proof -
  have data: "blob fs w' (ck_hash c) = Some (ck_data c)" if "c \<in> set cs" for c
    using blob_put_chunks [OF assms(1,2) that assms(3)] .
  then have "reassemble fs (map ck_hash cs) w' =
      (Inr (concat (map (\<lambda>h. the (blob fs w' h)) (map ck_hash cs))), w')"
    by (intro reassemble_blobs) auto
  also have "map (\<lambda>h. the (blob fs w' h)) (map ck_hash cs) = map ck_data cs"
    using data by simp
  finally show ?thesis .
qed

section \<open>Materialization\<close>

lemma reassemble_world: "snd (reassemble fs hs w) = w"
proof (induction hs)
  case (Cons h hs)
  have "snd (get_chunk fs h w) = w"
    by (simp add: get_chunk_def split: option.split node.split)
  then obtain r where "get_chunk fs h w = (r, w)" by (metis prod.collapse)
  with Cons show ?case
    by (cases r; cases "fst (reassemble fs hs w)"; cases "reassemble fs hs w") auto
qed simp

lemma blob_kept:
  assumes "blob fs w h = Some b" "fs_le w w'" "grows w w'"
  shows "blob fs w' h = Some b"
proof -
  obtain q where q: "resolve w (path_of (chunk_path fs h)) = Some q" "w_nodes w q = Some (File b)"
    using assms(1) by (auto simp: blob_def node_at_def split: option.splits node.splits bind_splits)
  then have "w_nodes w' q = Some (File b)"
    using assms(3) by (metis grows_def option.distinct(1))
  with resolve_mono [OF q(1) assms(2)] show ?thesis
    by (simp add: blob_def node_at_def)
qed

lemma materialize_path:
  assumes "resolve w (path_of base) = Some B" "w_nodes w B = Some Dir"
    and "NUL \<notin> set base" "plain n" "safe_rel rel" and ds: "ds = n # split_on SLASH rel"
  shows "path_append (base @ SLASH # n) rel = Path (absolute (path_of base)) (comps (path_of base) @ ds)"
    and "create_directories (parent_path (Path (absolute (path_of base)) (comps (path_of base) @ ds))) w =
      make_dirs B (butlast ds) w"
    and "\<forall>c \<in> set ds. plain c" "\<forall>c \<in> set (butlast ds). plain c"
proof -
  show names: "\<forall>c \<in> set ds. plain c" "\<forall>c \<in> set (butlast ds). plain c"
    using assms(4,5) by (auto simp: ds safe_rel_def dest: in_set_butlastD split: if_splits)
  have "base \<noteq> []" using assms(1) by (auto simp: resolve_def path_of_def)
  then show "path_append (base @ SLASH # n) rel =
      Path (absolute (path_of base)) (comps (path_of base) @ ds)"
    using safe_rel_append [OF assms(5) _ assms(4)] by (simp add: ds)
  have "parent_path (Path a (cs @ ds)) = Path a (cs @ butlast ds)" for a cs
    by (simp add: butlast_append ds)
  then show "create_directories (parent_path (Path (absolute (path_of base)) (comps (path_of base) @ ds))) w =
      make_dirs B (butlast ds) w"
    using resolve_below(2) [OF assms(1,3) names(2) assms(2)] by simp
qed

text \<open>
  A file is written below \<open>base/n\<close>: the directories on the way are created, then the file, and
  nothing outside is touched, whether the operation completes or throws.
\<close>

lemma materialize_below:
  assumes "tree_ok w" "resolve w (path_of base) = Some B" "w_nodes w B = Some Dir"
    and "NUL \<notin> set base" "plain n" "safe_rel rel"
    and "fs_materialize fs (base @ SLASH # n) rel hs w = (r, w')"
  shows "tree_ok w' \<and> fs_le w w' \<and> w' = w\<lparr>w_nodes := w_nodes w'\<rparr> \<and>
    (\<forall>x. w_nodes w' x \<noteq> w_nodes w x \<longrightarrow> (\<exists>ys. x = B @ n # ys))"
proof -
  define ds where "ds = n # split_on SLASH rel"
  note paths = materialize_path [OF assms(2-6) ds_def]
  let ?full = "Path (absolute (path_of base)) (comps (path_of base) @ ds)"
  obtain r1 v where dirs: "make_dirs B (butlast ds) w = (r1, v)" by fastforce
  then have v: "create_directories (parent_path ?full) w = (r1, v)" using paths(2) by simp
  have frame: "tree_ok v" "fs_le w v" "v = w\<lparr>w_nodes := w_nodes v\<rparr>"
    using make_dirs_frame [OF dirs assms(1,3)] by auto
  have below: "\<exists>ys. x = B @ n # ys" if "w_nodes v x \<noteq> w_nodes w x" for x
    using make_dirs_plain [OF dirs paths(4) that] by (auto simp: ds_def prefix_Cons split: if_splits)
  show ?thesis
  proof (cases "r1 = Inr () \<and> (\<exists>bs. fst (reassemble fs hs v) = Inr bs)")
    case True
    then obtain bs where bs: "reassemble fs hs v = (Inr bs, v)"
      by (metis prod.collapse reassemble_world)
    with True v assms(7) have wrote: "write_file ?full bs v = (r, w')"
      by (simp add: fs_materialize_def paths(1))
    have "resolve v ?full = walk v B ds"
      by (rule resolve_below(1) [OF resolve_mono [OF assms(2) frame(2)] assms(4) paths(3)])
    then have at: "resolve v ?full = Some x \<Longrightarrow> x = B @ ds" for x
      using walk_plain [OF _ paths(3)] by simp
    have "w_nodes w' x = w_nodes v x \<or> x = B @ ds" for x
      using write_file_frame [OF wrote] at by blast
    then have "\<exists>ys. x = B @ n # ys" if "w_nodes w' x \<noteq> w_nodes w x" for x
      using below that by (metis ds_def)
    moreover have "tree_ok w'" "fs_le v w'"
      using write_file_ok [OF frame(1), of ?full bs] write_file_le [of v ?full bs] wrote by simp_all
    moreover have "w' = w\<lparr>w_nodes := w_nodes w'\<rparr>"
      using write_file_frame [OF wrote] by (intro nodes_only_trans [OF frame(3)]) simp
    ultimately show ?thesis using frame fs_le_trans by blast
  next
    case False
    have "w' = v"
    proof (cases r1)
      case (Inr u)
      with False obtain e where "reassemble fs hs v = (Inl e, v)"
        using reassemble_world [of fs hs v]
        by (cases "reassemble fs hs v"; cases "fst (reassemble fs hs v)") auto
      with Inr v assms(7) show ?thesis by (simp add: fs_materialize_def paths(1))
    qed (use v assms(7) in \<open>simp add: fs_materialize_def paths(1)\<close>)
    with frame below show ?thesis by blast
  qed
qed

text \<open>Nothing in the way: no file where a directory is needed, no directory where the file goes.\<close>

definition way_clear :: "world \<Rightarrow> string list \<Rightarrow> string list \<Rightarrow> bool" where
  "way_clear w q ds \<longleftrightarrow>
     (\<forall>ys \<in> set (prefixes (butlast ds)). case w_nodes w (q @ ys) of Some (File _) \<Rightarrow> False | _ \<Rightarrow> True) \<and>
     w_nodes w (q @ ds) \<noteq> Some Dir"

text \<open>The disk after a file was written: the file, and new directories on the way to it.\<close>

definition wrote_file :: "world \<Rightarrow> world \<Rightarrow> string list \<Rightarrow> string list \<Rightarrow> byte list \<Rightarrow> bool" where
  "wrote_file w w' q ds bytes \<longleftrightarrow>
     w_nodes w' (q @ ds) = Some (File bytes) \<and>
     (\<forall>x. x \<noteq> q @ ds \<longrightarrow> w_nodes w' x \<noteq> w_nodes w x \<longrightarrow>
        w_nodes w x = None \<and> w_nodes w' x = Some Dir \<and> (\<exists>ys. x = q @ ys \<and> prefix ys (butlast ds)))"

lemma materialize_writes:
  assumes "tree_ok w" "resolve w (path_of base) = Some B" "w_nodes w B = Some Dir"
    and "NUL \<notin> set base" "plain n" "safe_rel rel"
    and clear: "way_clear w B (n # split_on SLASH rel)"
    and blobs: "\<forall>h \<in> set hs. blob fs w h = Some (f h)"
  shows "\<exists>w'. fs_materialize fs (base @ SLASH # n) rel hs w = (Inr (), w') \<and>
    wrote_file w w' B (n # split_on SLASH rel) (concat (map f hs))"
proof -
  define ds where "ds = n # split_on SLASH rel"
  note paths = materialize_path [OF assms(2-6) ds_def]
  let ?full = "Path (absolute (path_of base)) (comps (path_of base) @ ds)"
  have "\<forall>ys b. prefix ys (butlast ds) \<longrightarrow> w_nodes w (B @ ys) \<noteq> Some (File b)"
    using clear by (force simp: way_clear_def simp flip: ds_def split: option.splits)
  from make_place [OF assms(1) paths(4) assms(3) this]
  obtain v where dirs: "make_dirs B (butlast ds) w = (Inr (), v)" "fs_le w v" "grows w v"
    "walk v B (butlast ds) = Some (B @ butlast ds)" "w_nodes v (B @ butlast ds) = Some Dir"
    "\<forall>x. w_nodes v x \<noteq> w_nodes w x \<longrightarrow> (\<exists>ys. x = B @ ys \<and> prefix ys (butlast ds))"
    by (elim exE conjE) (rule that)
  have v: "create_directories (parent_path ?full) w = (Inr (), v)" using paths(2) dirs(1) by simp
  have bs: "reassemble fs hs v = (Inr (concat (map f hs)), v)"
    using blobs dirs(2,3) by (intro reassemble_blobs) (auto intro: blob_kept)
  have "ds \<noteq> []" by (simp add: ds_def)
  then have last: "butlast ds @ [last ds] = ds" "plain (last ds)"
    using paths(3) last_in_set [of ds] by (simp, blast)
  have "resolve v ?full = walk v B ds"
    by (rule resolve_below(1) [OF resolve_mono [OF assms(2) dirs(2)] assms(4) paths(3)])
  also have "\<dots> = Some ((B @ butlast ds) @ [last ds])"
    using walk_child [OF dirs(4,5) last(2)] by (simp only: last(1))
  finally have place: "resolve v ?full = Some (B @ ds)" by (simp only: append.assoc last(1))
  have "\<not> prefix ds (butlast ds)"
    using prefix_length_le [of ds "butlast ds"] \<open>ds \<noteq> []\<close> by (cases ds rule: rev_cases) auto
  then have "w_nodes v (B @ ds) = w_nodes w (B @ ds)"
    using dirs(6) by (metis same_append_eq)
  then have "w_nodes v (B @ ds) \<noteq> Some Dir" using clear by (simp add: way_clear_def ds_def)
  from write_file_at [OF place this] v bs
  have run: "fs_materialize fs (base @ SLASH # n) rel hs w =
      (Inr (), v\<lparr>w_nodes := (w_nodes v)(B @ ds \<mapsto> File (concat (map f hs)))\<rparr>)"
    by (simp add: fs_materialize_def paths(1))
  have "w_nodes w x = None \<and> w_nodes v x = Some Dir \<and> (\<exists>ys. x = B @ ys \<and> prefix ys (butlast ds))"
    if new: "w_nodes v x \<noteq> w_nodes w x" for x
  proof -
    have "w_nodes w x = None \<and> w_nodes v x = Some Dir" using dirs(3) new unfolding grows_def by metis
    moreover obtain ys where "x = B @ ys" "prefix ys (butlast ds)" using dirs(6) new by blast
    ultimately show ?thesis by (intro conjI exI [of _ ys]) simp_all
  qed
  then have "wrote_file w (v\<lparr>w_nodes := (w_nodes v)(B @ ds \<mapsto> File (concat (map f hs)))\<rparr>) B ds (concat (map f hs))"
    unfolding wrote_file_def by (simp del: butlast.simps)
  with run show ?thesis unfolding ds_def by blast
qed

text \<open>
  Claim C12. Writing out a file stays inside the directory it is meant for: if the path of the
  file goes down through ordinary names only, then whether the operation completes or throws,
  every node of the file system it created or changed lies in that directory, and no directory
  is turned into a file or removed.
\<close>

theorem materialize_confined:
  assumes "tree_ok w" "resolve w (path_of base) = Some B" "w_nodes w B = Some Dir"
    and "NUL \<notin> set base" "plain n" "safe_rel rel"
  shows "fs_le w (snd (fs_materialize fs (base @ ''/'' @ n) rel hs w)) \<and>
    {x. w_nodes (snd (fs_materialize fs (base @ ''/'' @ n) rel hs w)) x \<noteq> w_nodes w x}
      \<subseteq> {x. prefix (B @ [n]) x}"
proof -
  obtain r w' where "fs_materialize fs (base @ SLASH # n) rel hs w = (r, w')" by fastforce
  from materialize_below [OF assms this] this show ?thesis
    by (fastforce simp: prefix_def)
qed

text \<open>A disk with the directory \<^verbatim>\<open>/data\<close> and nothing else, for the concrete cases.\<close>

definition fresh_world :: world where
  "fresh_world = \<lparr>w_nodes = [[] \<mapsto> Dir, [''data''] \<mapsto> Dir], w_cwd = [], w_out = [], w_err = [],
     w_incoming = [], w_sent = [], w_recv_calls = [], w_send_calls = [], w_fds = [0, 1, 2],
     w_socket_calls = [], w_hosts = (\<lambda>h p. []), w_bound = None\<rparr>"

lemma fresh_tree_ok: "tree_ok fresh_world"
  by (auto simp: tree_ok_def fresh_world_def)

lemma fresh_resolve: "resolve fresh_world (path_of ''/data'') = Some [''data'']"
  by (simp add: resolve_def path_of_def path_start_def path_step_def fresh_world_def)

theorem materialize_confined_witness:
  "w_nodes (snd (fs_materialize \<lparr>fs_root = ''/data/blobstore''\<rparr> (''/data'' @ ''/'' @ ''files'') ''docs/notes'' []
     fresh_world)) [''etc''] = None"
  (is "w_nodes ?w' _ = None")
proof -
  have "safe_rel ''docs/notes''" "plain ''files''" "w_nodes fresh_world [''data''] = Some Dir"
    by (simp_all add: safe_rel_def plain_def fresh_world_def)
  then have "{x. w_nodes ?w' x \<noteq> w_nodes fresh_world x} \<subseteq> {x. prefix ([''data''] @ [''files'']) x}"
    by (intro conjunct2 [OF materialize_confined [OF fresh_tree_ok fresh_resolve]]) (simp_all add: plain_def)
  moreover have "\<not> prefix ([''data''] @ [''files'']) [''etc'']" by simp
  ultimately have "w_nodes ?w' [''etc''] = w_nodes fresh_world [''etc'']" by blast
  then show ?thesis by (simp add: fresh_world_def)
qed



end
