(* ===== verification/Sync_Engine.thy ===== *)
theory Sync_Engine
  imports Entry_Codec File_Store Merkle_Tree
begin

text \<open>
  \<^verbatim>\<open>sync_engine.cpp\<close>: one local node.  It chunks and stores the files it is given, records
  their versions in the replicated store, writes current contents out under its \<^verbatim>\<open>files\<close>
  directory, and keeps the metadata in the journal \<^verbatim>\<open>store.meta\<close>, which it replays at start.
\<close>

section \<open>Operations\<close>

record SyncEngine =
  se_node_id :: string
  se_data_dir :: string
  se_materialized_dir :: string
  se_chunker :: Chunker
  se_blobs :: FileStore
  se_store :: CrdtStore

definition journal_path :: "SyncEngine \<Rightarrow> string" where
  "journal_path e = se_data_dir e @ ''/store.meta''"

text \<open>The replay loop; a line that does not parse throws and ends the constructor.\<close>

fun load_lines :: "CrdtStore \<Rightarrow> string list \<Rightarrow> CrdtStore result" where
  "load_lines s [] = Inr s"
| "load_lines s (line # lines) =
     (if line = '''' then load_lines s lines
      else res_bind (line_to_entry line) (\<lambda>entry. load_lines (load_entry s entry) lines))"

text \<open>A journal that cannot be read (it does not exist, or is a directory) has no lines.\<close>

definition load_journal :: "SyncEngine \<Rightarrow> SyncEngine io" where
  "load_journal e w =
     (case node_at w (path_of (journal_path e)) of
        Some (File bytes) \<Rightarrow>
          (res_bind (load_lines (se_store e) (getlines NL (text_of_bytes bytes)))
             (\<lambda>s. Inr (e\<lparr>se_store := s\<rparr>)), w)
      | _ \<Rightarrow> (Inr e, w))"

definition new_engine :: "string \<Rightarrow> string \<Rightarrow> SyncEngine io" where
  "new_engine node_id data_dir =
     io_bind (new_file_store (data_dir @ ''/blobstore'')) (\<lambda>blobs.
       let e = \<lparr>se_node_id = node_id, se_data_dir = data_dir, se_materialized_dir = data_dir @ ''/files'',
                se_chunker = default_chunker, se_blobs = blobs, se_store = new_store node_id\<rparr>
       in io_then (create_directories (path_of data_dir)) (load_journal e))"

definition journal_text :: "CrdtStore \<Rightarrow> string" where
  "journal_text s = concat (map (\<lambda>entry. entry_to_line entry @ [NL]) (all_entries s))"

definition save_journal :: "SyncEngine \<Rightarrow> unit io" where
  "save_journal e = write_file (path_of (journal_path e)) (bytes_of_text (journal_text (se_store e)))"

definition engine_materialize :: "SyncEngine \<Rightarrow> string \<Rightarrow> unit io" where
  "engine_materialize e p =
     (case store_get (se_store e) p of
        None \<Rightarrow> io_return ()
      | Some entry \<Rightarrow>
          if \<not> has_content entry then io_return ()
          else fs_materialize (se_blobs e) (se_materialized_dir e) p (fe_chunk_hashes entry))"

text \<open>What \<^verbatim>\<open>ingest_file\<close> prints about the change.\<close>

definition ingest_report :: "SyncEngine \<Rightarrow> string \<Rightarrow> Chunk list \<Rightarrow> string" where
  "ingest_report e p chunks =
     (let prefix = ''['' @ se_node_id e @ ''] '' @ p;
          fresh = prefix @ '': new file, '' @ dec_digits (length chunks) @ '' chunk(s)'' @ [NL]
      in case store_get (se_store e) p of
           None \<Rightarrow> fresh
         | Some prev \<Rightarrow>
             if \<not> has_content prev then fresh
             else
               let old = fe_chunk_hashes prev
               in if length old = length chunks then
                    prefix @ '': '' @
                    dec_digits (length (filter (\<lambda>i. old ! i \<noteq> ck_hash (chunks ! i)) [0..<length chunks])) @
                    ''/'' @ dec_digits (length chunks) @ '' chunks changed vs. previous version'' @ [NL]
                  else
                    prefix @ '': chunk count changed ('' @ dec_digits (length old) @ '' -> '' @
                    dec_digits (length chunks) @ ''), treating as full re-chunk'' @ [NL])"

text \<open>
  Building the tree always returns (\<open>merkle_build_total\<close>), so \<^const>\<open>the\<close> only strips the
  \<^const>\<open>Some\<close>.
\<close>

definition ingest_file :: "SyncEngine \<Rightarrow> string \<Rightarrow> byte list \<Rightarrow> (FileEntry \<times> SyncEngine) io" where
  "ingest_file e p bytes =
     (let chunks = chunk (se_chunker e) bytes;
          new_tree = the (merkle_build chunks)
      in io_then (print_out (ingest_report e p chunks))
        (io_then (io_for chunks (put_chunk (se_blobs e)))
          (let hashes = map ck_hash chunks;
               total_size = foldl (\<lambda>n c. n + of_nat (length (ck_data c))) 0 chunks
           in io_bind (io_lift (if tree_empty new_tree then Inr (digest_of []) else tree_root new_tree)) (\<lambda>root.
                let e = e\<lparr>se_store := put_local (se_store e) p hashes root total_size\<rparr>
                in io_then (engine_materialize e p)
                  (io_then (save_journal e)
                    (case store_get (se_store e) p of
                       None \<Rightarrow> io_throw Undefined_behaviour
                     | Some entry \<Rightarrow> io_return (entry, e)))))))"

definition delete_file :: "SyncEngine \<Rightarrow> string \<Rightarrow> SyncEngine io" where
  "delete_file e p =
     (let e = e\<lparr>se_store := delete_local (se_store e) p\<rparr>
      in io_then (save_journal e) (io_return e))"

section \<open>The engine's invariant\<close>

text \<open>
  The engine and the disk it works on: the data directory exists, at the place \<open>D\<close>; the chunk
  directory is where it belongs; the journal is not a directory; every entry is filed under
  its own path.
\<close>

definition engine_at :: "SyncEngine \<Rightarrow> world \<Rightarrow> string list \<Rightarrow> bool" where
  "engine_at e w D \<longleftrightarrow>
     NUL \<notin> set (se_data_dir e) \<and> resolve w (path_of (se_data_dir e)) = Some D \<and> w_nodes w D = Some Dir \<and>
     se_materialized_dir e = se_data_dir e @ ''/files'' \<and> se_chunker e = default_chunker \<and>
     fs_root (se_blobs e) = se_data_dir e @ ''/blobstore'' \<and>
     store_at (se_blobs e) w (D @ [''blobstore'', ''chunks'']) \<and>
     cs_node_id (se_store e) = se_node_id e \<and> store_wf (se_store e) \<and>
     w_nodes w (D @ [''store.meta'']) \<noteq> Some Dir"

lemma plain_names: "plain ''files''" "plain ''blobstore''" "plain ''chunks''" "plain ''store.meta''"
  by (simp_all add: plain_def)

lemma store_at_kept:
  assumes "store_at fs w B" "tree_ok w'" "fs_le w w'"
    and "\<And>h. w_nodes w' (B @ [chunk_name h]) = w_nodes w (B @ [chunk_name h])"
  shows "store_at fs w' B" "blob fs w' = blob fs w"
proof -
  show at: "store_at fs w' B"
    using assms resolve_mono [OF _ assms(3)] by (auto simp: store_at_def fs_le_def)
  show "blob fs w' = blob fs w"
    using blob_at [OF at] blob_at [OF assms(1)] assms(4) by (intro ext) simp
qed

lemma engine_at_kept:
  assumes "engine_at e w D" "tree_ok w'" "fs_le w w'"
    and "\<And>h. w_nodes w' (D @ [''blobstore'', ''chunks'', chunk_name h]) =
      w_nodes w (D @ [''blobstore'', ''chunks'', chunk_name h])"
    and "w_nodes w' (D @ [''store.meta'']) \<noteq> Some Dir"
    and "cs_node_id s = se_node_id e" "store_wf s"
  shows "engine_at (e\<lparr>se_store := s\<rparr>) w' D"
  using assms store_at_kept(1) [of "se_blobs e" w "D @ [''blobstore'', ''chunks'']" w']
    resolve_mono [OF _ assms(3)]
  by (auto simp: engine_at_def fs_le_def)

lemma engine_tree_ok: "engine_at e w D \<Longrightarrow> tree_ok w"
  by (simp add: engine_at_def store_at_def)

lemma resolve_journal: "engine_at e w D \<Longrightarrow> resolve w (path_of (journal_path e)) = Some (D @ [''store.meta''])"
  using resolve_child [of w "se_data_dir e" D "''store.meta''"] plain_names(4)
  by (simp add: journal_path_def engine_at_def)

lemma save_journal_run:
  assumes "engine_at e w D"
  shows "save_journal e w = (Inr (), w\<lparr>w_nodes := (w_nodes w)(D @ [''store.meta''] \<mapsto>
    File (bytes_of_text (journal_text (se_store e))))\<rparr>)"
  unfolding save_journal_def using assms
  by (intro write_file_at resolve_journal) (auto simp: engine_at_def)

lemma save_journal_at:
  assumes "engine_at e w D" "save_journal e w = (r, w')"
  shows "r = Inr () \<and> engine_at e w' D \<and> fs_le w w' \<and>
    w_nodes w' = (w_nodes w)(D @ [''store.meta''] \<mapsto> File (bytes_of_text (journal_text (se_store e))))"
proof -
  have w': "r = Inr ()" "w_nodes w' = (w_nodes w)(D @ [''store.meta''] \<mapsto>
      File (bytes_of_text (journal_text (se_store e))))"
    using assms(2) save_journal_run [OF assms(1)] by auto
  have "tree_ok w'" "fs_le w w'"
    using assms(2) write_file_ok [OF engine_tree_ok [OF assms(1)]] write_file_le
    by (metis save_journal_def snd_conv)+
  then have "engine_at (e\<lparr>se_store := se_store e\<rparr>) w' D"
    using assms(1) by (intro engine_at_kept [OF assms(1)]) (auto simp: w' engine_at_def)
  with w' \<open>fs_le w w'\<close> show ?thesis by simp
qed

lemma engine_base:
  "engine_at e w D \<Longrightarrow> tree_ok w \<and> resolve w (path_of (se_data_dir e)) = Some D \<and> w_nodes w D = Some Dir \<and>
     NUL \<notin> set (se_data_dir e) \<and> se_materialized_dir e = se_data_dir e @ SLASH # ''files''"
  by (simp add: engine_at_def store_at_def)

lemma engine_materialize_at:
  assumes "engine_at e w D" "safe_rel p" "engine_materialize e p w = (r, w')"
  shows "engine_at e w' D \<and> fs_le w w' \<and> (\<forall>x. w_nodes w' x \<noteq> w_nodes w x \<longrightarrow> (\<exists>ys. x = D @ ''files'' # ys))"
proof (cases "\<exists>entry. store_get (se_store e) p = Some entry \<and> has_content entry")
  case True
  then obtain entry where "store_get (se_store e) p = Some entry" "has_content entry" by blast
  then have run: "fs_materialize (se_blobs e) (se_data_dir e @ SLASH # ''files'') p
      (fe_chunk_hashes entry) w = (r, w')"
    using assms(3) engine_base [OF assms(1)] by (simp add: engine_materialize_def)
  note below = materialize_below [OF _ _ _ _ plain_names(1) assms(2) run, of D]
  then have w': "tree_ok w'" "fs_le w w'" "\<forall>x. w_nodes w' x \<noteq> w_nodes w x \<longrightarrow> (\<exists>ys. x = D @ ''files'' # ys)"
    using engine_base [OF assms(1)] by auto
  have "w_nodes w' (D @ y # ys) = w_nodes w (D @ y # ys)" if "y \<noteq> ''files''" for y ys
    using w'(3) that by blast
  then have "engine_at (e\<lparr>se_store := se_store e\<rparr>) w' D"
    using assms(1) w' by (intro engine_at_kept [OF assms(1)]) (auto simp: engine_at_def)
  with w' show ?thesis by simp
next
  case False
  then show ?thesis
    using assms(1,3) by (auto simp: engine_materialize_def split: option.splits if_splits)
qed

lemma engine_put_chunks:
  assumes "engine_at e w D"
  shows "\<exists>w'. io_for cs (put_chunk (se_blobs e)) w = (Inr (), w') \<and> engine_at e w' D \<and> fs_le w w' \<and>
    w' = w\<lparr>w_nodes := w_nodes w'\<rparr> \<and>
    (\<forall>q. w_nodes w' q \<noteq> w_nodes w q \<longrightarrow> (\<exists>h. q = D @ [''blobstore'', ''chunks'', chunk_name h]))"
proof -
  have "store_at (se_blobs e) w (D @ [''blobstore'', ''chunks''])"
    using assms unfolding engine_at_def by blast
  from put_chunks_at [OF this, of cs] obtain w' where
    w': "io_for cs (put_chunk (se_blobs e)) w = (Inr (), w')" "fs_le w w'" "w' = w\<lparr>w_nodes := w_nodes w'\<rparr>"
      "store_at (se_blobs e) w' (D @ [''blobstore'', ''chunks''])"
      "\<forall>q. w_nodes w' q \<noteq> w_nodes w q \<longrightarrow> (\<exists>h. q = D @ [''blobstore'', ''chunks'', chunk_name h])"
    by auto
  have "w_nodes w' (D @ [''store.meta'']) = w_nodes w (D @ [''store.meta''])"
    using w'(5) by fastforce
  then have "engine_at e w' D"
    using assms w'(2,4) resolve_mono [OF _ w'(2)] by (auto simp: engine_at_def fs_le_def)
  with w' show ?thesis by blast
qed

lemma engine_at_cong:
  assumes "w_nodes w' = w_nodes w" "w_cwd w' = w_cwd w"
  shows "engine_at e w' D \<longleftrightarrow> engine_at e w D"
  using resolve_cong [OF assms] disk_cong(2) [OF assms] assms(1) by (simp add: engine_at_def)

lemma engine_at_print:
  "engine_at e (w\<lparr>w_out := s\<rparr>) D \<longleftrightarrow> engine_at e w D" "blob fs (w\<lparr>w_out := s\<rparr>) = blob fs w"
  by (rule engine_at_cong) (simp_all, rule ext, rule disk_cong, simp_all)

section \<open>Adding a file\<close>

lemma total_size_chunks:
  "foldl (\<lambda>n c. n + of_nat (length (ck_data c))) a cs = a + (of_nat (length (concat (map ck_data cs))) :: u64)"
  by (induction cs arbitrary: a) auto

text \<open>The entry that a local edit records for a file of these bytes.\<close>

definition ingested :: "SyncEngine \<Rightarrow> string \<Rightarrow> byte list \<Rightarrow> FileEntry \<Rightarrow> bool" where
  "ingested e p bytes entry \<longleftrightarrow>
     fe_path entry = p \<and> \<not> fe_deleted entry \<and> fe_last_writer entry = se_node_id e \<and>
     fe_chunk_hashes entry = map ck_hash (chunk (se_chunker e) bytes) \<and>
     fe_size entry = of_nat (length bytes) \<and>
     fe_merkle_root entry =
       (if bytes = [] then digest_of [] else merkle_hash (map ck_hash (chunk (se_chunker e) bytes))) \<and>
     fe_clock entry = increment (case store_get (se_store e) p of None \<Rightarrow> om_empty | Some old \<Rightarrow> fe_clock old)
       (se_node_id e)"

lemma ingest_root:
  "(if tree_empty (the (merkle_build (chunk c bytes))) then Inr (digest_of [])
    else tree_root (the (merkle_build (chunk c bytes)))) =
   Inr (if bytes = [] then digest_of [] else merkle_hash (map ck_hash (chunk c bytes)))"
proof (cases "bytes = []")
  case True
  then have "chunk c bytes = []" by (simp add: cdc.no_chunks_iff)
  with True show ?thesis by (simp add: merkle_build_def tree_empty_def)
next
  case False
  then have "chunk c bytes \<noteq> []" by (simp add: cdc.no_chunks_iff)
  from merkle_build_root [OF this] obtain r where
    "merkle_build (chunk c bytes) = Some \<lparr>mt_root = Some r, leaf_count = length (chunk c bytes)\<rparr>"
    "mn_hash r = merkle_hash (map ck_hash (chunk c bytes))" by metis
  with False show ?thesis by (simp add: tree_empty_def tree_root_def)
qed

lemma put_local_node [simp]: "cs_node_id (put_local s p hashes root sz) = cs_node_id s"
  by (simp add: put_local_def Let_def)

lemma delete_local_node [simp]: "cs_node_id (delete_local s p) = cs_node_id s"
  by (simp add: delete_local_def Let_def)

lemma put_local_wf: "store_wf s \<Longrightarrow> store_wf (put_local s p hashes root sz)"
  by (auto simp: store_wf_iff get_put_local)

lemma delete_local_wf: "store_wf s \<Longrightarrow> store_wf (delete_local s p)"
  by (auto simp: store_wf_iff get_delete_local Let_def)

lemma engine_at_store:
  "engine_at e w D \<Longrightarrow> cs_node_id s = se_node_id e \<Longrightarrow> store_wf s \<Longrightarrow> engine_at (e\<lparr>se_store := s\<rparr>) w D"
  by (simp add: engine_at_def)

lemma way_clear_kept:
  assumes "way_clear w D (n # ds)" "w_nodes w D = Some Dir" "w_nodes w' D = Some Dir"
    and "\<And>ys. w_nodes w' (D @ n # ys) = w_nodes w (D @ n # ys)"
  shows "way_clear w' D (n # ds)"
proof -
  have "w_nodes w' (D @ ys) = w_nodes w (D @ ys)" if "prefix ys (n # ds)" for ys
    using that assms(2-4) by (cases ys) auto
  moreover have "prefix (butlast (n # ds)) (n # ds)"
    by (metis append_butlast_last_id list.distinct(1) prefixI)
  ultimately have "w_nodes w' (D @ ys) = w_nodes w (D @ ys)" if "prefix ys (butlast (n # ds))" for ys
    using that prefix_order.trans by blast
  then show ?thesis
    using assms(1,4) by (simp add: way_clear_def del: butlast.simps)
qed

text \<open>The store and the disk after the chunks of a file are recorded, before it is written out.\<close>

lemma ingest_file_eq:
  assumes "print_out (ingest_report e p (chunk (se_chunker e) bytes)) w = (Inr (), w1)"
    and "io_for (chunk (se_chunker e) bytes) (put_chunk (se_blobs e)) w1 = (Inr (), w2)"
    and "e2 = e\<lparr>se_store := put_local (se_store e) p (map ck_hash (chunk (se_chunker e) bytes))
      (if bytes = [] then digest_of [] else merkle_hash (map ck_hash (chunk (se_chunker e) bytes)))
      (of_nat (length bytes))\<rparr>"
    and "cs_node_id (se_store e) = se_node_id e"
  obtains entry where "ingested e p bytes entry" "store_get (se_store e2) p = Some entry"
    "\<And>q. q \<noteq> p \<Longrightarrow> store_get (se_store e2) q = store_get (se_store e) q"
    "ingest_file e p bytes w = io_then (engine_materialize e2 p)
       (io_then (save_journal e2) (io_return (entry, e2))) w2"
proof -
  define entry where "entry = the (store_get (se_store e2) p)"
  have get: "store_get (se_store e2) p = Some entry" "ingested e p bytes entry"
    "\<And>q. q \<noteq> p \<Longrightarrow> store_get (se_store e2) q = store_get (se_store e) q"
    using assms(4) by (auto simp: entry_def assms(3) get_put_local ingested_def)
  have "ingest_file e p bytes w = io_then (engine_materialize e2 p)
       (io_then (save_journal e2) (io_return (entry, e2))) w2"
    using assms(1,2) get(1) unfolding assms(3)
    by (simp add: ingest_file_def Let_def ingest_root total_size_chunks cdc.chunks_complete)
  with get that show ?thesis by blast
qed

lemma ingest_prefix:
  assumes "engine_at e w D"
  obtains entry e2 w2 where "ingested e p bytes entry" "store_get (se_store e2) p = Some entry"
    "\<And>q. q \<noteq> p \<Longrightarrow> store_get (se_store e2) q = store_get (se_store e) q"
    "ingest_file e p bytes w = io_then (engine_materialize e2 p)
       (io_then (save_journal e2) (io_return (entry, e2))) w2"
    "engine_at e2 w2 D" "\<exists>s. e2 = e\<lparr>se_store := s\<rparr>"
    "\<And>q. w_nodes w2 q \<noteq> w_nodes w q \<Longrightarrow> \<exists>h. q = D @ [''blobstore'', ''chunks'', chunk_name h]"
    "\<And>c. compatible (se_blobs e) w (chunk (se_chunker e) bytes) \<Longrightarrow> c \<in> set (chunk (se_chunker e) bytes) \<Longrightarrow>
       blob (se_blobs e) w2 (ck_hash c) = Some (ck_data c)"
proof -
  let ?cs = "chunk (se_chunker e) bytes"
  define w1 where "w1 = w\<lparr>w_out := w_out w @ ingest_report e p ?cs\<rparr>"
  have w1: "print_out (ingest_report e p ?cs) w = (Inr (), w1)" "engine_at e w1 D"
    using assms by (simp_all only: print_out_def w1_def engine_at_print)
  from engine_put_chunks [OF w1(2), of ?cs] obtain w2 where
    w2: "io_for ?cs (put_chunk (se_blobs e)) w1 = (Inr (), w2)" "engine_at e w2 D"
      "\<forall>q. w_nodes w2 q \<noteq> w_nodes w1 q \<longrightarrow> (\<exists>h. q = D @ [''blobstore'', ''chunks'', chunk_name h])"
    by blast
  have disk: "\<exists>h. q = D @ [''blobstore'', ''chunks'', chunk_name h]" if "w_nodes w2 q \<noteq> w_nodes w q" for q
    using spec [OF w2(3), of q] that unfolding w1_def by simp
  have "store_at (se_blobs e) w1 (D @ [''blobstore'', ''chunks''])"
    using w1(2) unfolding engine_at_def by blast
  then have store: "store_ready (se_blobs e) w1" by (rule store_at_ready)
  have blobs: "blob (se_blobs e) w2 (ck_hash c) = Some (ck_data c)"
    if "compatible (se_blobs e) w ?cs" "c \<in> set ?cs" for c
  proof (rule blob_put_chunks [OF store _ that(2) w2(1)])
    show "compatible (se_blobs e) w1 ?cs"
      using that(1) unfolding compatible_def w1_def engine_at_print .
  qed
  define e2 where "e2 = e\<lparr>se_store := put_local (se_store e) p (map ck_hash ?cs)
      (if bytes = [] then digest_of [] else merkle_hash (map ck_hash ?cs)) (of_nat (length bytes))\<rparr>"
  have wf: "cs_node_id (se_store e) = se_node_id e" "store_wf (se_store e)"
    using assms by (simp_all add: engine_at_def)
  have e2: "engine_at e2 w2 D"
    unfolding e2_def by (rule engine_at_store [OF w2(2)]) (simp_all add: put_local_wf wf)
  have blobs2: "\<exists>s. e2 = e\<lparr>se_store := s\<rparr>" unfolding e2_def by blast
  show ?thesis
  proof (rule ingest_file_eq [OF w1(1) w2(1) e2_def wf(1)])
    fix entry
    assume entry: "ingested e p bytes entry" "store_get (se_store e2) p = Some entry"
      "\<And>q. q \<noteq> p \<Longrightarrow> store_get (se_store e2) q = store_get (se_store e) q"
      "ingest_file e p bytes w = io_then (engine_materialize e2 p)
         (io_then (save_journal e2) (io_return (entry, e2))) w2"
    show ?thesis by (rule that [OF entry e2 blobs2 disk blobs])
  qed
qed

lemma engine_materialize_writes:
  assumes "engine_at e w D" "safe_rel p" "store_get (se_store e) p = Some entry" "has_content entry"
    and "way_clear w D (''files'' # split_on SLASH p)"
    and "\<forall>h \<in> set (fe_chunk_hashes entry). blob (se_blobs e) w h = Some (f h)"
  shows "\<exists>w'. engine_materialize e p w = (Inr (), w') \<and>
    wrote_file w w' D (''files'' # split_on SLASH p) (concat (map f (fe_chunk_hashes entry)))"
proof -
  have base: "tree_ok w" "resolve w (path_of (se_data_dir e)) = Some D" "w_nodes w D = Some Dir"
    "NUL \<notin> set (se_data_dir e)" "se_materialized_dir e = se_data_dir e @ SLASH # ''files''"
    using engine_base [OF assms(1)] by auto
  show ?thesis
    using materialize_writes [OF base(1-4) plain_names(1) assms(2,5,6)] assms(3,4) base(5)
    by (simp add: engine_materialize_def)
qed

lemma ingest_file_run:
  assumes "engine_at e w D" "safe_rel p" "bytes \<noteq> []"
    and "way_clear w D (''files'' # split_on SLASH p)"
    and "compatible (se_blobs e) w (chunk (se_chunker e) bytes)"
  shows "\<exists>entry e' w'. ingest_file e p bytes w = (Inr (entry, e'), w') \<and>
    ingested e p bytes entry \<and> store_get (se_store e') p = Some entry \<and>
    (\<forall>q. q \<noteq> p \<longrightarrow> store_get (se_store e') q = store_get (se_store e) q) \<and>
    w_nodes w' (D @ ''files'' # split_on SLASH p) = Some (File bytes) \<and>
    w_nodes w' (D @ [''store.meta'']) = Some (File (bytes_of_text (journal_text (se_store e')))) \<and>
    engine_at e' w' D \<and> (\<exists>s. e' = e\<lparr>se_store := s\<rparr>)"
proof -
  let ?cs = "chunk (se_chunker e) bytes"
  obtain entry e2 w2 where entry: "ingested e p bytes entry" "store_get (se_store e2) p = Some entry"
    "\<And>q. q \<noteq> p \<Longrightarrow> store_get (se_store e2) q = store_get (se_store e) q"
    and run: "ingest_file e p bytes w = io_then (engine_materialize e2 p)
       (io_then (save_journal e2) (io_return (entry, e2))) w2"
    and at: "engine_at e2 w2 D" and same: "\<exists>s. e2 = e\<lparr>se_store := s\<rparr>"
    and disk: "\<And>q. w_nodes w2 q \<noteq> w_nodes w q \<Longrightarrow> \<exists>h. q = D @ [''blobstore'', ''chunks'', chunk_name h]"
    and blobs: "\<And>c. c \<in> set ?cs \<Longrightarrow> blob (se_blobs e) w2 (ck_hash c) = Some (ck_data c)"
    using ingest_prefix [OF assms(1), of p bytes] assms(5) by metis
  then have blobs2: "se_blobs e2 = se_blobs e" by auto
  have content: "fe_chunk_hashes entry = map ck_hash ?cs" "has_content entry"
    using entry(1) assms(3) by (auto simp: ingested_def has_content_def cdc.no_chunks_iff)
  have "way_clear w2 D (''files'' # split_on SLASH p)"
  proof (rule way_clear_kept [OF assms(4)])
    show "w_nodes w D = Some Dir" "w_nodes w2 D = Some Dir"
      using assms(1) at by (simp_all add: engine_at_def)
    show "w_nodes w2 (D @ ''files'' # ys) = w_nodes w (D @ ''files'' # ys)" for ys
      using disk [of "D @ ''files'' # ys"] by auto
  qed
  then obtain w3 where mat: "engine_materialize e2 p w2 = (Inr (), w3)"
    and content_at: "w_nodes w3 (D @ ''files'' # split_on SLASH p) = Some (File (concat (map ck_data ?cs)))"
    using engine_materialize_writes [OF at assms(2) entry(2) content(2), of "\<lambda>h. the (blob (se_blobs e) w2 h)"]
      blobs blobs2 by (auto simp: content(1) comp_def wrote_file_def cong: map_cong)
  then have "engine_at e2 w3 D" using engine_materialize_at [OF at assms(2)] by blast
  moreover obtain w' where w': "save_journal e2 w3 = (Inr (), w')"
    using save_journal_run [OF \<open>engine_at e2 w3 D\<close>] by blast
  ultimately have "engine_at e2 w' D"
    "w_nodes w' = (w_nodes w3)(D @ [''store.meta''] \<mapsto> File (bytes_of_text (journal_text (se_store e2))))"
    using save_journal_at by blast+
  moreover have "ingest_file e p bytes w = (Inr (entry, e2), w')"
    using run mat w' by simp
  ultimately show ?thesis
    using entry content_at same cdc.chunks_complete [of "se_chunker e" bytes]
    by (intro exI [of _ entry] exI [of _ e2] exI [of _ w']) simp
qed


text \<open>A small engine on an empty data directory, for the concrete cases.\<close>

definition demo_world :: world where
  "demo_world = fresh_world\<lparr>w_nodes := [[] \<mapsto> Dir, [''data''] \<mapsto> Dir, [''data'', ''blobstore''] \<mapsto> Dir,
     [''data'', ''blobstore'', ''chunks''] \<mapsto> Dir]\<rparr>"

definition demo_engine :: SyncEngine where
  "demo_engine = \<lparr>se_node_id = ''A'', se_data_dir = ''/data'', se_materialized_dir = ''/data/files'',
     se_chunker = default_chunker, se_blobs = \<lparr>fs_root = ''/data/blobstore''\<rparr>, se_store = new_store ''A''\<rparr>"

lemma demo_nodes:
  "w_nodes demo_world q = (if q \<in> {[], [''data''], [''data'', ''blobstore''], [''data'', ''blobstore'', ''chunks'']}
     then Some Dir else None)"
  by (simp add: demo_world_def)

lemma demo_tree_ok: "tree_ok demo_world"
  by (simp add: tree_ok_def demo_nodes demo_world_def fresh_world_def)

lemma demo_resolve:
  "resolve demo_world (path_of ''/data'') = Some [''data'']"
  "resolve demo_world (path_of (''/data/blobstore'' @ ''/chunks'')) = Some [''data'', ''blobstore'', ''chunks'']"
  by (simp_all add: resolve_def path_of_def path_start_def path_step_def demo_nodes)

lemma demo_store_at: "store_at \<lparr>fs_root = ''/data/blobstore''\<rparr> demo_world [''data'', ''blobstore'', ''chunks'']"
  unfolding store_at_def using demo_tree_ok demo_resolve(2)
  by (intro conjI allI) (simp_all add: demo_nodes)

lemma demo_engine_at: "engine_at demo_engine demo_world [''data'']"
  unfolding engine_at_def demo_engine_def using demo_store_at demo_resolve(1)
  by (intro conjI) (simp_all add: demo_nodes store_wf_def new_store_def)

lemma chunk_single: "\<exists>ck. chunk c [b] = [ck] \<and> ck_data ck = [b]"
proof -
  have data: "concat (map ck_data (chunk c [b])) = [b]" by (rule cdc.chunks_complete)
  then obtain ck cks where cks: "chunk c [b] = ck # cks" by (cases "chunk c [b]") auto
  have ne: "ck_data k \<noteq> []" if "k \<in> set (chunk c [b])" for k using that by (rule cdc.chunks_nonempty)
  then have "ck_data ck = [b]" "concat (map ck_data cks) = []"
    using data cks by (auto simp: append_eq_Cons_conv)
  moreover from this(2) have "cks = []" using ne cks by (cases cks) auto
  ultimately show ?thesis using cks by simp
qed

lemma demo_clear: "way_clear demo_world [''data''] (''files'' # split_on SLASH ''notes'')"
  by (simp add: way_clear_def demo_nodes)

lemma demo_compatible: "compatible (se_blobs demo_engine) demo_world (chunk (se_chunker demo_engine) [b])"
proof -
  obtain ck where ck: "chunk (se_chunker demo_engine) [b] = [ck]" using chunk_single by blast
  have "blob (se_blobs demo_engine) demo_world h = None" for h
    using demo_engine_at blob_at [of "se_blobs demo_engine" demo_world "[''data'', ''blobstore'', ''chunks'']" h]
    by (simp add: engine_at_def demo_nodes)
  with ck show ?thesis by (simp add: compatible_def)
qed


section \<open>Files without content\<close>

lemma ingest_empty_run:
  assumes "engine_at e w D"
  obtains entry e' w' where "ingest_file e p [] w = (Inr (entry, e'), w')" "ingested e p [] entry"
    "engine_at e' w' D" "\<And>ys. w_nodes w' (D @ ''files'' # ys) = w_nodes w (D @ ''files'' # ys)"
proof -
  obtain entry e2 w2 where entry: "ingested e p [] entry" "store_get (se_store e2) p = Some entry"
    and run: "ingest_file e p [] w = io_then (engine_materialize e2 p)
       (io_then (save_journal e2) (io_return (entry, e2))) w2"
    and at: "engine_at e2 w2 D"
    and disk: "\<And>q. w_nodes w2 q \<noteq> w_nodes w q \<Longrightarrow> \<exists>h. q = D @ [''blobstore'', ''chunks'', chunk_name h]"
    using ingest_prefix [OF assms, of p "[]"] by metis
  have "chunk (se_chunker e) [] = []" by (simp add: cdc.no_chunks_iff)
  then have "\<not> has_content entry" using entry(1) by (simp add: ingested_def has_content_def)
  then have mat: "engine_materialize e2 p w2 = (Inr (), w2)"
    using entry(2) by (simp add: engine_materialize_def)
  obtain w' where w': "save_journal e2 w2 = (Inr (), w')" using save_journal_run [OF at] by blast
  have "w_nodes w2 (D @ ''files'' # ys) = w_nodes w (D @ ''files'' # ys)" for ys
    using disk [of "D @ ''files'' # ys"] by auto
  then have "w_nodes w' (D @ ''files'' # ys) = w_nodes w (D @ ''files'' # ys)" for ys
    using save_journal_at [OF at w'] by simp
  with run mat w' entry(1) save_journal_at [OF at w'] show ?thesis
    by (intro that [of entry e2 w']) simp_all
qed

text \<open>
  Claim C36. An empty file is recorded but not written out: the entry has size 0 and no chunks,
  and under \<^verbatim>\<open>files/\<close> nothing changes, so a previous content of the path stays there.
\<close>

theorem ingest_empty_stale:
  assumes "engine_at e w D"
  shows "\<exists>entry e' w'. ingest_file e p [] w = (Inr (entry, e'), w') \<and>
    fe_size entry = 0 \<and> fe_chunk_hashes entry = [] \<and> \<not> fe_deleted entry \<and>
    (\<forall>ys. w_nodes w' (D @ ''files'' # ys) = w_nodes w (D @ ''files'' # ys))"
proof -
  have "chunk (se_chunker e) [] = []" by (simp add: cdc.no_chunks_iff)
  then have none: "fe_size entry = 0 \<and> fe_chunk_hashes entry = [] \<and> \<not> fe_deleted entry"
    if "ingested e p [] entry" for entry
    using that by (simp add: ingested_def)
  show ?thesis
  proof (rule ingest_empty_run [OF assms, of p])
    fix entry e' w'
    assume "ingest_file e p [] w = (Inr (entry, e'), w')" "ingested e p [] entry"
      "\<And>ys. w_nodes w' (D @ ''files'' # ys) = w_nodes w (D @ ''files'' # ys)"
    with none show ?thesis by blast
  qed
qed

theorem ingest_empty_stale_witness:
  "\<exists>entry e' w'. ingest_file demo_engine ''notes'' [] demo_world = (Inr (entry, e'), w') \<and>
    fe_size entry = 0 \<and> w_nodes w' [''data'', ''files'', ''notes''] = None"
  using ingest_empty_stale [OF demo_engine_at, of "''notes''"] by (fastforce simp: demo_nodes)

lemma delete_file_run:
  assumes "engine_at e w D"
  shows "\<exists>e' w'. delete_file e p w = (Inr e', w') \<and> engine_at e' w' D \<and> e' = e\<lparr>se_store := delete_local (se_store e) p\<rparr> \<and>
    (\<exists>entry. store_get (se_store e') p = Some entry \<and> fe_deleted entry \<and> fe_chunk_hashes entry = [] \<and>
       fe_clock entry = increment (case store_get (se_store e) p of None \<Rightarrow> om_empty | Some old \<Rightarrow> fe_clock old)
         (se_node_id e)) \<and>
    w_nodes w' = (w_nodes w)(D @ [''store.meta''] \<mapsto> File (bytes_of_text (journal_text (se_store e'))))"
proof -
  define e' where "e' = e\<lparr>se_store := delete_local (se_store e) p\<rparr>"
  have node: "cs_node_id (se_store e) = se_node_id e" "store_wf (se_store e)"
    using assms by (simp_all add: engine_at_def)
  then have at: "engine_at e' w D"
    unfolding e'_def by (intro engine_at_store [OF assms]) (simp_all add: delete_local_wf)
  then obtain w' where w': "save_journal e' w = (Inr (), w')" using save_journal_run by blast
  then have "delete_file e p w = (Inr e', w')" by (simp add: delete_file_def Let_def flip: e'_def)
  with save_journal_at [OF at w'] node show ?thesis
    by (auto simp: e'_def get_delete_local Let_def new_entry_def split: option.split)
qed

section \<open>Restarting from the journal\<close>

lemma load_lines_written:
  "\<forall>en \<in> set es. line_safe en \<Longrightarrow> load_lines s (map entry_to_line es) = Inr (foldl load_entry s es)"
  by (induction es arbitrary: s) (auto simp: entry_roundtrip line_safe_def)

lemma foldl_load_entries:
  "foldl load_entry s es =
     s\<lparr>cs_entries := foldl (\<lambda>m kv. om_update (fst kv) (snd kv) m) (cs_entries s) (map (\<lambda>en. (fe_path en, en)) es)\<rparr>"
  by (induction es arbitrary: s) (simp_all add: load_entry_def)

lemma reload_entries:
  assumes "store_wf s"
  shows "foldl load_entry (new_store (cs_node_id s)) (all_entries s) = s"
proof -
  have "map (\<lambda>en. (fe_path en, en)) (all_entries s) = items (cs_entries s)"
    using assms by (auto simp: all_entries_def store_wf_def comp_def intro!: map_idI)
  then show ?thesis
    using om_of_list_items [of "cs_entries s"]
    by (simp add: foldl_load_entries new_store_def om_of_list_def)
qed

lemma load_lines_kept:
  "load_lines s lines = Inr s' \<Longrightarrow> store_wf s \<Longrightarrow> store_wf s' \<and> cs_node_id s' = cs_node_id s"
proof (induction s lines rule: load_lines.induct)
  case (2 s line lines)
  have "store_wf (load_entry s entry)" for entry
    using 2(4) by (auto simp: store_wf_iff get_load_entry)
  moreover have "cs_node_id (load_entry s entry) = cs_node_id s" for entry
    by (simp add: load_entry_def)
  ultimately show ?case using 2 by (auto simp: res_bind_Inr_iff split: if_splits)
qed simp

lemma load_lines_safe:
  "load_lines s lines = Inr s' \<Longrightarrow> \<forall>l \<in> set lines. NL \<notin> set l \<Longrightarrow> store_get s' p = Some en \<Longrightarrow>
   (\<And>p en. store_get s p = Some en \<Longrightarrow> line_safe en) \<Longrightarrow> line_safe en"
proof (induction s lines rule: load_lines.induct)
  case (2 s line lines)
  show ?case
  proof (cases "line = ''''")
    case False
    with 2(3) obtain e1 where e1: "line_to_entry line = Inr e1" "load_lines (load_entry s e1) lines = Inr s'"
      by (auto simp: res_bind_Inr_iff)
    have "line_safe e1" using line_to_entry_line_safe [OF e1(1)] 2(4) by simp
    then have "line_safe en'" if "store_get (load_entry s e1) q = Some en'" for q en'
      using that 2(6) by (auto simp: get_load_entry split: if_splits)
    then show ?thesis
      using 2(4) by (intro 2(2) [OF False e1(2) _ 2(5)]) auto
  qed (use 2 in auto)
qed auto

lemma all_entries_get:
  assumes "store_wf s"
  shows "en \<in> set (all_entries s) \<longleftrightarrow> store_get s (fe_path en) = Some en"
proof -
  have "(p, en) \<in> set (items (cs_entries s)) \<Longrightarrow> fe_path en = p" for p
    using assms by (auto simp: store_wf_def)
  moreover have "en \<in> set (all_entries s) \<longleftrightarrow> (\<exists>p. (p, en) \<in> set (items (cs_entries s)))"
    by (simp add: all_entries_def image_iff Bex_def)
  ultimately show ?thesis unfolding store_get_def lookup_items by blast
qed

lemma reload_iff:
  assumes "store_wf s"
  shows "load_lines (new_store (cs_node_id s)) (getlines NL (journal_text s)) = Inr s \<longleftrightarrow>
    (\<forall>en \<in> set (all_entries s). line_safe en)"
proof
  assume safe: "\<forall>en \<in> set (all_entries s). line_safe en"
  then have lines: "getlines NL (journal_text s) = map entry_to_line (all_entries s)"
    unfolding journal_text_def by (rule lines_roundtrip)
  show "load_lines (new_store (cs_node_id s)) (getlines NL (journal_text s)) = Inr s"
    unfolding lines load_lines_written [OF safe] reload_entries [OF assms] ..
next
  assume load: "load_lines (new_store (cs_node_id s)) (getlines NL (journal_text s)) = Inr s"
  have "\<forall>l \<in> set (getlines NL (journal_text s)). NL \<notin> set l"
    by (intro ballI conjunct1 [OF getlines_parts])
  then have "line_safe en" if "store_get s p = Some en" for p en
    by (rule load_lines_safe [OF load _ that]) (simp add: new_store_def store_get_def)
  then show "\<forall>en \<in> set (all_entries s). line_safe en"
    using all_entries_get [OF assms] by blast
qed

lemma new_engine_existing:
  assumes "engine_at e w D"
  shows "new_engine (se_node_id e) (se_data_dir e) w =
    load_journal (e\<lparr>se_store := new_store (se_node_id e)\<rparr>) w"
proof -
  have blobs: "resolve w (path_of (fs_root (se_blobs e) @ ''/chunks'')) = Some (D @ [''blobstore'', ''chunks''])"
    "w_nodes w (D @ [''blobstore'', ''chunks'']) = Some Dir"
    using assms unfolding engine_at_def store_at_def by blast+
  have root: "fs_root (se_blobs e) = se_data_dir e @ ''/blobstore''"
    using assms unfolding engine_at_def by blast
  have "create_directories (path_of (fs_root (se_blobs e) @ ''/chunks'')) w = (Inr (), w)"
    by (rule create_directories_existing [OF blobs])
  moreover have "\<lparr>fs_root = fs_root (se_blobs e)\<rparr> = se_blobs e" by simp
  ultimately have "new_file_store (se_data_dir e @ ''/blobstore'') w = (Inr (se_blobs e), w)"
    unfolding new_file_store_def root [symmetric] by simp
  moreover have "create_directories (path_of (se_data_dir e)) w = (Inr (), w)"
    using assms by (intro create_directories_existing) (auto simp: engine_at_def)
  moreover have "\<lparr>se_node_id = se_node_id e, se_data_dir = se_data_dir e,
      se_materialized_dir = se_data_dir e @ ''/files'', se_chunker = default_chunker,
      se_blobs = se_blobs e, se_store = new_store (se_node_id e)\<rparr> = e\<lparr>se_store := new_store (se_node_id e)\<rparr>"
    using assms by (cases e) (simp add: engine_at_def)
  ultimately show ?thesis by (simp add: new_engine_def Let_def)
qed

text \<open>
  Claim C7. A node remembers its state across restarts exactly when no name in it contains a
  character of the journal's format: after saving, a new process on the same directory has the
  same engine if and only if every entry can be written as a line.
\<close>

theorem restart_restores_iff:
  assumes "engine_at e w D"
  shows "fst (new_engine (se_node_id e) (se_data_dir e) (snd (save_journal e w))) = Inr e \<longleftrightarrow>
    (\<forall>en \<in> set (all_entries (se_store e)). line_safe en)"
proof -
  obtain w' where w': "save_journal e w = (Inr (), w')" using save_journal_run [OF assms] by blast
  note at = save_journal_at [OF assms w']
  have wf: "cs_node_id (se_store e) = se_node_id e" "store_wf (se_store e)"
    using assms by (simp_all add: engine_at_def)
  have "node_at w' (path_of (journal_path e)) = Some (File (bytes_of_text (journal_text (se_store e))))"
    using at resolve_journal [of e w' D] by (simp add: node_at_def)
  then have "fst (new_engine (se_node_id e) (se_data_dir e) w') =
      res_bind (load_lines (new_store (se_node_id e)) (getlines NL (journal_text (se_store e))))
        (\<lambda>s. Inr (e\<lparr>se_store := s\<rparr>))"
    using at new_engine_existing [of e w' D] by (simp add: load_journal_def journal_path_def comp_def)
  also have "\<dots> = Inr e \<longleftrightarrow>
      load_lines (new_store (se_node_id e)) (getlines NL (journal_text (se_store e))) = Inr (se_store e)"
    by (cases e) (auto simp: res_bind_Inr_iff)
  also have "\<dots> \<longleftrightarrow> (\<forall>en \<in> set (all_entries (se_store e)). line_safe en)"
    using reload_iff [OF wf(2)] wf(1) by simp
  finally show ?thesis using w' by simp
qed

theorem restart_restores_iff_witness:
  "fst (new_engine ''A'' ''/data'' (snd (save_journal demo_engine demo_world))) = Inr demo_engine"
  using restart_restores_iff [OF demo_engine_at]
  by (simp add: demo_engine_def all_entries_def new_store_def)

end
