(* ===== verification/Sync_Session.thy ===== *)
theory Sync_Session
  imports Framing Sync_Engine
begin

text \<open>
  The protocol half of \<^verbatim>\<open>network.cpp\<close>: the payloads of the four frame types and the sync
  session, in which both peers send their manifest, merge the other's, ask for the chunks they
  miss, answer the other's request, and write out what they adopted.  The session is composed
  of its numbered phases.
\<close>

section \<open>Frame types and statistics\<close>

definition FRAME_MANIFEST :: byte where "FRAME_MANIFEST = 1"
definition FRAME_CHUNK_REQUEST :: byte where "FRAME_CHUNK_REQUEST = 2"
definition FRAME_CHUNK_DATA :: byte where "FRAME_CHUNK_DATA = 3"
definition FRAME_DONE :: byte where "FRAME_DONE = 4"

record SyncStats =
  entries_sent :: int
  entries_applied_remote :: int
  entries_kept_local :: int
  entries_no_change :: int
  conflicts_forked :: int
  chunks_fetched :: int

definition new_stats :: SyncStats where
  "new_stats = \<lparr>entries_sent = 0, entries_applied_remote = 0, entries_kept_local = 0,
     entries_no_change = 0, conflicts_forked = 0, chunks_fetched = 0\<rparr>"

section \<open>Payloads\<close>

definition serialize_manifest :: "SyncEngine \<Rightarrow> byte list" where
  "serialize_manifest e =
     bytes_of_text (se_node_id e @ [NL] @ concat (map (\<lambda>en. entry_to_line en @ [NL]) (all_entries (se_store e))))"

definition parse_manifest :: "byte list \<Rightarrow> FileEntry list result" where
  "parse_manifest payload =
     res_map line_to_entry (filter (\<lambda>line. line \<noteq> '''') (drop 1 (getlines NL (text_of_bytes payload))))"

definition serialize_hash_list :: "Digest list \<Rightarrow> byte list" where
  "serialize_hash_list hashes = bytes_of_text (join [NL] (map to_hex hashes))"

definition parse_hash_list :: "byte list \<Rightarrow> Digest list result" where
  "parse_hash_list payload =
     res_map hex_to_digest (filter (\<lambda>line. line \<noteq> '''') (getlines NL (text_of_bytes payload)))"

text \<open>One chunk of the \<^verbatim>\<open>CHUNK_DATA\<close> payload: hash, length, bytes.\<close>

definition encode_chunk :: "Digest \<Rightarrow> byte list \<Rightarrow> byte list" where
  "encode_chunk h bytes = digest_bytes h @ be32_bytes (of_nat (length bytes)) @ bytes"

fun build_chunk_data :: "FileStore \<Rightarrow> Digest list \<Rightarrow> byte list io" where
  "build_chunk_data fs [] = io_return []"
| "build_chunk_data fs (h # hs) =
     (\<lambda>w. if \<not> has_chunk fs h w then build_chunk_data fs hs w
          else io_bind (get_chunk fs h) (\<lambda>bytes.
                 io_bind (build_chunk_data fs hs) (\<lambda>rest. io_return (encode_chunk h bytes @ rest))) w)"

text \<open>
  The receiving loop, on the part of the payload from \<^verbatim>\<open>pos\<close> on.  A length that points past
  the end of the payload makes \<^verbatim>\<open>assign\<close> read beyond the vector.
\<close>

function store_chunk_data :: "FileStore \<Rightarrow> byte list \<Rightarrow> int \<Rightarrow> int io" where
  "store_chunk_data fs payload fetched =
     (if length payload < 36 then io_return fetched
      else
        let h = digest_of (take 32 payload);
            len = unat (be32_word (payload ! 32) (payload ! 33) (payload ! 34) (payload ! 35));
            rest = drop 36 payload
        in if length rest < len then io_throw Undefined_behaviour
           else io_then (put_chunk fs \<lparr>ck_offset = 0, ck_data = take len rest, ck_hash = h\<rparr>)
                  (store_chunk_data fs (drop len rest) (fetched + 1)))"
  by pat_completeness auto
termination
  by (relation "measure (\<lambda>(fs, p, n). length p)") auto

declare store_chunk_data.simps [simp del]

section \<open>The session\<close>

text \<open>\<^verbatim>\<open>if (!sock.recv_frame(type, payload) || type != expected) throw\<close>.\<close>

definition expect_frame :: "byte \<Rightarrow> string \<Rightarrow> byte list io" where
  "expect_frame t name =
     io_bind recv_frame (\<lambda>f.
       case f of
         Some (t', payload) \<Rightarrow>
           if t' \<noteq> t then io_throw (Runtime_error (''expected '' @ name @ '' frame from peer''))
           else io_return payload
       | None \<Rightarrow> io_throw (Runtime_error (''expected '' @ name @ '' frame from peer'')))"

text \<open>
  The variables of the merge loop: the engine, the statistics, the set of hashes to ask for (an
  ordered set of hex names) and the paths to write out, in order.
\<close>

record merge_state =
  ms_engine :: SyncEngine
  ms_stats :: SyncStats
  ms_needed :: "(string, unit) omap"
  ms_paths :: "string list"

definition note_needed :: "FileStore \<Rightarrow> world \<Rightarrow> Digest list \<Rightarrow> (string, unit) omap \<Rightarrow> (string, unit) omap" where
  "note_needed fs w hashes needed =
     foldl (\<lambda>m h. if \<not> has_chunk fs h w then om_update (to_hex h) () m else m) needed hashes"

definition merge_entry :: "world \<Rightarrow> merge_state \<Rightarrow> FileEntry \<Rightarrow> merge_state" where
  "merge_entry w ms re =
     (let (r, s) = merge_remote (se_store (ms_engine ms)) re;
          e = (ms_engine ms)\<lparr>se_store := s\<rparr>;
          ms = ms\<lparr>ms_engine := e\<rparr>;
          stats = ms_stats ms
      in case outcome r of
           APPLIED_REMOTE \<Rightarrow>
             ms\<lparr>ms_stats := stats\<lparr>entries_applied_remote := entries_applied_remote stats + 1\<rparr>,
                ms_needed := note_needed (se_blobs e) w (fe_chunk_hashes re) (ms_needed ms),
                ms_paths := ms_paths ms @ [fe_path re]\<rparr>
         | CONFLICT_FORKED \<Rightarrow>
             (let ms = ms\<lparr>ms_stats := stats\<lparr>conflicts_forked := conflicts_forked stats + 1\<rparr>\<rparr>
              in case store_get s (conflict_path r) of
                   None \<Rightarrow> ms
                 | Some forked \<Rightarrow>
                     ms\<lparr>ms_needed := note_needed (se_blobs e) w (fe_chunk_hashes forked) (ms_needed ms),
                        ms_paths := ms_paths ms @ [conflict_path r]\<rparr>)
         | KEPT_LOCAL \<Rightarrow> ms\<lparr>ms_stats := stats\<lparr>entries_kept_local := entries_kept_local stats + 1\<rparr>\<rparr>
         | NO_CHANGE \<Rightarrow> ms\<lparr>ms_stats := stats\<lparr>entries_no_change := entries_no_change stats + 1\<rparr>\<rparr>)"

definition merge_entries :: "SyncEngine \<Rightarrow> SyncStats \<Rightarrow> FileEntry list \<Rightarrow> merge_state io" where
  "merge_entries e stats remote_entries w =
     (Inr (foldl (merge_entry w)
        \<lparr>ms_engine = e, ms_stats = stats, ms_needed = om_empty, ms_paths = []\<rparr> remote_entries), w)"

text \<open>Phase 1: exchange manifests.\<close>

definition exchange_manifests :: "SyncEngine \<Rightarrow> FileEntry list io" where
  "exchange_manifests e =
     io_then (send_frame FRAME_MANIFEST (serialize_manifest e))
       (io_bind (expect_frame FRAME_MANIFEST ''MANIFEST'') (\<lambda>payload. io_lift (parse_manifest payload)))"

text \<open>Phase 3: request the chunks that are missing.\<close>

definition request_chunks :: "(string, unit) omap \<Rightarrow> unit io" where
  "request_chunks needed =
     io_bind (io_lift (res_map hex_to_digest (map fst (items needed)))) (\<lambda>hashes.
       send_frame FRAME_CHUNK_REQUEST (serialize_hash_list hashes))"

text \<open>Phase 4: answer the peer's request.\<close>

definition answer_request :: "SyncEngine \<Rightarrow> unit io" where
  "answer_request e =
     io_bind (expect_frame FRAME_CHUNK_REQUEST ''CHUNK_REQUEST'') (\<lambda>payload.
     io_bind (io_lift (parse_hash_list payload)) (\<lambda>their_needed.
     io_bind (build_chunk_data (se_blobs e) their_needed) (\<lambda>data.
       send_frame FRAME_CHUNK_DATA data)))"

text \<open>Phase 5: receive and store the chunks asked for.\<close>

definition fetch_chunks :: "SyncEngine \<Rightarrow> SyncStats \<Rightarrow> SyncStats io" where
  "fetch_chunks e stats =
     io_bind (expect_frame FRAME_CHUNK_DATA ''CHUNK_DATA'') (\<lambda>payload.
     io_bind (store_chunk_data (se_blobs e) payload (chunks_fetched stats)) (\<lambda>n.
       io_return (stats\<lparr>chunks_fetched := n\<rparr>)))"

text \<open>Phase 6: write out what was adopted, save the journal, say goodbye.\<close>

definition finish_session :: "SyncEngine \<Rightarrow> string list \<Rightarrow> unit io" where
  "finish_session e paths =
     io_then (io_for paths (engine_materialize e))
       (io_then (save_journal e)
         (io_then (send_frame FRAME_DONE [])
           (io_bind recv_frame (\<lambda>_. io_return ()))))"

definition run_sync_session :: "SyncEngine \<Rightarrow> (SyncStats \<times> SyncEngine) io" where
  "run_sync_session e =
     (let stats = new_stats\<lparr>entries_sent := to_int (length (all_entries (se_store e)))\<rparr>
      in io_bind (exchange_manifests e) (\<lambda>remote_entries.
         io_bind (merge_entries e stats remote_entries) (\<lambda>ms.
           let e = ms_engine ms
           in io_then (request_chunks (ms_needed ms))
             (io_then (answer_request e)
               (io_bind (fetch_chunks e (ms_stats ms)) (\<lambda>stats.
                 io_then (finish_session e (ms_paths ms)) (io_return (stats, e))))))))"

section \<open>Payloads are read back as written\<close>

lemma manifest_text:
  "text_of_bytes (serialize_manifest e) = se_node_id e @ NL # journal_text (se_store e)"
  by (simp add: serialize_manifest_def journal_text_def comp_def)

lemma getlines_first: "NL \<notin> set s \<Longrightarrow> drop 1 (getlines NL (s @ NL # t)) = getlines NL t"
  by (simp add: getlines_part)

lemma filter_lines: "filter (\<lambda>l. l \<noteq> '''') (map entry_to_line es) = map entry_to_line es"
  by (simp add: filter_id_conv)

lemma manifest_parse:
  assumes "NL \<notin> set (se_node_id e)"
  shows "parse_manifest (serialize_manifest e) =
    res_map line_to_entry (filter (\<lambda>l. l \<noteq> '''') (getlines NL (journal_text (se_store e))))"
  unfolding parse_manifest_def manifest_text getlines_first [OF assms] ..

lemma manifest_read:
  assumes "NL \<notin> set (se_node_id e)" "\<forall>en \<in> set (all_entries (se_store e)). line_safe en"
  shows "parse_manifest (serialize_manifest e) = Inr (all_entries (se_store e))"
  unfolding manifest_parse [OF assms(1)] journal_text_def lines_roundtrip [OF assms(2)] filter_lines
  by (rule res_map_lines [OF assms(2)])

text \<open>
  A manifest is read back exactly when every entry can be written as a line: the peer
  parses the same list of entries, in the same order, if and only if no path, writer or node id
  in them contains a tab or a newline, and no node id in a clock a comma or a colon.
\<close>

lemma manifest_roundtrip_iff:
  assumes "NL \<notin> set (se_node_id e)"
  shows "parse_manifest (serialize_manifest e) = Inr (all_entries (se_store e)) \<longleftrightarrow>
    (\<forall>en \<in> set (all_entries (se_store e)). line_safe en)"
proof
  assume "parse_manifest (serialize_manifest e) = Inr (all_entries (se_store e))"
  then show "\<forall>en \<in> set (all_entries (se_store e)). line_safe en"
    unfolding manifest_parse [OF assms] using lines_read_safe by blast
qed (rule manifest_read [OF assms])

lemma hash_list_roundtrip: "parse_hash_list (serialize_hash_list hs) = Inr hs"
proof -
  have "getlines NL (join [NL] (map to_hex hs)) = map to_hex hs"
    by (rule getlines_join) (auto simp: to_hex_no_sep)
  moreover have "filter (\<lambda>l. l \<noteq> '''') (map to_hex hs) = map to_hex hs"
    by (simp add: filter_id_conv)
  moreover have "res_map hex_to_digest (map to_hex hs) = Inr hs"
    by (rule res_map_Inr) (rule hex_to_digest_to_hex)
  ultimately show ?thesis
    by (simp add: parse_hash_list_def serialize_hash_list_def comp_def)
qed

section \<open>Chunk data\<close>

definition received :: "Digest \<times> byte list \<Rightarrow> Chunk" where
  "received hb = \<lparr>ck_offset = 0, ck_data = snd hb, ck_hash = fst hb\<rparr>"

lemma encode_chunk_parts:
  assumes "length b < 2 ^ 32"
  shows "\<not> length (encode_chunk h b @ rest) < 36"
    and "digest_of (take 32 (encode_chunk h b @ rest)) = h"
    and "unat (be32_word ((encode_chunk h b @ rest) ! 32) ((encode_chunk h b @ rest) ! 33)
       ((encode_chunk h b @ rest) ! 34) ((encode_chunk h b @ rest) ! 35)) = length b"
    and "drop 36 (encode_chunk h b @ rest) = b @ rest"
proof -
  let ?len = "of_nat (length b) :: u32"
  have nth: "(encode_chunk h b @ rest) ! (32 + i) = be32_bytes ?len ! i" if "i < 4" for i
    using that by (simp add: encode_chunk_def nth_append length_digest_bytes)
  have "be32_word ((encode_chunk h b @ rest) ! 32) ((encode_chunk h b @ rest) ! 33)
      ((encode_chunk h b @ rest) ! 34) ((encode_chunk h b @ rest) ! 35) = ?len"
    using nth [of 0] nth [of 1] nth [of 2] nth [of 3] be32_word_bytes [of ?len] by simp
  then show "unat (be32_word ((encode_chunk h b @ rest) ! 32) ((encode_chunk h b @ rest) ! 33)
       ((encode_chunk h b @ rest) ! 34) ((encode_chunk h b @ rest) ! 35)) = length b"
    using assms by (simp add: unat_of_nat)
  show "\<not> length (encode_chunk h b @ rest) < 36" "drop 36 (encode_chunk h b @ rest) = b @ rest"
    "digest_of (take 32 (encode_chunk h b @ rest)) = h"
    by (simp_all add: encode_chunk_def length_digest_bytes digest_of_bytes)
qed

lemma store_chunk_step:
  assumes "length b < 2 ^ 32"
  shows "store_chunk_data fs (encode_chunk h b @ rest) n =
    io_then (put_chunk fs (received (h, b))) (store_chunk_data fs rest (n + 1))"
  using encode_chunk_parts [OF assms, of h rest]
  by (simp add: store_chunk_data.simps [of fs "encode_chunk h b @ rest" n] Let_def received_def)

lemma store_chunk_encoded:
  assumes "\<forall>(h, b) \<in> set ps. length b < 2 ^ 32" "store_ready fs w"
  shows "\<exists>w'. store_chunk_data fs (concat (map (\<lambda>(h, b). encode_chunk h b) ps)) n w =
      (Inr (n + int (length ps)), w') \<and>
    io_for (map received ps) (put_chunk fs) w = (Inr (), w')"
  using assms
proof (induction ps arbitrary: n w)
  case Nil
  then show ?case by (simp add: store_chunk_data.simps [of fs "[]" n])
next
  case (Cons p ps)
  obtain h b where p: "p = (h, b)" by (cases p)
  have "store_ready fs (snd (put_chunk fs (received (h, b)) w))"
    using blob_put_chunk [OF Cons.prems(2)] by blast
  moreover obtain v where v: "put_chunk fs (received (h, b)) w = (Inr (), v)"
    using Cons.prems(2) put_chunk_at unfolding store_ready_def by blast
  ultimately obtain w' where "store_chunk_data fs (concat (map (\<lambda>(h, b). encode_chunk h b) ps)) (n + 1) v =
      (Inr (n + 1 + int (length ps)), w')" "io_for (map received ps) (put_chunk fs) v = (Inr (), w')"
    using Cons.IH [of v "n + 1"] Cons.prems(1) by auto
  with v Cons.prems(1) show ?case by (auto simp: p store_chunk_step)
qed

lemma build_chunk_data_blobs:
  assumes "store_ready fs w" "\<forall>h \<in> set hs. blob fs w h = Some (f h)"
  shows "build_chunk_data fs hs w = (Inr (concat (map (\<lambda>h. encode_chunk h (f h)) hs)), w)"
  using assms(2)
proof (induction hs)
  case (Cons h hs)
  then show ?case
    by (simp add: has_chunk_blob [OF assms(1)] get_chunk_blob [of fs w h "f h"])
qed simp

lemma received_pairs: "chunk_pairs (map received ps) = ps"
  by (simp add: chunk_pairs_def received_def comp_def)

lemma store_encoded_blobs:
  assumes "store_ready fs w" "\<forall>h \<in> set hs. length (f h) < 2 ^ 32"
  obtains w' where "store_chunk_data fs (concat (map (\<lambda>h. encode_chunk h (f h)) hs)) n w =
      (Inr (n + int (length hs)), w')"
    "io_for (map received (map (\<lambda>h. (h, f h)) hs)) (put_chunk fs) w = (Inr (), w')"
    "store_ready fs w'"
    "\<And>h. blob fs w' h = (if blob fs w h = None \<and> h \<in> set hs then Some (f h) else blob fs w h)"
proof -
  let ?ps = "map (\<lambda>h. (h, f h)) hs"
  have "concat (map (\<lambda>(h, b). encode_chunk h b) ?ps) = concat (map (\<lambda>h. encode_chunk h (f h)) hs)"
    by (simp add: comp_def)
  then obtain w' where w': "store_chunk_data fs (concat (map (\<lambda>h. encode_chunk h (f h)) hs)) n w =
      (Inr (n + int (length hs)), w')" "io_for (map received ?ps) (put_chunk fs) w = (Inr (), w')"
    using store_chunk_encoded [of ?ps fs w n] assms by auto
  have "(Inr (), w') = (Inr () :: unit result, blobs.put_all fs w ?ps)"
    using put_chunks_all [OF assms(1), of "map received ?ps"] unfolding received_pairs w'(2) .
  then have eq: "w' = blobs.put_all fs w ?ps" by simp
  show ?thesis
  proof (rule that [OF w'])
    show "store_ready fs w'" unfolding eq by (rule blobs.ready_put_all [OF assms(1)])
    show "blob fs w' h = (if blob fs w h = None \<and> h \<in> set hs then Some (f h) else blob fs w h)" for h
      unfolding eq blobs.look_put_all [OF assms(1)]
      by (auto simp: map_of_map_restrict restrict_map_def split: option.split)
  qed
qed

text \<open>
  Chunks travel intact: what the sender packs for a list of hashes it holds, the
  receiver unpacks and stores under the same hashes, each chunk it did not have with the
  sender's bytes, and it changes nothing it already had.
\<close>

lemma chunk_data_transfers:
  assumes "store_ready fa wa" "store_ready fb wb"
    and "\<forall>h \<in> set hs. blob fa wa h = Some (f h) \<and> length (f h) < 2 ^ 32"
  shows "\<exists>data wb'. build_chunk_data fa hs wa = (Inr data, wa) \<and>
    store_chunk_data fb data 0 wb = (Inr (int (length hs)), wb') \<and> store_ready fb wb' \<and>
    blob fb wb' = (\<lambda>h. if blob fb wb h = None \<and> h \<in> set hs then blob fa wa h else blob fb wb h)"
proof -
  have small: "\<forall>h \<in> set hs. length (f h) < 2 ^ 32" using assms(3) by blast
  have build: "build_chunk_data fa hs wa = (Inr (concat (map (\<lambda>h. encode_chunk h (f h)) hs)), wa)"
    using assms(3) by (intro build_chunk_data_blobs [OF assms(1)]) simp
  show ?thesis
  proof (rule store_encoded_blobs [OF assms(2) small, of 0])
    fix wb'
    assume run: "store_chunk_data fb (concat (map (\<lambda>h. encode_chunk h (f h)) hs)) 0 wb =
        (Inr (0 + int (length hs)), wb')" and ready: "store_ready fb wb'"
      and new: "\<And>h. blob fb wb' h = (if blob fb wb h = None \<and> h \<in> set hs then Some (f h) else blob fb wb h)"
    have "blob fb wb' = (\<lambda>h. if blob fb wb h = None \<and> h \<in> set hs then blob fa wa h else blob fb wb h)"
      using new assms(3) by (intro ext) simp
    with build run ready show ?thesis by auto
  qed
qed

lemma demo_ready: "store_ready \<lparr>fs_root = ''/data/blobstore''\<rparr> demo_world"
  using demo_store_at by (rule store_at_ready)

lemma demo_no_blobs: "blob \<lparr>fs_root = ''/data/blobstore''\<rparr> demo_world h = None"
  by (simp add: blob_at [OF demo_store_at] demo_nodes)

text \<open>
  Claim C24. Received chunks are not checked against their hash: whatever bytes a peer sends for
  a hash that is not stored yet are filed under it, and from then on the right chunk can no
  longer be stored: the forged bytes are what the hash stands for.
\<close>

theorem forged_chunk_sticks:
  assumes "store_ready fs w" "blob fs w h = None" "length forged < 2 ^ 32"
  shows "\<exists>w'. store_chunk_data fs (encode_chunk h forged) n w = (Inr (n + 1), w') \<and>
    put_chunk fs \<lparr>ck_offset = off, ck_data = genuine, ck_hash = h\<rparr> w' = (Inr (), w') \<and>
    get_chunk fs h w' = (Inr forged, w')"
proof -
  define w' where "w' = snd (put_chunk fs (received (h, forged)) w)"
  obtain B where "store_at fs w B" using assms(1) by (auto simp: store_ready_def)
  then have put: "put_chunk fs (received (h, forged)) w = (Inr (), w')"
    using put_chunk_at [of fs w B "received (h, forged)"] by (auto simp: w'_def)
  have w': "store_ready fs w'" "blob fs w' h = Some forged"
    using blob_put_chunk [OF assms(1), of "received (h, forged)" h] assms(2)
    by (simp_all add: w'_def received_def)
  have "store_chunk_data fs (encode_chunk h forged) n w = (Inr (n + 1), w')"
    using store_chunk_step [OF assms(3), of fs h "[]" n] put
    by (simp add: store_chunk_data.simps [of fs "[]"])
  moreover have "put_chunk fs \<lparr>ck_offset = off, ck_data = genuine, ck_hash = h\<rparr> w' = (Inr (), w')"
    using w' by (intro put_chunk_old) simp_all
  ultimately show ?thesis using get_chunk_blob [OF w'(2)] by blast
qed

theorem forged_chunk_sticks_witness:
  "\<exists>w'. store_chunk_data \<lparr>fs_root = ''/data/blobstore''\<rparr> (encode_chunk (hash [1]) [2]) 0 demo_world = (Inr 1, w') \<and>
     get_chunk \<lparr>fs_root = ''/data/blobstore''\<rparr> (hash [1]) w' = (Inr [2], w')"
  using forged_chunk_sticks [OF demo_ready demo_no_blobs, of "[2]" "hash [1]" 0] by auto

text \<open>
  Claim C25. The length of a chunk is trusted: a payload whose last chunk announces more bytes
  than follow makes the receiver read past the end of the frame.
\<close>

theorem chunk_length_overread:
  assumes "length b < unat len"
  shows "store_chunk_data fs (digest_bytes h @ be32_bytes len @ b) n w = (Inl Undefined_behaviour, w)"
proof -
  let ?p = "digest_bytes h @ be32_bytes len @ b"
  have nth: "?p ! (32 + i) = be32_bytes len ! i" if "i < 4" for i
    using that by (simp add: nth_append length_digest_bytes)
  have "be32_word (?p ! 32) (?p ! 33) (?p ! 34) (?p ! 35) = len"
    using nth [of 0] nth [of 1] nth [of 2] nth [of 3] be32_word_bytes [of len] by simp
  moreover have "\<not> length ?p < 36" "drop 36 ?p = b" by (simp_all add: length_digest_bytes)
  ultimately show ?thesis
    using assms by (simp add: store_chunk_data.simps [of fs ?p n] Let_def)
qed

theorem chunk_length_overread_witness:
  "store_chunk_data \<lparr>fs_root = ''/data/blobstore''\<rparr> (digest_bytes (hash []) @ be32_bytes 4096 @ [1]) 0 demo_world =
     (Inl Undefined_behaviour, demo_world)"
  by (rule chunk_length_overread) simp

end
