(* ===== verification/Session_Correct.thy ===== *)
theory Session_Correct
  imports Sync_Session
begin

text \<open>
  What a whole sync session achieves: the merged store, the chunks asked for, the files written
  out, and the exchange of two peers.
\<close>

section \<open>The merge loop\<close>

abbreviation merge_start :: "SyncEngine \<Rightarrow> SyncStats \<Rightarrow> merge_state" where
  "merge_start e stats \<equiv> \<lparr>ms_engine = e, ms_stats = stats, ms_needed = om_empty, ms_paths = []\<rparr>"

lemma note_needed_keys:
  "fst ` set (items (note_needed fs w hs m)) =
     fst ` set (items m) \<union> to_hex ` {h \<in> set hs. \<not> has_chunk fs h w}"
  unfolding note_needed_def
  by (induction hs arbitrary: m) (auto simp: keys_put_item)

text \<open>What one step of the loop does, by the outcome of the merge.\<close>

lemma merge_entry_engine:
  "ms_engine (merge_entry w ms re) =
     (ms_engine ms)\<lparr>se_store := snd (merge_remote (se_store (ms_engine ms)) re)\<rparr>"
  by (simp add: merge_entry_def Let_def split: prod.split MergeOutcome.split option.split)

lemma merge_entries_engine:
  "ms_engine (foldl (merge_entry w) ms es) = (ms_engine ms)\<lparr>se_store := merge_all (se_store (ms_engine ms)) es\<rparr>"
  by (induction es arbitrary: ms) (simp_all add: merge_entry_engine merge_all_def)

definition adopted_path :: "CrdtStore \<Rightarrow> FileEntry \<Rightarrow> string option" where
  "adopted_path s re =
     (case outcome (fst (merge_remote s re)) of
        APPLIED_REMOTE \<Rightarrow> Some (fe_path re)
      | CONFLICT_FORKED \<Rightarrow> Some (conflict_path (fst (merge_remote s re)))
      | _ \<Rightarrow> None)"

lemma adopted_store:
  assumes "adopted_path s re = Some p"
  shows "store_get (snd (merge_remote s re)) p = Some (re\<lparr>fe_path := p\<rparr>)"
    and "q \<noteq> p \<Longrightarrow> map_option fe_chunk_hashes (store_get (snd (merge_remote s re)) q) =
      map_option fe_chunk_hashes (store_get s q)"
    and "q \<noteq> p \<Longrightarrow> map_option fe_deleted (store_get (snd (merge_remote s re)) q) =
      map_option fe_deleted (store_get s q)"
  using assms
  by (cases s re rule: merge_cases; auto simp: adopted_path_def merge_simps simp flip: store_get_def)+

lemma not_adopted:
  assumes "adopted_path s re = None"
  shows "snd (merge_remote s re) = s" "outcome (fst (merge_remote s re)) \<in> {KEPT_LOCAL, NO_CHANGE}"
  using assms by (cases s re rule: merge_cases; simp add: adopted_path_def merge_simps)+

lemma merge_entry_skip:
  assumes "adopted_path (se_store (ms_engine ms)) re = None"
  shows "ms_paths (merge_entry w ms re) = ms_paths ms" "ms_needed (merge_entry w ms re) = ms_needed ms"
  using not_adopted(2) [OF assms]
  by (auto simp: merge_entry_def Let_def split_beta)

lemma merge_entry_adopt:
  assumes "adopted_path (se_store (ms_engine ms)) re = Some p"
  shows "ms_paths (merge_entry w ms re) = ms_paths ms @ [p]"
    and "ms_needed (merge_entry w ms re) =
      note_needed (se_blobs (ms_engine ms)) w (fe_chunk_hashes re) (ms_needed ms)"
proof -
  let ?s = "se_store (ms_engine ms)"
  obtain r s' where rs: "merge_remote ?s re = (r, s')" by fastforce
  have "outcome r = APPLIED_REMOTE \<and> p = fe_path re \<or> outcome r = CONFLICT_FORKED \<and> p = conflict_path r"
    using assms rs by (simp add: adopted_path_def split: MergeOutcome.splits)
  moreover have "fe_chunk_hashes (the (store_get s' p)) = fe_chunk_hashes re" "store_get s' p \<noteq> None"
    using adopted_store(1) [OF assms] rs by simp_all
  ultimately show "ms_paths (merge_entry w ms re) = ms_paths ms @ [p]"
    "ms_needed (merge_entry w ms re) = note_needed (se_blobs (ms_engine ms)) w (fe_chunk_hashes re) (ms_needed ms)"
    by (auto simp: merge_entry_def Let_def rs)
qed

text \<open>
  The loop's invariant: for every path to be written out, each chunk of its current entry is on
  disk or will be asked for.
\<close>

definition covered :: "world \<Rightarrow> merge_state \<Rightarrow> bool" where
  "covered w ms \<longleftrightarrow>
     (\<forall>p \<in> set (ms_paths ms). \<forall>en. store_get (se_store (ms_engine ms)) p = Some en \<longrightarrow>
        (\<forall>h \<in> set (fe_chunk_hashes en).
           has_chunk (se_blobs (ms_engine ms)) h w \<or> to_hex h \<in> fst ` set (items (ms_needed ms))))"

lemma covered_step:
  assumes "covered w ms"
  shows "covered w (merge_entry w ms re)"
proof (cases "adopted_path (se_store (ms_engine ms)) re")
  case None
  then show ?thesis
    using assms not_adopted(1) [OF None] merge_entry_skip [OF None]
    by (simp add: covered_def merge_entry_engine)
next
  case (Some p)
  let ?s = "se_store (ms_engine ms)"
  let ?K = "fst ` set (items (note_needed (se_blobs (ms_engine ms)) w (fe_chunk_hashes re) (ms_needed ms)))"
  have "has_chunk (se_blobs (ms_engine ms)) h w \<or> to_hex h \<in> ?K"
    if q: "q \<in> set (ms_paths ms @ [p])" and en: "store_get (snd (merge_remote ?s re)) q = Some en"
      and h: "h \<in> set (fe_chunk_hashes en)" for q en h
  proof (cases "q = p")
    case True
    then have "h \<in> set (fe_chunk_hashes re)" using adopted_store(1) [OF Some] en h by auto
    then show ?thesis unfolding note_needed_keys by blast
  next
    case False
    then obtain en' where "store_get ?s q = Some en'" "fe_chunk_hashes en' = fe_chunk_hashes en"
      using adopted_store(2) [OF Some False] en by (cases "store_get ?s q") auto
    then show ?thesis
      using assms q False h unfolding covered_def note_needed_keys by fastforce
  qed
  then show ?thesis
    unfolding covered_def by (simp add: merge_entry_engine merge_entry_adopt [OF Some])
qed

lemma covered_loop: "covered w ms \<Longrightarrow> covered w (foldl (merge_entry w) ms es)"
  by (induction es arbitrary: ms) (simp_all add: covered_step)

text \<open>Only chunks of the peer's entries are asked for, and only missing ones.\<close>

definition missing :: "FileStore \<Rightarrow> world \<Rightarrow> FileEntry list \<Rightarrow> Digest set" where
  "missing fs w es = {h. \<not> has_chunk fs h w \<and> (\<exists>re \<in> set es. h \<in> set (fe_chunk_hashes re))}"

lemma needed_step:
  "fst ` set (items (ms_needed (merge_entry w ms re))) \<subseteq>
     fst ` set (items (ms_needed ms)) \<union> to_hex ` missing (se_blobs (ms_engine ms)) w [re]"
  by (cases "adopted_path (se_store (ms_engine ms)) re")
     (auto simp: merge_entry_skip merge_entry_adopt note_needed_keys missing_def)

lemma needed_loop:
  "fst ` set (items (ms_needed (foldl (merge_entry w) ms es))) \<subseteq>
     fst ` set (items (ms_needed ms)) \<union> to_hex ` missing (se_blobs (ms_engine ms)) w es"
proof (induction es arbitrary: ms)
  case (Cons re es)
  let ?fs = "se_blobs (ms_engine ms)"
  have "missing ?fs w [re] \<subseteq> missing ?fs w (re # es)" "missing ?fs w es \<subseteq> missing ?fs w (re # es)"
    by (auto simp: missing_def)
  with Cons [of "merge_entry w ms re"] needed_step [of w ms re] show ?case
    by (simp add: merge_entry_engine) blast
qed simp

text \<open>The hashes that are asked for, as the peer reads them: in the order of their hex names.\<close>

lemma request_list:
  assumes "fst ` set (items m) \<subseteq> range to_hex"
  obtains want where "map to_hex want = map fst (items m)" "distinct want"
    "res_map hex_to_digest (map fst (items m)) = Inr want"
proof -
  have "\<forall>k \<in> set (map fst (items m)). \<exists>h. k = to_hex h" using assms by auto
  then obtain want where want: "map fst (items m) = map to_hex want"
    by (metis (no_types) ex_map_conv)
  moreover have "distinct want"
    using distinct_keys [of m] unfolding want by (simp add: distinct_map)
  moreover have "res_map hex_to_digest (map to_hex want) = Inr want"
    by (rule res_map_Inr) (rule hex_to_digest_to_hex)
  ultimately show ?thesis using that by metis
qed

section \<open>Writing out the adopted files\<close>

text \<open>No path is a directory on the way to another.\<close>

definition apart :: "string list \<Rightarrow> bool" where
  "apart ps \<longleftrightarrow> (\<forall>p \<in> set ps. \<forall>q \<in> set ps. \<not> strict_prefix (split_on SLASH p) (split_on SLASH q))"

lemma join_split_on: "join [d] (split_on d s) = s"
proof (induction s)
  case (Cons c s)
  obtain p ps where ps: "split_on d s = p # ps" by (cases "split_on d s") auto
  with Cons have "join [d] (p # ps) = s" by simp
  then have "join [d] ((c # p) # ps) = c # s" by (cases ps) auto
  with ps Cons show ?case by auto
qed simp

lemma split_on_inject: "split_on d s = split_on d t \<longleftrightarrow> s = t"
  by (metis join_split_on)

lemma way_clear_wrote:
  assumes wrote: "wrote_file w w' D (n # dp) b" and clear: "way_clear w D (n # dq)"
    and apart: "\<not> strict_prefix dp dq" "\<not> strict_prefix dq dp"
  shows "way_clear w' D (n # dq)"
proof -
  have short: "strict_prefix xs (n # ys)" if "prefix xs (butlast (n # ys))" for xs ys
  proof (rule strict_prefixI)
    have "prefix (butlast (n # ys)) (n # ys)"
      by (metis append_butlast_last_id list.distinct(1) prefixI)
    with that show "prefix xs (n # ys)" by (rule prefix_order.trans)
    show "xs \<noteq> n # ys" using prefix_length_le [OF that] by (auto simp del: butlast.simps)
  qed
  have "case w_nodes w' (D @ ys) of Some (File _) \<Rightarrow> False | _ \<Rightarrow> True" if ys: "prefix ys (butlast (n # dq))" for ys
  proof (cases "w_nodes w' (D @ ys) = w_nodes w (D @ ys)")
    case True
    then show ?thesis using clear ys unfolding way_clear_def by simp
  next
    case False
    have "ys \<noteq> n # dp" using short [OF ys] apart(1) by auto
    with False wrote have "w_nodes w' (D @ ys) = Some Dir" unfolding wrote_file_def by auto
    then show ?thesis by simp
  qed
  moreover have "w_nodes w' (D @ n # dq) \<noteq> Some Dir"
  proof
    assume dir: "w_nodes w' (D @ n # dq) = Some Dir"
    then have "dq \<noteq> dp" using wrote unfolding wrote_file_def by auto
    moreover have "w_nodes w (D @ n # dq) \<noteq> Some Dir" using clear by (simp add: way_clear_def)
    ultimately obtain ys where "n # dq = ys" "prefix ys (butlast (n # dp))"
      using spec [OF conjunct2 [OF wrote [unfolded wrote_file_def]], of "D @ n # dq"] dir
      by (auto simp del: butlast.simps)
    then have "strict_prefix (n # dq) (n # dp)" using short [of "n # dq" dp] by blast
    then show False using apart(2) by simp
  qed
  ultimately show ?thesis unfolding way_clear_def by simp
qed

lemma engine_materialize_disk:
  assumes "engine_at e w D" "safe_rel p" "engine_materialize e p w = (r, w')"
  shows "w' = w\<lparr>w_nodes := w_nodes w'\<rparr>" "blob (se_blobs e) w' = blob (se_blobs e) w"
proof -
  note at = engine_materialize_at [OF assms]
  have store: "store_at (se_blobs e) w (D @ [''blobstore'', ''chunks''])"
    using assms(1) unfolding engine_at_def by blast
  have "w_nodes w' ((D @ [''blobstore'', ''chunks'']) @ [chunk_name h]) =
      w_nodes w ((D @ [''blobstore'', ''chunks'']) @ [chunk_name h])" for h
    using at by fastforce
  then show "blob (se_blobs e) w' = blob (se_blobs e) w"
    using at engine_tree_ok [of e w' D] by (intro store_at_kept(2) [OF store]) auto
  show "w' = w\<lparr>w_nodes := w_nodes w'\<rparr>"
  proof (cases "\<exists>entry. store_get (se_store e) p = Some entry \<and> has_content entry")
    case True
    then obtain entry where "store_get (se_store e) p = Some entry" "has_content entry" by blast
    then have run: "fs_materialize (se_blobs e) (se_data_dir e @ SLASH # ''files'') p
        (fe_chunk_hashes entry) w = (r, w')"
      using assms(3) engine_base [OF assms(1)] by (simp add: engine_materialize_def)
    have base: "tree_ok w" "resolve w (path_of (se_data_dir e)) = Some D" "w_nodes w D = Some Dir"
      "NUL \<notin> set (se_data_dir e)" using engine_base [OF assms(1)] by auto
    show ?thesis using materialize_below [OF base plain_names(1) assms(2) run] by blast
  next
    case False
    then have "w' = w" using assms(3) by (auto simp: engine_materialize_def split: option.splits if_splits)
    then show ?thesis by simp
  qed
qed

text \<open>What the file of a path holds after it was written out.\<close>

definition holds_file :: "SyncEngine \<Rightarrow> (Digest \<Rightarrow> byte list) \<Rightarrow> world \<Rightarrow> string list \<Rightarrow> string \<Rightarrow> bool" where
  "holds_file e f w D p \<longleftrightarrow>
     (case store_get (se_store e) p of
        None \<Rightarrow> True
      | Some en \<Rightarrow> has_content en \<longrightarrow>
          w_nodes w (D @ ''files'' # split_on SLASH p) = Some (File (concat (map f (fe_chunk_hashes en)))))"

text \<open>The chunks of an entry are on disk.\<close>

definition stocked :: "SyncEngine \<Rightarrow> (Digest \<Rightarrow> byte list) \<Rightarrow> world \<Rightarrow> string \<Rightarrow> bool" where
  "stocked e f w p \<longleftrightarrow>
     (case store_get (se_store e) p of
        None \<Rightarrow> True
      | Some en \<Rightarrow> \<forall>h \<in> set (fe_chunk_hashes en). blob (se_blobs e) w h = Some (f h))"

lemma materialize_one:
  assumes "engine_at e w D" "safe_rel p" "way_clear w D (''files'' # split_on SLASH p)" "stocked e f w p"
  shows "\<exists>w'. engine_materialize e p w = (Inr (), w') \<and> engine_at e w' D \<and> holds_file e f w' D p \<and>
    (w' = w \<or> (\<exists>b. wrote_file w w' D (''files'' # split_on SLASH p) b))"
proof (cases "\<exists>en. store_get (se_store e) p = Some en \<and> has_content en")
  case True
  then obtain en where en: "store_get (se_store e) p = Some en" "has_content en" by blast
  with assms(4) have "\<forall>h \<in> set (fe_chunk_hashes en). blob (se_blobs e) w h = Some (f h)"
    by (simp add: stocked_def)
  from engine_materialize_writes [OF assms(1,2) en assms(3) this] obtain w' where
    w': "engine_materialize e p w = (Inr (), w')"
      "wrote_file w w' D (''files'' # split_on SLASH p) (concat (map f (fe_chunk_hashes en)))" by blast
  then have "holds_file e f w' D p" using en by (simp add: holds_file_def wrote_file_def)
  with w' engine_materialize_at [OF assms(1,2) w'(1)] show ?thesis by blast
next
  case False
  then have "engine_materialize e p w = (Inr (), w)" "holds_file e f w D p"
    by (auto simp: engine_materialize_def holds_file_def split: option.splits)
  with assms(1) show ?thesis by blast
qed

lemma holds_file_kept:
  assumes "holds_file e f w D p"
    and "w_nodes w' (D @ ''files'' # split_on SLASH p) = w_nodes w (D @ ''files'' # split_on SLASH p)"
  shows "holds_file e f w' D p"
  using assms unfolding holds_file_def by (simp split: option.splits)

lemma materialize_all:
  assumes "engine_at e w D" "apart ps" "\<forall>p \<in> set ps. safe_rel p \<and> stocked e f w p"
    and "\<forall>p \<in> set ps. way_clear w D (''files'' # split_on SLASH p)"
  shows "\<exists>w'. io_for ps (engine_materialize e) w = (Inr (), w') \<and> engine_at e w' D \<and>
    w' = w\<lparr>w_nodes := w_nodes w'\<rparr> \<and> (\<forall>p \<in> set ps. holds_file e f w' D p) \<and>
    (\<forall>x. w_nodes w x \<noteq> None \<longrightarrow> x \<notin> (\<lambda>p. D @ ''files'' # split_on SLASH p) ` set ps \<longrightarrow>
       w_nodes w' x = w_nodes w x)"
  using assms
proof (induction ps arbitrary: w)
  case (Cons p ps)
  from Cons.prems materialize_one [of e w D p f] obtain v where
    v: "engine_materialize e p w = (Inr (), v)" "engine_at e v D" "holds_file e f v D p"
      "v = w \<or> (\<exists>b. wrote_file w v D (''files'' # split_on SLASH p) b)" by auto
  have safe: "safe_rel p" using Cons.prems(3) by simp
  note disk = engine_materialize_disk [OF Cons.prems(1) safe v(1)]
  have "way_clear v D (''files'' # split_on SLASH q)" if "q \<in> set ps" for q
    using v(4) Cons.prems(2,4) that way_clear_wrote
    unfolding apart_def by (metis list.set_intros(1,2))
  moreover have "stocked e f v q" if "q \<in> set ps" for q
    using Cons.prems(3) that unfolding stocked_def disk(2) by simp
  moreover have "apart ps" using Cons.prems(2) by (simp add: apart_def)
  ultimately obtain w' where
    w': "io_for ps (engine_materialize e) v = (Inr (), w')" "engine_at e w' D"
      "w' = v\<lparr>w_nodes := w_nodes w'\<rparr>" "\<forall>p \<in> set ps. holds_file e f w' D p"
      "\<forall>x. w_nodes v x \<noteq> None \<longrightarrow> x \<notin> (\<lambda>p. D @ ''files'' # split_on SLASH p) ` set ps \<longrightarrow>
         w_nodes w' x = w_nodes v x"
    using Cons.IH [OF v(2)] Cons.prems(3) by fastforce
  have keep: "w_nodes v x = w_nodes w x"
    if "w_nodes w x \<noteq> None" "x \<noteq> D @ ''files'' # split_on SLASH p" for x
    using v(4) that unfolding wrote_file_def by metis
  have "holds_file e f w' D p"
  proof (cases "p \<in> set ps \<or> w_nodes v (D @ ''files'' # split_on SLASH p) = None")
    case True
    then show ?thesis
      using w'(4) v(3) by (auto simp: holds_file_def split: option.splits)
  next
    case False
    then have "D @ ''files'' # split_on SLASH p \<notin> (\<lambda>p. D @ ''files'' # split_on SLASH p) ` set ps"
      by (auto simp: split_on_inject)
    then show ?thesis using w'(5) False by (intro holds_file_kept [OF v(3)]) blast
  qed
  moreover have "w' = w\<lparr>w_nodes := w_nodes w'\<rparr>" using nodes_only_trans [OF disk(1) w'(3)] .
  moreover have "w_nodes w' x = w_nodes w x"
    if "w_nodes w x \<noteq> None" "x \<notin> (\<lambda>p. D @ ''files'' # split_on SLASH p) ` set (p # ps)" for x
    using keep [of x] that w'(5) by auto
  ultimately show ?case using v(1) w'(1,2,4) by auto
qed simp

section \<open>The phases\<close>

text \<open>A phase that only talks to the peer: what it sent, and what is left to read.\<close>

definition talked :: "world \<Rightarrow> world \<Rightarrow> byte list \<Rightarrow> byte list \<Rightarrow> bool" where
  "talked w w' bytes rest \<longleftrightarrow>
     reliable w' \<and> same_but_net w w' \<and> w_sent w' = w_sent w @ bytes \<and> w_incoming w' = rest"

lemma talked_disk: "talked w w' bytes rest \<Longrightarrow> w_nodes w' = w_nodes w \<and> w_cwd w' = w_cwd w"
  by (simp add: talked_def same_but_net_iff)

lemma talked_trans:
  "talked u v a r \<Longrightarrow> talked v w b s \<Longrightarrow> talked u w (a @ b) s"
  by (simp add: talked_def same_but_net_iff)

definition chunk_data :: "(Digest \<Rightarrow> byte list) \<Rightarrow> Digest list \<Rightarrow> byte list" where
  "chunk_data g hs = concat (map (\<lambda>h. encode_chunk h (g h)) hs)"

lemma send_talk: "reliable w \<Longrightarrow> \<exists>w'. send_frame t p w = (Inr (), w') \<and> talked w w' (frame t p) (w_incoming w)"
  using send_frame_reliable [of w t p] unfolding talked_def by metis

lemma recv_talk:
  "reliable w \<Longrightarrow> w_incoming w = frame t p @ rest \<Longrightarrow> length p < 2 ^ 32 \<Longrightarrow>
   \<exists>w'. recv_frame w = (Inr (Some (t, p)), w') \<and> talked w w' [] rest"
  using recv_frame_reliable [of w t p rest] unfolding talked_def by (metis append_Nil2)

lemma expect_talk:
  assumes "reliable w" "w_incoming w = frame t p @ rest" "length p < 2 ^ 32"
  shows "\<exists>w'. expect_frame t name w = (Inr p, w') \<and> talked w w' [] rest"
  using recv_talk [OF assms] by (auto simp: expect_frame_def)

lemma exchange_talk:
  assumes "reliable w" "w_incoming w = frame FRAME_MANIFEST (serialize_manifest f) @ rest"
    and "length (serialize_manifest f) < 2 ^ 32"
    and "parse_manifest (serialize_manifest f) = Inr es"
  shows "\<exists>w'. exchange_manifests e w = (Inr es, w') \<and>
    talked w w' (frame FRAME_MANIFEST (serialize_manifest e)) rest"
proof -
  obtain v where v: "send_frame FRAME_MANIFEST (serialize_manifest e) w = (Inr (), v)"
    "talked w v (frame FRAME_MANIFEST (serialize_manifest e)) (w_incoming w)"
    using send_talk [OF assms(1)] by blast
  then have "reliable v" "w_incoming v = frame FRAME_MANIFEST (serialize_manifest f) @ rest"
    using assms(2) by (simp_all add: talked_def)
  then obtain w' where w': "expect_frame FRAME_MANIFEST ''MANIFEST'' v = (Inr (serialize_manifest f), w')"
    "talked v w' [] rest"
    using expect_talk assms(3) by blast
  from v(1) w'(1) assms(4) have "exchange_manifests e w = (Inr es, w')"
    by (simp add: exchange_manifests_def)
  with talked_trans [OF v(2) w'(2)] show ?thesis by simp
qed

lemma request_talk:
  assumes "reliable w" "map to_hex want = map fst (items m)"
  shows "\<exists>w'. request_chunks m w = (Inr (), w') \<and>
    talked w w' (frame FRAME_CHUNK_REQUEST (serialize_hash_list want)) (w_incoming w)"
proof -
  have "res_map hex_to_digest (map fst (items m)) = Inr want"
    unfolding assms(2) [symmetric] by (rule res_map_Inr) (rule hex_to_digest_to_hex)
  then show ?thesis
    using send_talk [OF assms(1)] by (simp add: request_chunks_def)
qed

lemma answer_talk:
  assumes "reliable w" "w_incoming w = frame FRAME_CHUNK_REQUEST (serialize_hash_list theirs) @ rest"
    and "length (serialize_hash_list theirs) < 2 ^ 32" "store_ready (se_blobs e) w"
    and "\<forall>h \<in> set theirs. blob (se_blobs e) w h = Some (b h)"
  shows "\<exists>w'. answer_request e w = (Inr (), w') \<and>
    talked w w' (frame FRAME_CHUNK_DATA (chunk_data b theirs)) rest"
proof -
  obtain v where v: "expect_frame FRAME_CHUNK_REQUEST ''CHUNK_REQUEST'' w = (Inr (serialize_hash_list theirs), v)"
    "talked w v [] rest"
    using expect_talk [OF assms(1-3)] by blast
  note disk = talked_disk [OF v(2)]
  have "build_chunk_data (se_blobs e) theirs v = (Inr (chunk_data b theirs), v)"
    unfolding chunk_data_def using assms(4,5) disk_cong [of v w] disk
    by (intro build_chunk_data_blobs) auto
  moreover obtain w' where "send_frame FRAME_CHUNK_DATA (chunk_data b theirs) v = (Inr (), w')"
    and w': "talked v w' (frame FRAME_CHUNK_DATA (chunk_data b theirs)) (w_incoming v)"
    using send_talk v(2) unfolding talked_def by blast
  ultimately have "answer_request e w = (Inr (), w')"
    using v(1) by (simp add: answer_request_def hash_list_roundtrip)
  with talked_trans [OF v(2) w'] v(2) show ?thesis by (auto simp: talked_def)
qed

text \<open>The chunk under a hash once the answer has arrived: the local one, or the peer's.\<close>

definition chunk_after :: "SyncEngine \<Rightarrow> world \<Rightarrow> (Digest \<Rightarrow> byte list) \<Rightarrow> Digest \<Rightarrow> byte list" where
  "chunk_after e w g h = (case blob (se_blobs e) w h of None \<Rightarrow> g h | Some b \<Rightarrow> b)"

lemma nodes_only_net:
  "v = w\<lparr>w_nodes := w_nodes v\<rparr> \<Longrightarrow> w_incoming v = w_incoming w \<and> w_sent v = w_sent w \<and> (reliable v \<longleftrightarrow> reliable w)"
  by (cases v, cases w) (simp add: reliable_def)

lemma fetch_run:
  assumes "engine_at e w D" "reliable w"
    and "w_incoming w = frame FRAME_CHUNK_DATA (chunk_data g want) @ rest"
    and "length (chunk_data g want) < 2 ^ 32" "\<forall>h \<in> set want. length (g h) < 2 ^ 32"
  shows "\<exists>w'. fetch_chunks e stats w =
      (Inr (stats\<lparr>chunks_fetched := chunks_fetched stats + int (length want)\<rparr>), w') \<and>
    engine_at e w' D \<and> reliable w' \<and> w_incoming w' = rest \<and> w_sent w' = w_sent w \<and>
    (\<forall>h. h \<in> set want \<or> blob (se_blobs e) w h \<noteq> None \<longrightarrow>
       blob (se_blobs e) w' h = Some (chunk_after e w g h)) \<and>
    (\<forall>y ys. y \<noteq> ''blobstore'' \<longrightarrow> w_nodes w' (D @ y # ys) = w_nodes w (D @ y # ys))"
proof -
  obtain v where v: "expect_frame FRAME_CHUNK_DATA ''CHUNK_DATA'' w = (Inr (chunk_data g want), v)"
    "talked w v [] rest"
    using expect_talk [OF assms(2-4)] by blast
  have disk: "w_nodes v = w_nodes w" "w_cwd v = w_cwd w" using talked_disk [OF v(2)] by auto
  have at: "engine_at e v D" using assms(1) by (simp add: engine_at_cong [OF disk])
  then have ready: "store_ready (se_blobs e) v" unfolding engine_at_def using store_at_ready by blast
  let ?cs = "map received (map (\<lambda>h. (h, g h)) want)"
  show ?thesis
  proof (rule store_encoded_blobs [OF ready assms(5), of "chunks_fetched stats"])
    fix w'
    assume run: "store_chunk_data (se_blobs e) (concat (map (\<lambda>h. encode_chunk h (g h)) want))
        (chunks_fetched stats) v = (Inr (chunks_fetched stats + int (length want)), w')"
      and put: "io_for ?cs (put_chunk (se_blobs e)) v = (Inr (), w')"
      and new: "\<And>h. blob (se_blobs e) w' h =
        (if blob (se_blobs e) v h = None \<and> h \<in> set want then Some (g h) else blob (se_blobs e) v h)"
    from engine_put_chunks [OF at, of ?cs] put have w': "engine_at e w' D" "w' = v\<lparr>w_nodes := w_nodes w'\<rparr>"
      "\<forall>q. w_nodes w' q \<noteq> w_nodes v q \<longrightarrow> (\<exists>h. q = D @ [''blobstore'', ''chunks'', chunk_name h])"
      by auto
    have net: "reliable w'" "w_incoming w' = rest" "w_sent w' = w_sent w"
      using v(2) nodes_only_net [OF w'(2)] by (simp_all add: talked_def)
    have "w_nodes w' (D @ y # ys) = w_nodes w (D @ y # ys)" if "y \<noteq> ''blobstore''" for y ys
      using spec [OF w'(3), of "D @ y # ys"] that disk(1) by auto
    moreover have "blob (se_blobs e) w' h = Some (chunk_after e w g h)"
      if "h \<in> set want \<or> blob (se_blobs e) w h \<noteq> None" for h
      using new [of h] that by (auto simp: chunk_after_def disk_cong(1) [OF disk])
    moreover have "fetch_chunks e stats w =
        (Inr (stats\<lparr>chunks_fetched := chunks_fetched stats + int (length want)\<rparr>), w')"
      using v(1) run by (simp add: fetch_chunks_def chunk_data_def)
    ultimately show ?thesis using w'(1) net by blast
  qed
qed

lemma finish_run:
  assumes "engine_at e w D" "reliable w" "w_incoming w = frame FRAME_DONE [] @ rest"
    and "apart ps" "\<forall>p \<in> set ps. safe_rel p \<and> stocked e f w p"
    and "\<forall>p \<in> set ps. way_clear w D (''files'' # split_on SLASH p)"
  shows "\<exists>w'. finish_session e ps w = (Inr (), w') \<and> engine_at e w' D \<and>
    w_sent w' = w_sent w @ frame FRAME_DONE [] \<and> (\<forall>p \<in> set ps. holds_file e f w' D p) \<and>
    w_nodes w' (D @ [''store.meta'']) = Some (File (bytes_of_text (journal_text (se_store e))))"
proof -
  from materialize_all [OF assms(1,4,5,6)] obtain v where
    v: "io_for ps (engine_materialize e) w = (Inr (), v)" "engine_at e v D"
      "v = w\<lparr>w_nodes := w_nodes v\<rparr>" "\<forall>p \<in> set ps. holds_file e f v D p" by blast
  define u where "u = v\<lparr>w_nodes := (w_nodes v)(D @ [''store.meta''] \<mapsto> File (bytes_of_text (journal_text (se_store e))))\<rparr>"
  have u: "save_journal e v = (Inr (), u)" unfolding u_def by (rule save_journal_run [OF v(2)])
  have "engine_at e u D" using save_journal_at [OF v(2) u] by blast
  have "reliable u" "w_incoming u = frame FRAME_DONE [] @ rest" "w_sent u = w_sent w"
    unfolding u_def using assms(2,3) nodes_only_net [OF v(3)] by (simp_all add: reliable_def)
  then obtain t where t: "send_frame FRAME_DONE [] u = (Inr (), t)" "talked u t (frame FRAME_DONE []) (frame FRAME_DONE [] @ rest)"
    using send_talk [of u FRAME_DONE "[]"] by auto
  then obtain w' where w': "recv_frame t = (Inr (Some (FRAME_DONE, [])), w')" "talked t w' [] rest"
    using recv_talk [of t FRAME_DONE "[]" rest] by (auto simp: talked_def)
  have disk: "w_nodes w' = w_nodes u" "w_cwd w' = w_cwd u"
    using talked_disk [OF t(2)] talked_disk [OF w'(2)] by auto
  have "finish_session e ps w = (Inr (), w')"
    using v(1) u t(1) w'(1) by (simp add: finish_session_def)
  moreover have "w_sent w' = w_sent w @ frame FRAME_DONE []"
    using t(2) w'(2) \<open>w_sent u = w_sent w\<close> by (simp add: talked_def)
  moreover have "engine_at e w' D" using \<open>engine_at e u D\<close> engine_at_cong [OF disk] by blast
  moreover have "holds_file e f w' D p" if "p \<in> set ps" for p
  proof (rule holds_file_kept [OF bspec [OF v(4) that]])
    have "D @ ''files'' # split_on SLASH p \<noteq> D @ [''store.meta'']" by simp
    then show "w_nodes w' (D @ ''files'' # split_on SLASH p) = w_nodes v (D @ ''files'' # split_on SLASH p)"
      unfolding disk u_def by simp
  qed
  moreover have "w_nodes w' (D @ [''store.meta'']) = Some (File (bytes_of_text (journal_text (se_store e))))"
    by (simp add: disk u_def)
  ultimately show ?thesis by blast
qed

section \<open>A whole session\<close>

lemma merge_all_wf: "store_wf s \<Longrightarrow> store_wf (merge_all s es)"
  unfolding merge_all_def by (induction es arbitrary: s) (simp_all add: merge_remote_wf)

lemma merge_all_node [simp]: "cs_node_id (merge_all s es) = cs_node_id s"
  unfolding merge_all_def by (induction es arbitrary: s) simp_all

lemma merge_entry_cong:
  assumes "w_nodes w' = w_nodes w" "w_cwd w' = w_cwd w"
  shows "merge_entry w' = merge_entry w"
  unfolding merge_entry_def [abs_def] note_needed_def disk_cong(4) [OF assms] ..

text \<open>What the merge loop computes from the peer's entries.\<close>

definition session_plan :: "SyncEngine \<Rightarrow> world \<Rightarrow> FileEntry list \<Rightarrow> merge_state" where
  "session_plan e w es =
     foldl (merge_entry w)
       (merge_start e (new_stats\<lparr>entries_sent := to_int (length (all_entries (se_store e)))\<rparr>)) es"

text \<open>The adopted files can be written: ordinary paths, none in the way of another or of the disk.\<close>

definition can_write :: "world \<Rightarrow> string list \<Rightarrow> string list \<Rightarrow> bool" where
  "can_write w D ps \<longleftrightarrow> apart ps \<and> (\<forall>p \<in> set ps. safe_rel p \<and> way_clear w D (''files'' # split_on SLASH p))"

lemma plan_engine: "ms_engine (session_plan e w es) = e\<lparr>se_store := merge_all (se_store e) es\<rparr>"
  by (simp add: session_plan_def merge_entries_engine)

lemma plan_covered: "covered w (session_plan e w es)"
  unfolding session_plan_def by (rule covered_loop) (simp add: covered_def)

lemma plan_needed:
  "fst ` set (items (ms_needed (session_plan e w es))) \<subseteq> to_hex ` missing (se_blobs e) w es"
  unfolding session_plan_def using needed_loop [of w "merge_start e _" es] by simp

lemma plan_engine_at: "engine_at e w D \<Longrightarrow> engine_at (ms_engine (session_plan e w es)) w D"
  unfolding plan_engine by (rule engine_at_store) (simp_all add: engine_at_def merge_all_wf)

lemma plan_stocked:
  assumes "store_ready (se_blobs e) w" "map to_hex want = map fst (items (ms_needed (session_plan e w es)))"
    and "p \<in> set (ms_paths (session_plan e w es))"
    and "\<And>h. h \<in> set want \<or> blob (se_blobs e) w h \<noteq> None \<Longrightarrow> blob (se_blobs e) v h = Some (c h)"
  shows "stocked (ms_engine (session_plan e w es)) c v p"
proof -
  have keys: "fst ` set (items (ms_needed (session_plan e w es))) = to_hex ` set want"
    using arg_cong [OF assms(2), of set] by simp
  have "h \<in> set want \<or> blob (se_blobs e) w h \<noteq> None"
    if "store_get (se_store (ms_engine (session_plan e w es))) p = Some en" "h \<in> set (fe_chunk_hashes en)" for en h
    using plan_covered [of w e es] assms(3) that
    unfolding covered_def keys by (fastforce simp: plan_engine has_chunk_blob [OF assms(1)])
  then show ?thesis
    using assms(4) unfolding stocked_def by (simp add: plan_engine split: option.split)
qed

text \<open>Phases 1 to 4: everything up to the answer to the peer's request.\<close>

lemma session_dialogue:
  assumes "reliable w" "parse_manifest (serialize_manifest f) = Inr es" "store_ready (se_blobs e) w"
    and plan: "ms = session_plan e w es" "map to_hex want = map fst (items (ms_needed ms))"
    and incoming: "w_incoming w = frame FRAME_MANIFEST (serialize_manifest f) @
        frame FRAME_CHUNK_REQUEST (serialize_hash_list theirs) @ rest"
    and theirs: "\<forall>h \<in> set theirs. blob (se_blobs e) w h = Some (b h)"
    and sizes: "length (serialize_manifest f) < 2 ^ 32" "length (serialize_hash_list theirs) < 2 ^ 32"
  shows "\<exists>v. run_sync_session e w =
      io_bind (fetch_chunks (ms_engine ms) (ms_stats ms)) (\<lambda>stats.
        io_then (finish_session (ms_engine ms) (ms_paths ms)) (io_return (stats, ms_engine ms))) v \<and>
    talked w v (frame FRAME_MANIFEST (serialize_manifest e) @
      frame FRAME_CHUNK_REQUEST (serialize_hash_list want) @ frame FRAME_CHUNK_DATA (chunk_data b theirs)) rest"
proof -
  let ?e = "ms_engine ms"
  have same: "se_blobs ?e = se_blobs e" by (simp add: plan(1) plan_engine)
  obtain w1 where w1: "exchange_manifests e w = (Inr es, w1)"
    "talked w w1 (frame FRAME_MANIFEST (serialize_manifest e))
       (frame FRAME_CHUNK_REQUEST (serialize_hash_list theirs) @ rest)"
    using exchange_talk [OF assms(1) incoming sizes(1) assms(2)] by blast
  have disk1: "w_nodes w1 = w_nodes w" "w_cwd w1 = w_cwd w" using talked_disk [OF w1(2)] by auto
  have merged: "merge_entries e (new_stats\<lparr>entries_sent := to_int (length (all_entries (se_store e)))\<rparr>) es w1 =
      (Inr ms, w1)"
    by (simp add: merge_entries_def plan(1) session_plan_def merge_entry_cong [OF disk1])
  obtain w2 where w2: "request_chunks (ms_needed ms) w1 = (Inr (), w2)"
    "talked w1 w2 (frame FRAME_CHUNK_REQUEST (serialize_hash_list want)) (w_incoming w1)"
    using request_talk [OF _ plan(2)] w1(2) unfolding talked_def by blast
  note t2 = talked_trans [OF w1(2) w2(2)]
  have disk2: "w_nodes w2 = w_nodes w" "w_cwd w2 = w_cwd w" using talked_disk [OF t2] by auto
  have "reliable w2" "w_incoming w2 = frame FRAME_CHUNK_REQUEST (serialize_hash_list theirs) @ rest"
    using t2 w1(2) by (simp_all add: talked_def)
  moreover have "store_ready (se_blobs ?e) w2" "\<forall>h \<in> set theirs. blob (se_blobs ?e) w2 h = Some (b h)"
    using assms(3) theirs disk_cong [OF disk2] by (simp_all add: same)
  ultimately obtain w3 where w3: "answer_request ?e w2 = (Inr (), w3)"
    "talked w2 w3 (frame FRAME_CHUNK_DATA (chunk_data b theirs)) rest"
    using answer_talk [OF _ _ sizes(2)] by blast
  have "run_sync_session e w = io_bind (fetch_chunks ?e (ms_stats ms)) (\<lambda>stats.
        io_then (finish_session ?e (ms_paths ms)) (io_return (stats, ?e))) w3"
    using w1(1) merged w2(1) w3(1) by (simp add: run_sync_session_def Let_def)
  with talked_trans [OF t2 w3(2)] show ?thesis by auto
qed

lemma can_write_kept:
  assumes "can_write w D ps" "engine_at e w D" "engine_at e' w' D"
    and "\<And>ys. w_nodes w' (D @ ''files'' # ys) = w_nodes w (D @ ''files'' # ys)"
  shows "can_write w' D ps"
proof -
  have "w_nodes w D = Some Dir" "w_nodes w' D = Some Dir"
    using assms(2,3) by (simp_all add: engine_at_def)
  then show ?thesis
    using assms(1) way_clear_kept [OF _ _ _ assms(4)] unfolding can_write_def by blast
qed

lemma session_run:
  assumes "engine_at e w D" "reliable w" "parse_manifest (serialize_manifest f) = Inr es"
    and plan: "ms = session_plan e w es" "map to_hex want = map fst (items (ms_needed ms))" "can_write w D (ms_paths ms)"
    and incoming: "w_incoming w = frame FRAME_MANIFEST (serialize_manifest f) @
        frame FRAME_CHUNK_REQUEST (serialize_hash_list theirs) @
        frame FRAME_CHUNK_DATA (chunk_data g want) @ frame FRAME_DONE [] @ rest"
    and theirs: "\<forall>h \<in> set theirs. blob (se_blobs e) w h = Some (b h)"
    and sizes: "length (serialize_manifest f) < 2 ^ 32" "length (serialize_hash_list theirs) < 2 ^ 32"
      "length (chunk_data g want) < 2 ^ 32" "\<forall>h \<in> set want. length (g h) < 2 ^ 32"
  shows "\<exists>stats w'. run_sync_session e w = (Inr (stats, ms_engine ms), w') \<and>
    w_sent w' = w_sent w @ frame FRAME_MANIFEST (serialize_manifest e) @
      frame FRAME_CHUNK_REQUEST (serialize_hash_list want) @
      frame FRAME_CHUNK_DATA (chunk_data b theirs) @ frame FRAME_DONE [] \<and>
    engine_at (ms_engine ms) w' D \<and>
    (\<forall>p \<in> set (ms_paths ms). holds_file (ms_engine ms) (chunk_after e w g) w' D p) \<and>
    w_nodes w' (D @ [''store.meta'']) = Some (File (bytes_of_text (journal_text (se_store (ms_engine ms)))))"
proof -
  let ?e = "ms_engine ms"
  have same: "se_blobs ?e = se_blobs e" by (simp add: plan(1) plan_engine)
  have ready: "store_ready (se_blobs e) w"
    using assms(1) store_at_ready unfolding engine_at_def by blast
  obtain v where v: "run_sync_session e w = io_bind (fetch_chunks ?e (ms_stats ms)) (\<lambda>stats.
        io_then (finish_session ?e (ms_paths ms)) (io_return (stats, ?e))) v"
    "talked w v (frame FRAME_MANIFEST (serialize_manifest e) @
      frame FRAME_CHUNK_REQUEST (serialize_hash_list want) @ frame FRAME_CHUNK_DATA (chunk_data b theirs))
      (frame FRAME_CHUNK_DATA (chunk_data g want) @ frame FRAME_DONE [] @ rest)"
    using session_dialogue [OF assms(2,3) ready plan(1,2) incoming theirs sizes(1,2)] by blast
  have disk: "w_nodes v = w_nodes w" "w_cwd v = w_cwd w" using talked_disk [OF v(2)] by auto
  have "engine_at ?e v D"
    using plan_engine_at [OF assms(1)] engine_at_cong [OF disk] by (simp add: plan(1))
  moreover have "reliable v" "w_incoming v = frame FRAME_CHUNK_DATA (chunk_data g want) @ frame FRAME_DONE [] @ rest"
    using v(2) by (simp_all add: talked_def)
  ultimately obtain u where u: "fetch_chunks ?e (ms_stats ms) v =
      (Inr ((ms_stats ms)\<lparr>chunks_fetched := chunks_fetched (ms_stats ms) + int (length want)\<rparr>), u)"
    "engine_at ?e u D" "reliable u" "w_incoming u = frame FRAME_DONE [] @ rest" "w_sent u = w_sent v"
    "\<forall>h. h \<in> set want \<or> blob (se_blobs ?e) v h \<noteq> None \<longrightarrow>
       blob (se_blobs ?e) u h = Some (chunk_after ?e v g h)"
    "\<forall>y ys. y \<noteq> ''blobstore'' \<longrightarrow> w_nodes u (D @ y # ys) = w_nodes v (D @ y # ys)"
    using fetch_run [OF _ _ _ sizes(3,4)] by blast
  have after: "chunk_after ?e v g = chunk_after e w g"
    unfolding chunk_after_def [abs_def] same disk_cong(1) [OF disk] ..
  have stock: "stocked ?e (chunk_after e w g) u p" if "p \<in> set (ms_paths ms)" for p
    using that plan(2) u(6) unfolding plan(1)
    by (intro plan_stocked [OF ready])
      (auto simp: same [unfolded plan(1)] after [unfolded plan(1)] disk_cong(1) [OF disk])
  have clear: "can_write u D (ms_paths ms)"
    using u(7) disk(1) by (intro can_write_kept [OF plan(3) assms(1) u(2)]) simp
  obtain w' where w': "finish_session ?e (ms_paths ms) u = (Inr (), w')" "engine_at ?e w' D"
    "w_sent w' = w_sent u @ frame FRAME_DONE []" "\<forall>p \<in> set (ms_paths ms). holds_file ?e (chunk_after e w g) w' D p"
    "w_nodes w' (D @ [''store.meta'']) = Some (File (bytes_of_text (journal_text (se_store ?e))))"
    using finish_run [OF u(2-4), of "ms_paths ms" "chunk_after e w g"] stock clear
    unfolding can_write_def by blast
  have "\<exists>stats. run_sync_session e w = (Inr (stats, ?e), w')"
    using v(1) u(1) w'(1) by simp
  moreover have "w_sent w' = w_sent w @ frame FRAME_MANIFEST (serialize_manifest e) @
      frame FRAME_CHUNK_REQUEST (serialize_hash_list want) @
      frame FRAME_CHUNK_DATA (chunk_data b theirs) @ frame FRAME_DONE []"
    using v(2) u(5) w'(3) by (simp add: talked_def)
  ultimately show ?thesis using w'(2,4,5) by blast
qed

section \<open>Two peers\<close>

text \<open>The hashes a peer asks for, the chunk it has under a hash, and all it says in a session.\<close>

definition wanted :: "SyncEngine \<Rightarrow> world \<Rightarrow> FileEntry list \<Rightarrow> Digest list" where
  "wanted e w es =
     (case res_map hex_to_digest (map fst (items (ms_needed (session_plan e w es)))) of
        Inl _ \<Rightarrow> [] | Inr hs \<Rightarrow> hs)"

definition stock :: "SyncEngine \<Rightarrow> world \<Rightarrow> Digest \<Rightarrow> byte list" where
  "stock e w h = (case blob (se_blobs e) w h of None \<Rightarrow> [] | Some b \<Rightarrow> b)"

abbreviation entries_of :: "SyncEngine \<Rightarrow> FileEntry list" where
  "entries_of e \<equiv> all_entries (se_store e)"

definition says :: "SyncEngine \<Rightarrow> world \<Rightarrow> SyncEngine \<Rightarrow> world \<Rightarrow> byte list" where
  "says e w f v =
     frame FRAME_MANIFEST (serialize_manifest e) @
     frame FRAME_CHUNK_REQUEST (serialize_hash_list (wanted e w (entries_of f))) @
     frame FRAME_CHUNK_DATA (chunk_data (stock e w) (wanted f v (entries_of e))) @
     frame FRAME_DONE []"

text \<open>
  A peer that can take part: its invariant holds, its names fit the manifest format, it has
  every chunk of the entries it announces, and it can write what it will adopt.
\<close>

definition able :: "SyncEngine \<Rightarrow> world \<Rightarrow> string list \<Rightarrow> SyncEngine \<Rightarrow> bool" where
  "able e w D f \<longleftrightarrow> engine_at e w D \<and> reliable w \<and> NL \<notin> set (se_node_id e) \<and>
     (\<forall>en \<in> set (entries_of e). line_safe en \<and> (\<forall>h \<in> set (fe_chunk_hashes en). blob (se_blobs e) w h \<noteq> None)) \<and>
     can_write w D (ms_paths (session_plan e w (entries_of f)))"

text \<open>Every payload it sends fits a frame.\<close>

definition fits :: "SyncEngine \<Rightarrow> world \<Rightarrow> SyncEngine \<Rightarrow> world \<Rightarrow> bool" where
  "fits e w f v \<longleftrightarrow>
     length (serialize_manifest e) < 2 ^ 32 \<and>
     length (serialize_hash_list (wanted e w (entries_of f))) < 2 ^ 32 \<and>
     length (chunk_data (stock e w) (wanted f v (entries_of e))) < 2 ^ 32"

lemma wanted_keys: "map to_hex (wanted e w es) = map fst (items (ms_needed (session_plan e w es)))"
proof -
  have "fst ` set (items (ms_needed (session_plan e w es))) \<subseteq> range to_hex"
    using plan_needed [of e w es] by blast
  then obtain want where "map to_hex want = map fst (items (ms_needed (session_plan e w es)))"
    "res_map hex_to_digest (map fst (items (ms_needed (session_plan e w es)))) = Inr want"
    by (rule request_list)
  then show ?thesis by (simp add: wanted_def)
qed

lemma wanted_missing: "set (wanted e w es) \<subseteq> missing (se_blobs e) w es"
proof -
  have "to_hex ` set (wanted e w es) \<subseteq> to_hex ` missing (se_blobs e) w es"
    using plan_needed [of e w es] arg_cong [OF wanted_keys [of e w es], of set] by simp
  then show ?thesis by auto
qed

lemma able_stocked:
  assumes "able e w D f" "h \<in> set (wanted f v (entries_of e))"
  shows "blob (se_blobs e) w h = Some (stock e w h)"
proof -
  obtain en where "en \<in> set (entries_of e)" "h \<in> set (fe_chunk_hashes en)"
    using subsetD [OF wanted_missing assms(2)] by (auto simp: missing_def)
  then have "blob (se_blobs e) w h \<noteq> None" using assms(1) by (auto simp: able_def)
  then show ?thesis by (auto simp: stock_def)
qed

lemma encode_chunk_fits:
  assumes "length (chunk_data g hs) < 2 ^ 32" "h \<in> set hs"
  shows "length (g h) < 2 ^ 32"
proof -
  have "length (encode_chunk h (g h)) \<le> length (chunk_data g hs)"
    using assms(2) by (induction hs) (auto simp: chunk_data_def)
  with assms(1) show ?thesis by (simp add: encode_chunk_def)
qed

lemma able_manifest: "able e w D f \<Longrightarrow> parse_manifest (serialize_manifest e) = Inr (entries_of e)"
  by (rule manifest_read) (auto simp: able_def)

text \<open>One side of the exchange, given what the other side says.\<close>

lemma peer_session:
  assumes e: "able e w D f" "fits e w f v" and f: "able f v E e" "fits f v e w"
    and incoming: "w_incoming w = says f v e w @ rest"
  shows "\<exists>stats w'. run_sync_session e w = (Inr (stats, e\<lparr>se_store := merge_all (se_store e) (entries_of f)\<rparr>), w') \<and>
    w_sent w' = w_sent w @ says e w f v \<and>
    engine_at (e\<lparr>se_store := merge_all (se_store e) (entries_of f)\<rparr>) w' D \<and>
    (\<forall>p \<in> set (ms_paths (session_plan e w (entries_of f))).
       holds_file (e\<lparr>se_store := merge_all (se_store e) (entries_of f)\<rparr>) (chunk_after e w (stock f v)) w' D p) \<and>
    w_nodes w' (D @ [''store.meta'']) =
      Some (File (bytes_of_text (journal_text (merge_all (se_store e) (entries_of f)))))"
proof -
  have ab: "engine_at e w D" "reliable w" "can_write w D (ms_paths (session_plan e w (entries_of f)))"
    using e(1) by (simp_all add: able_def)
  have sizes: "length (serialize_manifest f) < 2 ^ 32"
    "length (serialize_hash_list (wanted f v (entries_of e))) < 2 ^ 32"
    "length (chunk_data (stock f v) (wanted e w (entries_of f))) < 2 ^ 32"
    using f(2) by (simp_all add: fits_def)
  have small: "\<forall>h \<in> set (wanted e w (entries_of f)). length (stock f v h) < 2 ^ 32"
    using encode_chunk_fits [OF sizes(3)] by blast
  have theirs: "\<forall>h \<in> set (wanted f v (entries_of e)). blob (se_blobs e) w h = Some (stock e w h)"
    using able_stocked [OF e(1)] by blast
  have inc: "w_incoming w = frame FRAME_MANIFEST (serialize_manifest f) @
      frame FRAME_CHUNK_REQUEST (serialize_hash_list (wanted f v (entries_of e))) @
      frame FRAME_CHUNK_DATA (chunk_data (stock f v) (wanted e w (entries_of f))) @ frame FRAME_DONE [] @ rest"
    using incoming by (simp add: says_def)
  show ?thesis
    using session_run [OF ab(1,2) able_manifest [OF f(1)] refl wanted_keys ab(3) inc theirs sizes small]
    unfolding plan_engine says_def by simp
qed

text \<open>A path that is written out holds a version the peer announced.\<close>

definition from_peer :: "FileEntry set \<Rightarrow> merge_state \<Rightarrow> bool" where
  "from_peer R ms \<longleftrightarrow>
     (\<forall>p \<in> set (ms_paths ms). \<exists>en. store_get (se_store (ms_engine ms)) p = Some en \<and>
        (\<exists>re \<in> R. fe_chunk_hashes en = fe_chunk_hashes re \<and> fe_deleted en = fe_deleted re))"

lemma from_peer_step:
  assumes "from_peer R ms" "re \<in> R"
  shows "from_peer R (merge_entry w ms re)"
proof (cases "adopted_path (se_store (ms_engine ms)) re")
  case None
  then show ?thesis
    using assms(1) not_adopted(1) [OF None] merge_entry_skip [OF None]
    by (simp add: from_peer_def merge_entry_engine)
next
  case (Some p)
  let ?s = "se_store (ms_engine ms)"
  have "\<exists>en. store_get (snd (merge_remote ?s re)) q = Some en \<and>
      (\<exists>re \<in> R. fe_chunk_hashes en = fe_chunk_hashes re \<and> fe_deleted en = fe_deleted re)"
    if q: "q \<in> set (ms_paths ms @ [p])" for q
  proof (cases "q = p")
    case True
    then show ?thesis using adopted_store(1) [OF Some] assms(2) by auto
  next
    case False
    with q assms(1) obtain en re' where "store_get ?s q = Some en" "re' \<in> R"
      "fe_chunk_hashes en = fe_chunk_hashes re'" "fe_deleted en = fe_deleted re'"
      by (auto simp: from_peer_def)
    then show ?thesis
      using adopted_store(2,3) [OF Some False] by (cases "store_get (snd (merge_remote ?s re)) q") auto
  qed
  then show ?thesis
    unfolding from_peer_def by (simp add: merge_entry_engine merge_entry_adopt [OF Some])
qed

lemma plan_from_peer: "from_peer (set es) (session_plan e w es)"
proof -
  have "set xs \<subseteq> R \<Longrightarrow> from_peer R ms \<Longrightarrow> from_peer R (foldl (merge_entry w) ms xs)" for R xs ms
    by (induction xs arbitrary: ms) (simp_all add: from_peer_step)
  then show ?thesis
    unfolding session_plan_def by (simp add: from_peer_def)
qed

text \<open>Where both peers have a chunk, they have the same.\<close>

definition agree :: "SyncEngine \<Rightarrow> world \<Rightarrow> SyncEngine \<Rightarrow> world \<Rightarrow> bool" where
  "agree e w f v \<longleftrightarrow>
     (\<forall>h a b. blob (se_blobs e) w h = Some a \<longrightarrow> blob (se_blobs f) v h = Some b \<longrightarrow> a = b)"

text \<open>
  The session did for \<open>e\<close> what it should, with the peer \<open>f\<close>: the peer's entries are merged and
  journaled, and every adopted file with content has, under \<^verbatim>\<open>files/\<close>, the bytes that its
  chunks have at the peer.
\<close>

definition synced :: "SyncEngine \<Rightarrow> world \<Rightarrow> string list \<Rightarrow> SyncEngine \<Rightarrow> world \<Rightarrow>
    (SyncStats \<times> SyncEngine) result \<times> world \<Rightarrow> bool" where
  "synced e w D f v res \<longleftrightarrow>
     (\<exists>stats w' e'. res = (Inr (stats, e'), w') \<and>
        e' = e\<lparr>se_store := merge_all (se_store e) (entries_of f)\<rparr> \<and> engine_at e' w' D \<and>
        w_nodes w' (D @ [''store.meta'']) = Some (File (bytes_of_text (journal_text (se_store e')))) \<and>
        (\<forall>p \<in> set (ms_paths (session_plan e w (entries_of f))).
           \<exists>en. store_get (se_store e') p = Some en \<and>
             (has_content en \<longrightarrow> w_nodes w' (D @ ''files'' # split_on SLASH p) =
                Some (File (concat (map (stock f v) (fe_chunk_hashes en)))))))"

lemma peer_synced:
  assumes "able e w D f" "fits e w f v" "able f v E e" "fits f v e w" "agree e w f v"
    and "w_incoming w = says f v e w @ rest"
  shows "synced e w D f v (run_sync_session e w) \<and>
    w_sent (snd (run_sync_session e w)) = w_sent w @ says e w f v"
proof -
  define e' where "e' = e\<lparr>se_store := merge_all (se_store e) (entries_of f)\<rparr>"
  define ps where "ps = ms_paths (session_plan e w (entries_of f))"
  from peer_session [OF assms(1-4,6)] obtain stats w' where
    run: "run_sync_session e w = (Inr (stats, e'), w')" and sent: "w_sent w' = w_sent w @ says e w f v"
    and at: "engine_at e' w' D" and files: "\<forall>p \<in> set ps. holds_file e' (chunk_after e w (stock f v)) w' D p"
    and journal: "w_nodes w' (D @ [''store.meta'']) = Some (File (bytes_of_text (journal_text (se_store e'))))"
    unfolding e'_def ps_def by auto
  have "\<exists>en. store_get (se_store e') p = Some en \<and>
      (has_content en \<longrightarrow> w_nodes w' (D @ ''files'' # split_on SLASH p) =
         Some (File (concat (map (stock f v) (fe_chunk_hashes en)))))" if p: "p \<in> set ps" for p
  proof -
    obtain en re where en: "store_get (se_store e') p = Some en" "re \<in> set (entries_of f)"
      "fe_chunk_hashes en = fe_chunk_hashes re"
      using plan_from_peer [of "entries_of f" e w] p unfolding from_peer_def plan_engine e'_def ps_def by auto
    have "chunk_after e w (stock f v) h = stock f v h" if "h \<in> set (fe_chunk_hashes en)" for h
    proof -
      have "blob (se_blobs f) v h \<noteq> None" using assms(3) en(2,3) that by (auto simp: able_def)
      then show ?thesis
        using assms(5) by (auto simp: chunk_after_def stock_def agree_def split: option.split)
    qed
    then have eq: "map (chunk_after e w (stock f v)) (fe_chunk_hashes en) = map (stock f v) (fe_chunk_hashes en)"
      by simp
    have "has_content en \<longrightarrow> w_nodes w' (D @ ''files'' # split_on SLASH p) =
        Some (File (concat (map (chunk_after e w (stock f v)) (fe_chunk_hashes en))))"
      using bspec [OF files p] en(1) by (simp add: holds_file_def)
    then show ?thesis using en(1) unfolding eq by blast
  qed
  with run at journal have "synced e w D f v (run_sync_session e w)"
    unfolding synced_def ps_def e'_def by blast
  with run sent show ?thesis by simp
qed


subsection \<open>A concrete exchange\<close>

text \<open>
  Node \<^verbatim>\<open>A\<close> knows nothing yet; node \<^verbatim>\<open>B\<close> announces the file \<^verbatim>\<open>notes\<close> of one chunk.
\<close>

definition demo_digest :: Digest where
  "demo_digest = digest_of [1]"

definition demo_entry :: FileEntry where
  "demo_entry = new_entry\<lparr>fe_path := ''notes'', fe_chunk_hashes := [demo_digest],
     fe_clock := om_update ''B'' 1 om_empty, fe_last_writer := ''B'', fe_size := 1\<rparr>"

definition demo_peer :: SyncEngine where
  "demo_peer = demo_engine\<lparr>se_node_id := ''B'', se_store := load_entry (new_store ''B'') demo_entry\<rparr>"

definition demo_disk :: world where
  "demo_disk = snd (put_chunk (se_blobs demo_engine) (received (demo_digest, [7])) demo_world)"

definition demo_a :: world where
  "demo_a = demo_world\<lparr>w_incoming := says demo_peer demo_disk demo_engine demo_world\<rparr>"

definition demo_b :: world where
  "demo_b = demo_disk\<lparr>w_incoming := says demo_engine demo_world demo_peer demo_disk\<rparr>"

lemma demo_blobs: "se_blobs demo_engine = \<lparr>fs_root = ''/data/blobstore''\<rparr>" "se_blobs demo_peer = se_blobs demo_engine"
  by (simp_all add: demo_engine_def demo_peer_def)

lemma demo_disk_blob: "blob (se_blobs demo_engine) demo_disk h = (if h = demo_digest then Some [7] else None)"
proof -
  have "store_ready (se_blobs demo_engine) demo_world" using demo_ready by (simp add: demo_blobs)
  from blob_put_chunk [OF this, of "received (demo_digest, [7])" h] show ?thesis
    using demo_no_blobs by (simp add: demo_disk_def received_def demo_blobs)
qed

lemma demo_disk_at: "engine_at demo_engine demo_disk [''data'']" "w_recv_calls demo_disk = []" "w_send_calls demo_disk = []"
proof -
  obtain w' where w': "io_for [received (demo_digest, [7])] (put_chunk (se_blobs demo_engine)) demo_world = (Inr (), w')"
    "engine_at demo_engine w' [''data'']" "w' = demo_world\<lparr>w_nodes := w_nodes w'\<rparr>"
    using engine_put_chunks [OF demo_engine_at, of "[received (demo_digest, [7])]"] by blast
  obtain r v where "put_chunk (se_blobs demo_engine) (received (demo_digest, [7])) demo_world = (r, v)" by fastforce
  with w'(1) have "w' = demo_disk"
    by (cases r) (simp_all add: demo_disk_def)
  with w'(2) show "engine_at demo_engine demo_disk [''data'']" by simp
  have "w_recv_calls w' = w_recv_calls demo_world" "w_send_calls w' = w_send_calls demo_world"
    by (subst w'(3), simp)+
  with \<open>w' = demo_disk\<close> show "w_recv_calls demo_disk = []" "w_send_calls demo_disk = []"
    by (simp_all add: demo_world_def fresh_world_def)
qed

lemma says_cong:
  assumes "w_nodes w' = w_nodes w" "w_cwd w' = w_cwd w" "w_nodes v' = w_nodes v" "w_cwd v' = w_cwd v"
  shows "says e w' f v' = says e w f v" "stock e w' = stock e w" "wanted e w' = wanted e w"
    "session_plan e w' = session_plan e w"
proof -
  show plan: "session_plan e w' = session_plan e w"
    unfolding session_plan_def [abs_def] merge_entry_cong [OF assms(1,2)] ..
  then show want: "wanted e w' = wanted e w" unfolding wanted_def [abs_def] by simp
  have "session_plan f v' = session_plan f v"
    unfolding session_plan_def [abs_def] merge_entry_cong [OF assms(3,4)] ..
  then have "wanted f v' = wanted f v" unfolding wanted_def [abs_def] by simp
  moreover show "stock e w' = stock e w"
    unfolding stock_def [abs_def] disk_cong(1) [OF assms(1,2)] ..
  ultimately show "says e w' f v' = says e w f v" unfolding says_def want by simp
qed

lemma demo_disks:
  "w_nodes demo_a = w_nodes demo_world" "w_cwd demo_a = w_cwd demo_world"
  "w_nodes demo_b = w_nodes demo_disk" "w_cwd demo_b = w_cwd demo_disk"
  by (simp_all add: demo_a_def demo_b_def)

lemma demo_entries: "entries_of demo_engine = []" "entries_of demo_peer = [demo_entry]"
  by (simp_all add: demo_engine_def demo_peer_def all_entries_def new_store_def load_entry_def)

lemma demo_plan_a:
  "ms_paths (session_plan demo_engine demo_a [demo_entry]) = [''notes'']"
  "ms_needed (session_plan demo_engine demo_a [demo_entry]) = om_update (to_hex demo_digest) () om_empty"
proof -
  let ?ms = "merge_start demo_engine (new_stats\<lparr>entries_sent := to_int (length (entries_of demo_engine))\<rparr>)"
  have "adopted_path (se_store demo_engine) demo_entry = Some ''notes''"
    by (simp add: adopted_path_def merge_new store_get_def demo_engine_def new_store_def demo_entry_def)
  then have ad: "adopted_path (se_store (ms_engine ?ms)) demo_entry = Some ''notes''" by simp
  have "\<not> has_chunk (se_blobs demo_engine) demo_digest demo_a"
    using has_chunk_blob [OF demo_ready] demo_no_blobs disk_cong(4) [OF demo_disks(1,2)]
    by (simp add: demo_blobs)
  then show "ms_paths (session_plan demo_engine demo_a [demo_entry]) = [''notes'']"
    "ms_needed (session_plan demo_engine demo_a [demo_entry]) = om_update (to_hex demo_digest) () om_empty"
    unfolding session_plan_def foldl.simps merge_entry_adopt [OF ad]
    by (simp_all add: note_needed_def demo_entry_def)
qed

lemma demo_wanted: "wanted demo_engine demo_a [demo_entry] = [demo_digest]" "wanted demo_peer demo_b [] = []"
  by (simp add: wanted_def demo_plan_a hex_to_digest_to_hex) (simp add: wanted_def session_plan_def)

lemma demo_line_safe: "line_safe demo_entry"
  by (simp add: line_safe_def codec_safe_def clock_safe_def entry_names_def demo_entry_def new_entry_def)

lemma demo_able_a: "able demo_engine demo_a [''data''] demo_peer"
proof -
  have "way_clear demo_a [''data''] (''files'' # split_on SLASH ''notes'')"
    using demo_clear by (simp add: way_clear_def demo_disks(1))
  then have "can_write demo_a [''data''] [''notes'']"
    by (simp add: can_write_def apart_def safe_rel_def plain_def)
  moreover have "engine_at demo_engine demo_a [''data'']"
    using demo_engine_at engine_at_cong [OF demo_disks(1,2)] by blast
  moreover have "reliable demo_a" by (simp add: reliable_def demo_a_def demo_world_def fresh_world_def)
  moreover have "NL \<notin> set (se_node_id demo_engine)" by (simp add: demo_engine_def)
  ultimately show ?thesis unfolding able_def demo_entries demo_plan_a by simp
qed

lemma demo_able_b: "able demo_peer demo_b [''data''] demo_engine"
proof -
  have "store_wf (load_entry (new_store ''B'') demo_entry)"
    by (simp add: store_wf_def load_entry_def new_store_def)
  moreover have "engine_at demo_engine demo_b [''data'']"
    using demo_disk_at(1) engine_at_cong [OF demo_disks(3,4)] by blast
  ultimately have "engine_at demo_peer demo_b [''data'']"
    unfolding engine_at_def demo_peer_def by (simp add: load_entry_def new_store_def)
  moreover have "reliable demo_b" using demo_disk_at(2,3) by (simp add: reliable_def demo_b_def)
  moreover have "NL \<notin> set (se_node_id demo_peer)" by (simp add: demo_peer_def)
  moreover have "blob (se_blobs demo_peer) demo_b demo_digest \<noteq> None"
    using demo_disk_blob disk_cong(1) [OF demo_disks(3,4)] by (simp add: demo_blobs(2))
  moreover have "set (fe_chunk_hashes demo_entry) = {demo_digest}" by (simp add: demo_entry_def)
  moreover have "can_write demo_b [''data''] (ms_paths (session_plan demo_peer demo_b []))"
    by (simp add: session_plan_def can_write_def apart_def)
  ultimately show ?thesis unfolding able_def demo_entries using demo_line_safe by simp
qed

lemma demo_fits: "fits demo_engine demo_a demo_peer demo_b" "fits demo_peer demo_b demo_engine demo_a"
proof -
  have "length (entry_to_line demo_entry) < 1000"
    by (simp add: entry_to_line_def demo_entry_def new_entry_def clock_to_wire_def dec_digits.simps)
  then show "fits demo_engine demo_a demo_peer demo_b" "fits demo_peer demo_b demo_engine demo_a"
    unfolding fits_def demo_entries demo_wanted serialize_manifest_def
    by (simp_all add: demo_engine_def demo_peer_def serialize_hash_list_def chunk_data_def encode_chunk_def
        stock_def length_digest_bytes disk_cong(1) [OF demo_disks(3,4)]
        demo_disk_blob [unfolded demo_engine_def, simplified])
qed

lemma demo_agree: "agree demo_engine demo_a demo_peer demo_b" "agree demo_peer demo_b demo_engine demo_a"
proof -
  have "blob (se_blobs demo_engine) demo_a h = None" for h
    using demo_no_blobs disk_cong(1) [OF demo_disks(1,2)] by (simp add: demo_blobs)
  then show "agree demo_engine demo_a demo_peer demo_b" "agree demo_peer demo_b demo_engine demo_a"
    by (simp_all add: agree_def)
qed

lemma demo_says:
  "w_incoming demo_a = says demo_peer demo_b demo_engine demo_a"
  "w_incoming demo_b = says demo_engine demo_a demo_peer demo_b"
  using says_cong(1) [OF demo_disks(3,4,1,2)] says_cong(1) [OF demo_disks]
  by (simp_all add: demo_a_def demo_b_def)


section \<open>Sessions that fail\<close>

lemma recv_frame_closed: "reliable w \<Longrightarrow> w_incoming w = [] \<Longrightarrow> \<exists>w'. recv_frame w = (Inr None, w') \<and> talked w w' [] []"
  using call_moves_reliable [of "w_recv_calls w" 1]
  by (auto simp: recv_frame_def recv_all.simps [of 5] reliable_def Let_def talked_def same_but_net_iff
      io_bind_def dest: set_tlD)

text \<open>
  Claim C21. A peer that closes the connection or sends another frame first is turned away: the
  session ends with the exception about the missing manifest and leaves the disk as it was.
\<close>

theorem session_rejects:
  assumes "reliable w"
    and "w_incoming w = [] \<or> (\<exists>t payload rest. t \<noteq> FRAME_MANIFEST \<and> length payload < 2 ^ 32 \<and>
      w_incoming w = frame t payload @ rest)"
  shows "\<exists>w'. run_sync_session e w = (Inl (Runtime_error ''expected MANIFEST frame from peer''), w') \<and>
    w_nodes w' = w_nodes w"
proof -
  obtain v where v: "send_frame FRAME_MANIFEST (serialize_manifest e) w = (Inr (), v)"
    "talked w v (frame FRAME_MANIFEST (serialize_manifest e)) (w_incoming w)"
    using send_talk [OF assms(1)] by blast
  then have net: "reliable v" "w_incoming v = w_incoming w" by (simp_all add: talked_def)
  have "\<exists>w'. expect_frame FRAME_MANIFEST ''MANIFEST'' v =
      (Inl (Runtime_error ''expected MANIFEST frame from peer''), w') \<and> w_nodes w' = w_nodes v"
    using assms(2)
  proof (elim disjE exE conjE)
    assume "w_incoming w = []"
    then obtain w' where "recv_frame v = (Inr None, w')" "talked v w' [] []"
      using recv_frame_closed net by metis
    then show ?thesis using talked_disk by (auto simp: expect_frame_def)
  next
    fix t payload rest
    assume "t \<noteq> FRAME_MANIFEST" "length payload < 2 ^ 32" "w_incoming w = frame t payload @ rest"
    moreover from this obtain w' where "recv_frame v = (Inr (Some (t, payload)), w')" "talked v w' [] rest"
      using recv_talk net by metis
    ultimately show ?thesis using talked_disk by (auto simp: expect_frame_def)
  qed
  then show ?thesis
    using v(1) talked_disk [OF v(2)]
    by (auto simp: run_sync_session_def exchange_manifests_def Let_def)
qed

theorem session_rejects_witness:
  "\<exists>w'. run_sync_session demo_engine demo_world =
     (Inl (Runtime_error ''expected MANIFEST frame from peer''), w') \<and> w_nodes w' = w_nodes demo_world"
  by (rule session_rejects) (simp_all add: reliable_def demo_world_def fresh_world_def)

lemma materialize_missing:
  assumes "engine_at e w D" "store_get (se_store e) p = Some en" "has_content en"
    and "h \<in> set (fe_chunk_hashes en)" "blob (se_blobs e) w h = None" "safe_rel p"
  shows "\<exists>err w'. engine_materialize e p w = (Inl err, w')"
proof -
  obtain r1 v where v: "create_directories (parent_path (path_append (se_materialized_dir e) p)) w = (r1, v)"
    by fastforce
  note frame = create_directories_frame [OF v engine_tree_ok [OF assms(1)]]
  have store: "store_at (se_blobs e) w (D @ [''blobstore'', ''chunks''])"
    using assms(1) unfolding engine_at_def by blast
  have nofile: "w_nodes w (D @ [''blobstore'', ''chunks'', chunk_name h]) = None"
    using blob_at [OF store, of h] assms(5) store
    by (auto simp: store_at_def split: option.splits node.splits)
  show ?thesis
  proof (cases r1)
    case (Inr u)
    have "resolve v (path_of (chunk_path (se_blobs e) h)) = Some (D @ [''blobstore'', ''chunks'', chunk_name h])"
      using resolve_mono [OF resolve_chunk [OF store]] frame by simp
    moreover have "w_nodes v (D @ [''blobstore'', ''chunks'', chunk_name h]) \<noteq> Some (File b)" for b
      using frame nofile unfolding grows_def by (metis node.distinct(1) option.distinct(1) option.inject)
    ultimately have "\<And>b. get_chunk (se_blobs e) h v \<noteq> (Inr b, v)" "snd (get_chunk (se_blobs e) h v) = v"
      by (auto simp: get_chunk_def node_at_def split: option.splits node.splits)
    then have bad: "\<exists>err. get_chunk (se_blobs e) h v = (Inl err, v)"
      by (cases "get_chunk (se_blobs e) h v"; cases "fst (get_chunk (se_blobs e) h v)") auto
    have "\<exists>err. reassemble (se_blobs e) hs v = (Inl err, v)" if "h \<in> set hs" for hs
      using that
    proof (induction hs)
      case (Cons k hs)
      have "snd (get_chunk (se_blobs e) k v) = v" by (simp add: get_chunk_def split: option.split node.split)
      then obtain r where r: "get_chunk (se_blobs e) k v = (r, v)" by (metis prod.collapse)
      show ?case
      proof (cases r)
        case (Inr b)
        with r bad Cons show ?thesis by (cases "k = h") auto
      qed (use r in auto)
    qed simp
    with assms(2-4) v Inr show ?thesis
      by (fastforce simp: engine_materialize_def fs_materialize_def Let_def)
  qed (use assms(2,3) v in \<open>auto simp: engine_materialize_def fs_materialize_def Let_def\<close>)
qed

lemma materialize_journal:
  assumes "engine_at e w D" "safe_rel p" "engine_materialize e p w = (r, v)"
  shows "w_nodes v (D @ [''store.meta'']) = w_nodes w (D @ [''store.meta''])"
  using engine_materialize_at [OF assms] by fastforce

lemma materialize_all_missing:
  assumes "engine_at e w D" "\<forall>q \<in> set ps. safe_rel q"
    and "p \<in> set ps" "store_get (se_store e) p = Some en" "has_content en"
    and "h \<in> set (fe_chunk_hashes en)" "blob (se_blobs e) w h = None"
  shows "\<exists>err w'. io_for ps (engine_materialize e) w = (Inl err, w') \<and>
    w_nodes w' (D @ [''store.meta'']) = w_nodes w (D @ [''store.meta''])"
  using assms(1,2,3,7)
proof (induction ps arbitrary: w)
  case (Cons q ps)
  obtain r v where v: "engine_materialize e q w = (r, v)" by fastforce
  have safe: "safe_rel q" using Cons.prems(2) by simp
  note journal = materialize_journal [OF Cons.prems(1) safe v]
  show ?case
  proof (cases r)
    case (Inl err)
    with v journal show ?thesis by auto
  next
    case (Inr u)
    have "q \<noteq> p"
    proof
      assume "q = p"
      then obtain err w' where "engine_materialize e q w = (Inl err, w')"
        using materialize_missing [OF Cons.prems(1) assms(4-6) Cons.prems(4)] safe by blast
      with v Inr show False by simp
    qed
    moreover have "engine_at e v D" using engine_materialize_at [OF Cons.prems(1) safe v] by blast
    moreover have "blob (se_blobs e) v h = None"
      using engine_materialize_disk(2) [OF Cons.prems(1) safe v] Cons.prems(4) by simp
    ultimately obtain err w' where "io_for ps (engine_materialize e) v = (Inl err, w')"
      "w_nodes w' (D @ [''store.meta'']) = w_nodes v (D @ [''store.meta''])"
      using Cons.IH [of v] Cons.prems(2,3) by auto
    with v Inr journal show ?thesis by auto
  qed
qed simp

text \<open>
  Claim C22. A chunk that did not arrive aborts the session: if a file to be written out still
  misses one of its chunks, the last phase ends with an exception before the journal is saved,
  so the next start finds the state from before the session.
\<close>

theorem missing_chunk_aborts:
  assumes "engine_at e w D" "\<forall>q \<in> set ps. safe_rel q"
    and "p \<in> set ps" "store_get (se_store e) p = Some en" "has_content en"
    and "h \<in> set (fe_chunk_hashes en)" "blob (se_blobs e) w h = None"
  shows "\<exists>err w'. finish_session e ps w = (Inl err, w') \<and>
    w_nodes w' (D @ [''store.meta'']) = w_nodes w (D @ [''store.meta''])"
  using materialize_all_missing [OF assms] by (auto simp: finish_session_def)

theorem missing_chunk_aborts_witness:
  "\<exists>err w'. finish_session (demo_engine\<lparr>se_store := load_entry (new_store ''A'') demo_entry\<rparr>) [''notes''] demo_world =
     (Inl err, w') \<and> w_nodes w' [''data'', ''store.meta''] = None"
proof -
  let ?e = "demo_engine\<lparr>se_store := load_entry (new_store ''A'') demo_entry\<rparr>"
  have "engine_at ?e demo_world [''data'']"
    by (rule engine_at_store [OF demo_engine_at])
      (simp_all add: load_entry_def new_store_def demo_engine_def store_wf_def)
  moreover have "store_get (se_store ?e) ''notes'' = Some demo_entry"
    by (simp add: store_get_def load_entry_def demo_entry_def)
  moreover have "has_content demo_entry" "demo_digest \<in> set (fe_chunk_hashes demo_entry)" "\<forall>q \<in> set [''notes'']. safe_rel q"
    by (simp_all add: has_content_def demo_entry_def new_entry_def safe_rel_def plain_def)
  moreover have "blob (se_blobs ?e) demo_world demo_digest = None"
    using demo_no_blobs by (simp add: demo_blobs)
  ultimately obtain err w' where "finish_session ?e [''notes''] demo_world = (Inl err, w')"
    "w_nodes w' ([''data''] @ [''store.meta'']) = w_nodes demo_world ([''data''] @ [''store.meta''])"
    using missing_chunk_aborts [of ?e demo_world "[''data'']" "[''notes'']" "''notes''" demo_entry demo_digest] by auto
  then show ?thesis by (auto simp: demo_nodes)
qed

end
