(* ===== verification/Session_Progress.thy ===== *)
theory Session_Progress
  imports Session_Correct
begin

text \<open>
  Whether two sessions that talk to each other get to their end.  Both peers call \<^verbatim>\<open>send\<close> on a
  blocking socket, so a peer whose message does not fit into the buffers between the two waits
  until the other one reads, and in \<^verbatim>\<open>run_sync_session\<close> a peer reads only after it has sent its
  own message.  Here the two processes run side by side, byte by byte, over buffers that hold
  \<open>c\<close> bytes in each direction.
\<close>

section \<open>Two peers and the bytes between them\<close>

text \<open>What a peer still has to do on the connection: bytes to send and bytes to receive, in order.\<close>

datatype action = Send nat | Recv nat

text \<open>One move of a peer, with the bytes under way from it and to it.\<close>

inductive peer_step :: "nat \<Rightarrow> action list \<Rightarrow> nat \<Rightarrow> nat \<Rightarrow> action list \<Rightarrow> nat \<Rightarrow> nat \<Rightarrow> bool" for c where
  send_byte: "out < c \<Longrightarrow> peer_step c (Send (Suc n) # p) out inc (Send n # p) (Suc out) inc"
| send_end: "peer_step c (Send 0 # p) out inc p out inc"
| recv_byte: "peer_step c (Recv (Suc n) # p) out (Suc inc) (Recv n # p) out inc"
| recv_end: "peer_step c (Recv 0 # p) out inc p out inc"

type_synonym net = "action list \<times> action list \<times> nat \<times> nat"

inductive net_step :: "nat \<Rightarrow> net \<Rightarrow> net \<Rightarrow> bool" for c where
  first: "peer_step c p out inc p' out' inc' \<Longrightarrow> net_step c (p, q, out, inc) (p', q, out', inc')"
| second: "peer_step c q out inc q' out' inc' \<Longrightarrow> net_step c (p, q, inc, out) (p, q', inc', out')"

inductive_cases peer_stepE: "peer_step c p out inc p' out' inc'"
inductive_cases net_stepE: "net_step c (p, q, ab, ba) s'"

fun finished :: "net \<Rightarrow> bool" where
  "finished (p, q, ab, ba) \<longleftrightarrow> p = [] \<and> q = []"

text \<open>The phases of an exchange: the length of the own message and of the other's.\<close>

fun script :: "(nat \<times> nat) list \<Rightarrow> action list" where
  "script [] = []"
| "script ((s, r) # ps) = Send s # Recv r # script ps"

definition start :: "(nat \<times> nat) list \<Rightarrow> net" where
  "start ps = (script ps, script (map prod.swap ps), 0, 0)"

text \<open>The phases of the session between two engines.\<close>

definition session_phases :: "SyncEngine \<Rightarrow> world \<Rightarrow> SyncEngine \<Rightarrow> world \<Rightarrow> (nat \<times> nat) list" where
  "session_phases e w f v =
     [(length (frame FRAME_MANIFEST (serialize_manifest e)), length (frame FRAME_MANIFEST (serialize_manifest f))),
      (length (frame FRAME_CHUNK_REQUEST (serialize_hash_list (wanted e w (entries_of f)))),
       length (frame FRAME_CHUNK_REQUEST (serialize_hash_list (wanted f v (entries_of e))))),
      (length (frame FRAME_CHUNK_DATA (chunk_data (stock e w) (wanted f v (entries_of e)))),
       length (frame FRAME_CHUNK_DATA (chunk_data (stock f v) (wanted e w (entries_of f))))),
      (length (frame FRAME_DONE []), length (frame FRAME_DONE []))]"

lemma session_phases_says:
  "sum_list (map fst (session_phases e w f v)) = length (says e w f v)"
  "sum_list (map snd (session_phases e w f v)) = length (says f v e w)"
  by (simp_all add: session_phases_def says_def)

section \<open>Counting bytes\<close>

fun sends :: "action list \<Rightarrow> nat" where
  "sends [] = 0"
| "sends (Send n # p) = n + sends p"
| "sends (Recv n # p) = sends p"

fun recvs :: "action list \<Rightarrow> nat" where
  "recvs [] = 0"
| "recvs (Send n # p) = recvs p"
| "recvs (Recv n # p) = n + recvs p"

definition work :: "action list \<Rightarrow> nat" where
  "work p = sends p + recvs p + length p"

text \<open>How far a peer is on its script.\<close>

fun on_script :: "(nat \<times> nat) list \<Rightarrow> action list \<Rightarrow> bool" where
  "on_script [] p \<longleftrightarrow> p = []"
| "on_script ((s, r) # ps) p \<longleftrightarrow>
     (\<exists>m \<le> s. p = Send m # Recv r # script ps) \<or> (\<exists>m \<le> r. p = Recv m # script ps) \<or> on_script ps p"

lemma on_script_start: "on_script ps (script ps)"
  by (cases ps) auto

lemma script_counts [simp]:
  "sends (script ps) = sum_list (map fst ps)" "recvs (script ps) = sum_list (map snd ps)"
  by (induction ps rule: script.induct) auto

lemma on_script_counts: "on_script ps p \<Longrightarrow> sends p \<le> sum_list (map fst ps) \<and> recvs p \<le> sum_list (map snd ps)"
  by (induction ps p rule: on_script.induct) auto

lemma on_script_step:
  assumes "peer_step c p out inc p' out' inc'" "on_script ps p"
  shows "on_script ps p'"
  using assms(2,1)
proof (induction ps p rule: on_script.induct)
  case (1 p)
  then show ?case by (auto elim: peer_stepE)
next
  case (2 s r ps p)
  then show ?case
    using on_script_start [of ps] by (fastforce elim!: peer_stepE)
qed

text \<open>
  The invariant: both peers are on their scripts, what one has still to receive is what is under
  way and what the other has still to send, and the buffers hold no more than \<open>c\<close> bytes.
\<close>

fun net_ok :: "nat \<Rightarrow> (nat \<times> nat) list \<Rightarrow> net \<Rightarrow> bool" where
  "net_ok c ps (p, q, ab, ba) \<longleftrightarrow>
     on_script ps p \<and> on_script (map prod.swap ps) q \<and>
     recvs q = ab + sends p \<and> recvs p = ba + sends q \<and> ab \<le> c \<and> ba \<le> c"

lemma peer_step_counts:
  "peer_step c p out inc p' out' inc' \<Longrightarrow>
   out' + sends p' = out + sends p \<and> recvs p' + inc = recvs p + inc' \<and> (out' \<le> c \<or> out' = out) \<and> inc' \<le> inc \<and>
   work p' < work p"
  by (induction rule: peer_step.induct) (auto simp: work_def)

lemma map_swap_sums [simp]: "map (fst \<circ> prod.swap) ps = map snd ps" "map (snd \<circ> prod.swap) ps = map fst ps"
  by (simp_all add: comp_def)

lemma net_ok_start: "net_ok c ps (start ps)"
  by (simp add: start_def on_script_start)

lemma net_ok_step: "net_step c s s' \<Longrightarrow> net_ok c ps s \<Longrightarrow> net_ok c ps s'"
proof (induction rule: net_step.induct)
  case (first p out inc p' out' inc' q)
  then show ?case using peer_step_counts [OF first(1)] on_script_step [OF first(1)] by auto
next
  case (second q out inc q' out' inc' p)
  then show ?case using peer_step_counts [OF second(1)] on_script_step [OF second(1)] by auto
qed

lemma net_ok_reach: "(net_step c)\<^sup>*\<^sup>* s t \<Longrightarrow> net_ok c ps s \<Longrightarrow> net_ok c ps t"
  by (induction rule: rtranclp_induct) (auto intro: net_ok_step)

text \<open>Every move does some of the work that is left.\<close>

fun net_work :: "net \<Rightarrow> nat" where
  "net_work (p, q, ab, ba) = work p + work q"

lemma net_step_work: "net_step c s s' \<Longrightarrow> net_work s' < net_work s"
  by (induction rule: net_step.induct) (auto dest: peer_step_counts)

lemma net_steps_bounded: "(net_step c ^^ n) s t \<Longrightarrow> n + net_work t \<le> net_work s"
proof (induction n arbitrary: t)
  case (Suc n)
  from Suc.prems obtain u where u: "(net_step c ^^ n) s u" "net_step c u t" by (rule relpowp_Suc_E)
  show ?case using Suc.IH [OF u(1)] net_step_work [OF u(2)] by simp
qed simp

section \<open>Blocked peers\<close>

text \<open>A peer that cannot move is done, waits for room, or waits for bytes.\<close>

definition blocked :: "nat \<Rightarrow> action list \<Rightarrow> nat \<Rightarrow> nat \<Rightarrow> bool" where
  "blocked c p out inc \<longleftrightarrow>
     p = [] \<or> (\<exists>n r. p = Send (Suc n) # r \<and> c \<le> out) \<or> (\<exists>n r. p = Recv (Suc n) # r \<and> inc = 0)"

lemma not_blocked: "\<not> blocked c p out inc \<Longrightarrow> \<exists>p' out' inc'. peer_step c p out inc p' out' inc'"
proof (cases p)
  case (Cons a r)
  assume "\<not> blocked c p out inc"
  then show ?thesis
  proof (cases a)
    case (Send n)
    with Cons \<open>\<not> blocked c p out inc\<close> show ?thesis
      by (cases n) (auto simp: blocked_def not_le dest: send_byte intro: send_end)
  next
    case (Recv n)
    with Cons \<open>\<not> blocked c p out inc\<close> show ?thesis
      by (cases n; cases inc) (auto simp: blocked_def intro: peer_step.intros)
  qed
qed (simp add: blocked_def)

lemma stuck_blocked:
  assumes "\<nexists>s'. net_step c (p, q, ab, ba) s'"
  shows "blocked c p ab ba" "blocked c q ba ab"
  using assms not_blocked [of c p ab ba] not_blocked [of c q ba ab]
  by (blast intro: net_step.intros)+

lemma both_blocked:
  assumes "net_ok c ps (p, q, ab, ba)" "blocked c p ab ba" "blocked c q ba ab" "0 < c"
    and "\<forall>(s, r) \<in> set ps. s \<le> c \<or> r \<le> c"
  shows "p = [] \<and> q = []"
  using assms
proof (induction ps)
  case (Cons sr ps)
  obtain s r where sr: "sr = (s, r)" by (cases sr)
  have fit: "s \<le> c \<or> r \<le> c" using Cons.prems(5) by (simp add: sr)
  show ?case
  proof (cases "on_script ps p \<and> on_script (map prod.swap ps) q")
    case True
    then show ?thesis using Cons by (intro Cons.IH) auto
  next
    case False
    have counts: "on_script ps p \<Longrightarrow> sends p \<le> sum_list (map fst ps) \<and> recvs p \<le> sum_list (map snd ps)"
      "on_script (map prod.swap ps) q \<Longrightarrow> sends q \<le> sum_list (map snd ps) \<and> recvs q \<le> sum_list (map fst ps)"
      using on_script_counts [of ps p] on_script_counts [of "map prod.swap ps" q] by simp_all
    show ?thesis
      using Cons.prems(1-4) False counts fit
      by (auto simp: sr blocked_def)
  qed
qed auto

lemma completes:
  assumes "0 < c" "\<forall>(s, r) \<in> set ps. s \<le> c \<or> r \<le> c"
  shows "net_ok c ps s \<Longrightarrow> \<exists>t. (net_step c)\<^sup>*\<^sup>* s t \<and> finished t"
proof (induction s rule: measure_induct_rule [of net_work])
  case (less s)
  show ?case
  proof (cases "\<exists>s'. net_step c s s'")
    case True
    then obtain s' where s': "net_step c s s'" by blast
    then obtain t where "(net_step c)\<^sup>*\<^sup>* s' t" "finished t"
      using less.IH net_step_work net_ok_step less.prems by blast
    then show ?thesis using s' by (blast intro: converse_rtranclp_into_rtranclp)
  next
    case False
    obtain p q ab ba where s: "s = (p, q, ab, ba)" by (cases s)
    then have "blocked c p ab ba" "blocked c q ba ab" using stuck_blocked [of c p q ab ba] False by simp_all
    then have "finished s" using both_blocked [of c ps p q ab ba] less.prems assms by (simp add: s)
    then show ?thesis by blast
  qed
qed

section \<open>A phase in which both messages are too long\<close>

lemma not_past_send:
  "on_script (pre @ (s, r) # post) p \<Longrightarrow> sum_list (map fst post) < sends p \<Longrightarrow>
   r + sum_list (map snd post) \<le> recvs p"
proof (induction pre)
  case Nil
  then show ?case using on_script_counts [of post p] by auto
next
  case (Cons x pre)
  then show ?case by (cases x) auto
qed

text \<open>Neither peer gets past its message in that phase.\<close>

fun held_up :: "(nat \<times> nat) list \<Rightarrow> net \<Rightarrow> bool" where
  "held_up post (p, q, ab, ba) \<longleftrightarrow> sum_list (map fst post) < sends p \<and> sum_list (map snd post) < sends q"

lemma held_up_step:
  assumes "net_step c u t" "net_ok c (pre @ (s, r) # post) u" "held_up post u" "c < s" "c < r"
  shows "held_up post t"
proof -
  let ?ps = "pre @ (s, r) # post"
  obtain p q ab ba where u: "u = (p, q, ab, ba)" by (cases u)
  obtain p' q' ab' ba' where t: "t = (p', q', ab', ba')" by (cases t)
  have bounds: "recvs q' = ab' + sends p'" "recvs p' = ba' + sends q'" "ab' \<le> c" "ba' \<le> c"
    using net_ok_step [OF assms(1,2)] by (simp_all add: t)
  have scripts: "on_script ?ps p" "on_script (map prod.swap pre @ (r, s) # map prod.swap post) q"
    using assms(2) by (simp_all add: u)
  have before: "sum_list (map fst post) < sends p" "sum_list (map snd post) < sends q"
    using assms(3) by (simp_all add: u)
  have left: "r + sum_list (map snd post) \<le> recvs p" "s + sum_list (map fst post) \<le> recvs q"
    using not_past_send [OF scripts(1) before(1)] not_past_send [OF scripts(2)] before(2) by simp_all
  from assms(1) consider "q' = q" | "p' = p"
    unfolding u t by (auto elim: net_stepE)
  then show ?thesis
  proof cases
    case 1
    then have "s + sum_list (map fst post) \<le> ab' + sends p'" using left(2) bounds(1) by simp
    then show ?thesis using 1 before(2) bounds(3) assms(4) by (simp add: t)
  next
    case 2
    then have "r + sum_list (map snd post) \<le> ba' + sends q'" using left(1) bounds(2) by simp
    then show ?thesis using 2 before(1) bounds(4) assms(5) by (simp add: t)
  qed
qed

lemma never_completes:
  assumes "(s, r) \<in> set ps" "c < s" "c < r" "(net_step c)\<^sup>*\<^sup>* (start ps) t"
  shows "\<not> finished t"
proof -
  obtain pre post where ps: "ps = pre @ (s, r) # post" using split_list [OF assms(1)] by blast
  have "net_ok c ps t \<and> held_up post t"
    using assms(4)
  proof (induction rule: rtranclp_induct)
    case base
    then show ?case using assms(2,3) net_ok_start [of c ps] by (simp add: start_def ps)
  next
    case (step u v)
    then show ?case using net_ok_step held_up_step [of c u v pre s r post] assms(2,3) unfolding ps by blast
  qed
  then show ?thesis by (cases t) auto
qed

section \<open>When sessions complete\<close>



end
