(* ===== verification/Session_Frame.thy ===== *)
theory Session_Frame
  imports Sync_Session
begin

text \<open>
  What engine operations and sessions leave alone.  A part of the world that is neither the disk
  nor the connection is untouched by them, on every path through the code, exceptions included.
  The parts are the instances of one locale.
\<close>

section \<open>Keeping a part of the world\<close>

named_theorems keeps_rules \<open>operations that leave a part of the world alone\<close>

definition keeps :: "(world \<Rightarrow> 'p) \<Rightarrow> 'a io \<Rightarrow> bool" where
  "keeps part m \<longleftrightarrow> (\<forall>w. part (snd (m w)) = part w)"

lemma keepsI: "(\<And>w. part (snd (m w)) = part w) \<Longrightarrow> keeps part m"
  by (simp add: keeps_def)

lemma keepsD: "keeps part m \<Longrightarrow> m w = (r, w') \<Longrightarrow> part w' = part w"
  unfolding keeps_def by (metis snd_conv)

lemma keeps_pure [keeps_rules]:
  "keeps part (io_return x)" "keeps part (io_throw e)" "keeps part (io_lift r)" "keeps part (io_gets f)"
  by (simp_all add: keeps_def)

lemma keeps_bind [keeps_rules]:
  assumes "keeps part m" "\<And>x. keeps part (f x)"
  shows "keeps part (io_bind m f)"
proof (rule keepsI)
  fix w
  obtain r w1 where m: "m w = (r, w1)" by (cases "m w")
  show "part (snd (io_bind m f w)) = part w"
    using keepsD [OF assms(1) m] assms(2) by (cases r) (simp_all add: m keeps_def)
qed

lemma keeps_then [keeps_rules]: "keeps part m \<Longrightarrow> keeps part k \<Longrightarrow> keeps part (io_then m k)"
  unfolding io_then_def by (rule keeps_bind)

lemma keeps_if [keeps_rules]: "(c \<Longrightarrow> keeps part a) \<Longrightarrow> (\<not> c \<Longrightarrow> keeps part b) \<Longrightarrow> keeps part (if c then a else b)"
  by simp

lemma keeps_option [keeps_rules]:
  "keeps part a \<Longrightarrow> (\<And>x. keeps part (b x)) \<Longrightarrow> keeps part (case x of None \<Rightarrow> a | Some x \<Rightarrow> b x)"
  by (cases x) simp_all

lemma keeps_pair [keeps_rules]: "(\<And>x y. keeps part (f x y)) \<Longrightarrow> keeps part (case p of (x, y) \<Rightarrow> f x y)"
  by (cases p) simp

lemma keeps_for [keeps_rules]: "(\<And>x. keeps part (f x)) \<Longrightarrow> keeps part (io_for xs f)"
  by (induction xs) (simp_all add: keeps_rules)

section \<open>What engine and session leave alone\<close>

locale offside =
  fixes part :: "world \<Rightarrow> 'p"
  assumes part_nodes: "part (w\<lparr>w_nodes := x\<rparr>) = part w"
    and part_incoming: "part (w\<lparr>w_incoming := y\<rparr>) = part w"
    and part_sent: "part (w\<lparr>w_sent := y\<rparr>) = part w"
    and part_recv_calls: "part (w\<lparr>w_recv_calls := z\<rparr>) = part w"
    and part_send_calls: "part (w\<lparr>w_send_calls := z\<rparr>) = part w"
begin

lemmas part_simps = part_nodes part_incoming part_sent part_recv_calls part_send_calls

lemma write_file_keeps: "keeps part (write_file p bytes)"
  by (rule keepsI) (simp add: write_file_def part_simps split: option.split)

lemma make_dirs_part: "part (snd (make_dirs cur cs w)) = part w"
  by (induction cur cs w rule: make_dirs.induct)
    (simp_all add: Let_def part_simps split: option.split node.split)

lemma create_directories_keeps: "keeps part (create_directories p)"
  by (rule keepsI) (simp add: create_directories_def make_dirs_part)

lemma put_chunk_keeps: "keeps part (put_chunk fs c)"
  using write_file_keeps by (auto simp: keeps_def put_chunk_def Let_def)

lemma get_chunk_keeps: "keeps part (get_chunk fs h)"
  by (rule keepsI) (simp add: get_chunk_def split: option.split node.split)

lemma reassemble_keeps: "keeps part (reassemble fs hs)"
proof (induction hs)
  case (Cons h hs)
  then show ?case unfolding reassemble.simps by (intro keeps_rules get_chunk_keeps)
qed (simp add: keeps_def)

lemma materialize_keeps: "keeps part (fs_materialize fs dir p hs)"
  unfolding fs_materialize_def Let_def
  by (intro keeps_rules reassemble_keeps create_directories_keeps write_file_keeps)

lemma engine_materialize_keeps: "keeps part (engine_materialize e p)"
  unfolding engine_materialize_def by (intro keeps_rules materialize_keeps)

lemma save_journal_keeps: "keeps part (save_journal e)"
  unfolding save_journal_def by (rule write_file_keeps)

lemma load_journal_keeps: "keeps part (load_journal e)"
  by (rule keepsI) (simp add: load_journal_def split: option.split node.split)

lemma new_engine_keeps: "keeps part (new_engine i d)"
  unfolding new_engine_def new_file_store_def Let_def
  by (intro keeps_rules create_directories_keeps load_journal_keeps)

lemma delete_file_keeps: "keeps part (delete_file e p)"
  unfolding delete_file_def Let_def by (intro keeps_rules save_journal_keeps)

lemma send_all_keeps: "keeps part (send_all data)"
proof (rule keepsI)
  show "part (snd (send_all data w)) = part w" for w
    by (induction data w rule: send_all.induct) (simp_all add: Let_def part_simps split: option.split)
qed

lemma recv_all_keeps: "keeps part (recv_all len got)"
proof (rule keepsI)
  show "part (snd (recv_all len got w)) = part w" for w
  proof (induction len got w rule: recv_all.induct)
    case (1 len got w)
    then show ?case
      by (subst recv_all.simps) (simp add: Let_def part_simps split: option.split)
  qed
qed

lemma send_frame_keeps: "keeps part (send_frame t payload)"
  unfolding send_frame_def Let_def by (intro keeps_rules send_all_keeps)

lemma recv_frame_keeps: "keeps part recv_frame"
  unfolding recv_frame_def Let_def by (intro keeps_rules recv_all_keeps)

lemma expect_frame_keeps: "keeps part (expect_frame t name)"
  unfolding expect_frame_def by (intro keeps_rules recv_frame_keeps)

lemma build_chunk_data_keeps: "keeps part (build_chunk_data fs hs)"
proof (induction hs)
  case (Cons h hs)
  have "keeps part (io_bind (get_chunk fs h) (\<lambda>bytes.
      io_bind (build_chunk_data fs hs) (\<lambda>rest. io_return (encode_chunk h bytes @ rest))))"
    by (intro keeps_rules get_chunk_keeps Cons.IH)
  with Cons.IH show ?case by (simp add: keeps_def)
qed (simp add: keeps_def)

lemma store_chunk_data_keeps: "keeps part (store_chunk_data fs payload n)"
proof (induction fs payload n rule: store_chunk_data.induct)
  case (1 fs payload n)
  show ?case
    by (subst store_chunk_data.simps, unfold Let_def) (intro keeps_rules put_chunk_keeps 1; (assumption | rule refl))
qed

lemma merge_entries_keeps: "keeps part (merge_entries e stats es)"
  by (rule keepsI) (simp add: merge_entries_def)

lemma session_keeps: "keeps part (run_sync_session e)"
  unfolding run_sync_session_def exchange_manifests_def request_chunks_def answer_request_def
    fetch_chunks_def finish_session_def Let_def
  by (intro keeps_rules send_frame_keeps expect_frame_keeps merge_entries_keeps build_chunk_data_keeps
      store_chunk_data_keeps engine_materialize_keeps save_journal_keeps recv_frame_keeps)

lemma ingest_keeps:
  assumes "\<And>w x. part (w\<lparr>w_out := x\<rparr>) = part w"
  shows "keeps part (ingest_file e p bytes)"
proof -
  have "keeps part (print_out s)" for s
    by (rule keepsI) (simp add: print_out_def assms)
  then show ?thesis
    unfolding ingest_file_def Let_def
    by (intro keeps_rules put_chunk_keeps engine_materialize_keeps save_journal_keeps)
qed

end

interpretation fds: offside w_fds by unfold_locales simp_all

interpretation out: offside w_out by unfold_locales simp_all

interpretation err: offside w_err by unfold_locales simp_all

end
