(* ===== verification/Tcp_Socket.thy ===== *)
theory Tcp_Socket
  imports System_World
begin

text \<open>
  The socket half of \<^verbatim>\<open>network.cpp\<close>: the class \<^verbatim>\<open>TcpSocket\<close>, which owns a descriptor, and the
  two ways to get a connected one.  The descriptors that are open are part of the world, so that
  what is closed, and when, can be stated; whether a call succeeds is the choice of the world.
\<close>

section \<open>System calls\<close>

text \<open>A new descriptor is the lowest number that is free.\<close>

definition new_fd :: "int list \<Rightarrow> int" where
  "new_fd fds = hd (filter (\<lambda>n. n \<notin> set fds) (map int [0..<Suc (length fds)]))"

definition call_succeeds :: "bool io" where
  "call_succeeds w =
     (Inr (case w_socket_calls w of [] \<Rightarrow> True | c # _ \<Rightarrow> c \<noteq> Fail),
      w\<lparr>w_socket_calls := tl (w_socket_calls w)\<rparr>)"

text \<open>\<^verbatim>\<open>socket\<close> and \<^verbatim>\<open>accept\<close> return a new descriptor, or \<open>-1\<close>.\<close>

definition open_fd :: "int io" where
  "open_fd =
     io_bind call_succeeds (\<lambda>ok w.
       if ok then (Inr (new_fd (w_fds w)), w\<lparr>w_fds := new_fd (w_fds w) # w_fds w\<rparr>) else (Inr (- 1), w))"

definition close_fd :: "int \<Rightarrow> unit io" where
  "close_fd fd w = (Inr (), w\<lparr>w_fds := remove1 fd (w_fds w)\<rparr>)"

definition bind_port :: "u16 \<Rightarrow> bool io" where
  "bind_port port =
     io_bind call_succeeds (\<lambda>ok w. (Inr ok, if ok then w\<lparr>w_bound := Some port\<rparr> else w))"

definition int_digits :: "int \<Rightarrow> string" where
  "int_digits i = (if i < 0 then ''-'' @ dec_digits (nat (- i)) else dec_digits (nat i))"

section \<open>The class\<close>

record TcpSocket =
  ts_fd :: int

definition new_socket :: TcpSocket where
  "new_socket = \<lparr>ts_fd = - 1\<rparr>"

definition valid :: "TcpSocket \<Rightarrow> bool" where
  "valid s \<longleftrightarrow> 0 \<le> ts_fd s"

definition destroy_socket :: "TcpSocket \<Rightarrow> unit io" where
  "destroy_socket s = (if 0 \<le> ts_fd s then close_fd (ts_fd s) else io_return ())"

text \<open>The new socket and what is left of \<^verbatim>\<open>other\<close>.\<close>

definition move_socket :: "TcpSocket \<Rightarrow> TcpSocket \<times> TcpSocket" where
  "move_socket other = (\<lparr>ts_fd = ts_fd other\<rparr>, other\<lparr>ts_fd := - 1\<rparr>)"

text \<open>Both sockets after the assignment; \<open>same\<close> tells whether they are the same object.\<close>

definition assign_socket :: "bool \<Rightarrow> TcpSocket \<Rightarrow> TcpSocket \<Rightarrow> (TcpSocket \<times> TcpSocket) io" where
  "assign_socket same this other =
     (if \<not> same then
        io_then (if 0 \<le> ts_fd this then close_fd (ts_fd this) else io_return ())
          (io_return (this\<lparr>ts_fd := ts_fd other\<rparr>, other\<lparr>ts_fd := - 1\<rparr>))
      else io_return (this, other))"

text \<open>The loop over the addresses of a host; \<open>-1\<close> if none of them can be reached.\<close>

fun connect_any :: "string list \<Rightarrow> int io" where
  "connect_any [] = io_return (- 1)"
| "connect_any (addr # addrs) =
     io_bind open_fd (\<lambda>fd.
       if fd < 0 then connect_any addrs
       else io_bind call_succeeds (\<lambda>connected.
         if connected then io_return fd else io_then (close_fd fd) (connect_any addrs)))"

definition connect_to :: "string \<Rightarrow> int \<Rightarrow> TcpSocket io" where
  "connect_to host port =
     (let port_str = int_digits port
      in io_bind (io_gets (\<lambda>w. w_hosts w (takeWhile (\<lambda>c. c \<noteq> NUL) host) port_str)) (\<lambda>addrs.
           if addrs = [] then io_throw (Runtime_error (''DNS/address resolution failed for '' @ host))
           else io_bind (connect_any addrs) (\<lambda>fd.
             if fd < 0 then io_throw (Runtime_error (''failed to connect to '' @ host @ '':'' @ port_str))
             else io_return \<lparr>ts_fd = fd\<rparr>)))"

definition accept_once :: "int \<Rightarrow> TcpSocket io" where
  "accept_once port =
     io_bind open_fd (\<lambda>listen_fd.
       if listen_fd < 0 then io_throw (Runtime_error ''socket() failed'')
       else io_bind (bind_port (of_int port)) (\<lambda>bound.
         if \<not> bound then
           io_then (close_fd listen_fd)
             (io_throw (Runtime_error (''bind() failed on port '' @ int_digits port)))
         else io_bind call_succeeds (\<lambda>listening.
           if \<not> listening then
             io_then (close_fd listen_fd) (io_throw (Runtime_error ''listen() failed''))
           else io_bind open_fd (\<lambda>conn_fd.
             io_then (close_fd listen_fd)
               (if conn_fd < 0 then io_throw (Runtime_error ''accept() failed'')
                else io_return \<lparr>ts_fd = conn_fd\<rparr>)))))"

section \<open>Descriptors are not leaked\<close>

lemma new_fd_fresh: "new_fd fds \<notin> set fds" "0 \<le> new_fd fds"
proof -
  let ?free = "filter (\<lambda>n. n \<notin> set fds) (map int [0..<Suc (length fds)])"
  have "card (int ` {0..<Suc (length fds)}) = Suc (length fds)"
    by (simp add: card_image)
  then have "\<not> int ` {0..<Suc (length fds)} \<subseteq> set fds"
    using card_length [of fds] card_mono [of "set fds" "int ` {0..<Suc (length fds)}"] by fastforce
  then have "?free \<noteq> []" by (auto simp: filter_empty_conv simp del: upt_Suc)
  then have "new_fd fds \<in> set ?free" unfolding new_fd_def by (rule hd_in_set)
  then show "new_fd fds \<notin> set fds" "0 \<le> new_fd fds" by (auto simp del: upt_Suc)
qed

text \<open>
  Two descriptor tables, before and after a call that returns a descriptor: a nonnegative one is
  new and is the only change, a negative one stands for no change.
\<close>

definition opens :: "world \<Rightarrow> int \<Rightarrow> world \<Rightarrow> bool" where
  "opens w fd w' \<longleftrightarrow>
     (if fd < 0 then w_fds w' = w_fds w else fd \<notin> set (w_fds w) \<and> w_fds w' = fd # w_fds w)"

lemma call_succeeds_run: "\<exists>ok w'. call_succeeds w = (Inr ok, w') \<and> w_fds w' = w_fds w"
  by (simp add: call_succeeds_def)

lemma open_fd_run: "\<exists>fd w'. open_fd w = (Inr fd, w') \<and> opens w fd w'"
  using new_fd_fresh [of "w_fds w"] by (simp add: open_fd_def io_bind_def call_succeeds_def opens_def)

lemma bind_port_run: "\<exists>ok w'. bind_port p w = (Inr ok, w') \<and> w_fds w' = w_fds w"
  by (simp add: bind_port_def io_bind_def call_succeeds_def)

lemma close_fd_run: "close_fd fd w = (Inr (), w\<lparr>w_fds := remove1 fd (w_fds w)\<rparr>)"
  by (simp add: close_fd_def)

lemma close_opened: "opens w fd w1 \<Longrightarrow> 0 \<le> fd \<Longrightarrow> w_fds w2 = w_fds w1 \<Longrightarrow>
    \<exists>w3. close_fd fd w2 = (Inr (), w3) \<and> w_fds w3 = w_fds w"
  by (auto simp: close_fd_run opens_def)

lemma opens_cong: "w_fds w1 = w_fds w \<Longrightarrow> opens w1 fd w' = opens w fd w'"
  by (simp add: opens_def)

lemma connect_any_run: "\<exists>fd w'. connect_any addrs w = (Inr fd, w') \<and> opens w fd w'"
proof (induction addrs arbitrary: w)
  case Nil
  then show ?case by (simp add: opens_def)
next
  case (Cons addr addrs)
  obtain fd w1 where o: "open_fd w = (Inr fd, w1)" "opens w fd w1" using open_fd_run by blast
  obtain ok w2 where c: "call_succeeds w1 = (Inr ok, w2)" "w_fds w2 = w_fds w1"
    using call_succeeds_run by blast
  show ?case
  proof (cases "fd < 0")
    case True
    then show ?thesis using o Cons.IH [of w1] opens_cong [of w1 w] by (auto simp: opens_def)
  next
    case False
    then obtain w3 where "close_fd fd w2 = (Inr (), w3)" "w_fds w3 = w_fds w"
      using close_opened [OF o(2) _ c(2)] by auto
    then show ?thesis
      using False o c Cons.IH [of w3] opens_cong [of w3 w] by (auto simp: opens_def)
  qed
qed

text \<open>How a call ends that is to return a connected socket.\<close>

definition hands_over :: "world \<Rightarrow> TcpSocket result \<times> world \<Rightarrow> bool" where
  "hands_over w out \<longleftrightarrow>
     (case out of
        (Inl err, w') \<Rightarrow> w_fds w' = w_fds w
      | (Inr s, w') \<Rightarrow> valid s \<and> opens w (ts_fd s) w')"

lemma connect_to_hands_over: "hands_over w (connect_to host port w)"
proof -
  obtain fd w' where "connect_any (w_hosts w (takeWhile (\<lambda>c. c \<noteq> NUL) host) (int_digits port)) w = (Inr fd, w')"
    "opens w fd w'" using connect_any_run by blast
  then show ?thesis
    by (auto simp: connect_to_def hands_over_def io_bind_def Let_def valid_def opens_def)
qed

lemma accept_once_hands_over: "hands_over w (accept_once port w)"
proof -
  obtain l w1 where l: "open_fd w = (Inr l, w1)" "opens w l w1" using open_fd_run by blast
  obtain ok w2 where b: "bind_port (of_int port) w1 = (Inr ok, w2)" "w_fds w2 = w_fds w1"
    using bind_port_run by blast
  obtain ok' w3 where c: "call_succeeds w2 = (Inr ok', w3)" "w_fds w3 = w_fds w2"
    using call_succeeds_run by blast
  obtain fd w4 where a: "open_fd w3 = (Inr fd, w4)" "opens w3 fd w4" using open_fd_run by blast
  note runs = l(1) b(1) c(1) a(1) close_fd_run
  show ?thesis
  proof (cases "l < 0")
    case True
    then show ?thesis using l(2) by (simp add: accept_once_def hands_over_def opens_def runs)
  next
    case False
    then have fds: "w_fds w3 = l # w_fds w" "w_fds w2 = l # w_fds w"
      using l(2) b(2) c(2) by (simp_all add: opens_def)
    show ?thesis
    proof (cases "ok \<and> ok'")
      case True
      then have "accept_once port w = (if fd < 0 then Inl (Runtime_error ''accept() failed'') else Inr \<lparr>ts_fd = fd\<rparr>,
          w4\<lparr>w_fds := remove1 l (w_fds w4)\<rparr>)"
        using False by (simp add: accept_once_def runs)
      then show ?thesis
        using a(2) fds by (auto simp: hands_over_def opens_def valid_def)
    next
      case not_ok: False
      then show ?thesis
        using False fds by (cases ok) (simp_all add: accept_once_def hands_over_def runs)
    qed
  qed
qed

lemma destroy_handed: "hands_over w (Inr s, w1) \<Longrightarrow> w_fds w2 = w_fds w1 \<Longrightarrow>
    \<exists>w3. destroy_socket s w2 = (Inr (), w3) \<and> w_fds w3 = w_fds w"
  using close_opened [of w "ts_fd s" w1 w2]
  by (auto simp: hands_over_def destroy_socket_def valid_def)

text \<open>
  Moving passes the descriptor on: after a move the old object owns nothing, so its destruction
  closes nothing, and after an assignment the descriptor that was overwritten is closed, unless
  a socket is assigned to itself.
\<close>

lemma move_then_destroy:
  "move_socket s = (t, s') \<Longrightarrow> ts_fd t = ts_fd s \<and> destroy_socket s' w = (Inr (), w)"
  by (auto simp: move_socket_def destroy_socket_def)

lemma assign_then_destroy:
  assumes "assign_socket same this other w = (Inr (s, s'), w')" "\<not> same"
  shows "ts_fd s = ts_fd other \<and> destroy_socket s' w' = (Inr (), w') \<and> (Inr (), w') = destroy_socket this w"
  using assms by (auto simp: assign_socket_def destroy_socket_def close_fd_def split: if_splits)

end
