(* ===== verification/Node_Cli.thy ===== *)
theory Node_Cli
  imports Session_Frame Tcp_Socket
begin

text \<open>
  \<^verbatim>\<open>node.cpp\<close> and \<^verbatim>\<open>main.cpp\<close>: the node, which ties the engine to the outside (a source file, a
  socket), and the command line, which builds a node from its journal, runs one command on it and
  ends with an exit code.
\<close>

section \<open>The node\<close>

record Node =
  engine :: SyncEngine

definition new_node :: "string \<Rightarrow> string \<Rightarrow> Node io" where
  "new_node node_id data_dir =
     io_bind (new_engine node_id data_dir) (\<lambda>e. io_return \<lparr>engine = e\<rparr>)"

definition add_file :: "Node \<Rightarrow> string \<Rightarrow> string \<Rightarrow> Node io" where
  "add_file nd logical_path source_path w =
     (case node_at w (path_of source_path) of
        None \<Rightarrow> (Inl (Runtime_error (''cannot open source file: '' @ source_path)), w)
      | Some Dir \<Rightarrow> (Inl (Runtime_error ''basic_filebuf::underflow error reading the file''), w)
      | Some (File bytes) \<Rightarrow>
          io_bind (ingest_file (engine nd) logical_path bytes) (\<lambda>(entry, e). io_return \<lparr>engine = e\<rparr>) w)"

definition remove_file :: "Node \<Rightarrow> string \<Rightarrow> Node io" where
  "remove_file nd logical_path =
     io_bind (delete_file (engine nd) logical_path) (\<lambda>e. io_return \<lparr>engine = e\<rparr>)"

definition list_line :: "FileEntry \<Rightarrow> string" where
  "list_line e =
     (if fe_deleted e then
        ''  [deleted]  '' @ fe_path e @ ''  clock='' @ clock_to_string (fe_clock e) @ [NL]
      else
        ''  '' @ fe_path e @ ''  ('' @ dec_digits (unat (fe_size e)) @ '' bytes, '' @
        dec_digits (length (fe_chunk_hashes e)) @ '' chunks)  clock='' @ clock_to_string (fe_clock e) @
        ''  last_writer='' @ fe_last_writer e @ [NL])"

definition list_files :: "Node \<Rightarrow> unit io" where
  "list_files nd = io_for (all_entries (se_store (engine nd))) (\<lambda>e. print_out (list_line e))"

text \<open>The lifetime of a local socket: it is destroyed when its scope is left, by an exception too.\<close>

definition with_socket :: "TcpSocket \<Rightarrow> 'a io \<Rightarrow> 'a io" where
  "with_socket sock m w = (let (r, w1) = m w; (_, w2) = destroy_socket sock w1 in (r, w2))"

definition sync_with :: "Node \<Rightarrow> string \<Rightarrow> int \<Rightarrow> (SyncStats \<times> Node) io" where
  "sync_with nd host port =
     io_bind (connect_to host port) (\<lambda>sock.
       with_socket sock (io_bind (run_sync_session (engine nd)) (\<lambda>(stats, e). io_return (stats, \<lparr>engine = e\<rparr>))))"

definition listen_and_sync :: "Node \<Rightarrow> int \<Rightarrow> (SyncStats \<times> Node) io" where
  "listen_and_sync nd port =
     io_then (print_out (''['' @ se_node_id (engine nd) @ ''] listening on port '' @ int_digits port @ '' ...'' @ [NL]))
       (io_bind (accept_once port) (\<lambda>sock.
         with_socket sock
           (io_then (print_out (''['' @ se_node_id (engine nd) @ ''] peer connected, syncing...'' @ [NL]))
             (io_bind (run_sync_session (engine nd)) (\<lambda>(stats, e). io_return (stats, \<lparr>engine = e\<rparr>))))))"

section \<open>The command line\<close>

definition usage :: string where
  "usage =
     ''Usage: syncnode --id <node_id> --data <data_dir> <command> [args]'' @ [NL, NL] @
     ''Commands:'' @ [NL] @
     ''  add <logical_path> <source_file>   Ingest a real file into the sync engine'' @ [NL] @
     ''  rm  <logical_path>                 Tombstone (delete) a tracked path'' @ [NL] @
     ''  list                                List all tracked entries and their versions'' @ [NL] @
     ''  listen --port <port>                Wait for one peer to connect and sync'' @ [NL] @
     ''  sync  --host <host> --port <port>   Connect to a peer and sync'' @ [NL, NL] @
     ''Example (two terminals, simulating two offline-then-reconnecting nodes):'' @ [NL] @
     ''  syncnode --id A --data ./dataA add notes.txt ./notes.txt'' @ [NL] @
     ''  syncnode --id A --data ./dataA listen --port 9001'' @ [NL] @
     ''  syncnode --id B --data ./dataB add notes.txt ./notes_editedB.txt'' @ [NL] @
     ''  syncnode --id B --data ./dataB sync --host 127.0.0.1 --port 9001'' @ [NL]"

definition print_usage :: "unit io" where
  "print_usage = print_out usage"

fun arg_value :: "string list \<Rightarrow> string \<Rightarrow> string" where
  "arg_value (a # b # args) flag = (if a = flag then b else arg_value (b # args) flag)"
| "arg_value _ flag = ''''"

definition print_stats :: "SyncStats \<Rightarrow> unit io" where
  "print_stats s = print_out (
     ''--- sync complete ---'' @ [NL] @
     ''  entries sent:            '' @ int_digits (entries_sent s) @ [NL] @
     ''  applied from remote:     '' @ int_digits (entries_applied_remote s) @ [NL] @
     ''  kept local (we're newer):'' @ int_digits (entries_kept_local s) @ [NL] @
     ''  already in sync:         '' @ int_digits (entries_no_change s) @ [NL] @
     ''  conflicts forked:        '' @ int_digits (conflicts_forked s) @ [NL] @
     ''  chunks fetched:          '' @ int_digits (chunks_fetched s) @ [NL])"

definition is_flag :: "string \<Rightarrow> bool" where
  "is_flag a \<longleftrightarrow> a = ''--id'' \<or> a = ''--data'' \<or> a = ''--host'' \<or> a = ''--port''"

text \<open>The loop that finds the command and its arguments.\<close>

fun find_command :: "string list \<Rightarrow> string \<Rightarrow> string list \<Rightarrow> string \<times> string list" where
  "find_command [] command rest = (command, rest)"
| "find_command (a # args) command rest =
     (if is_flag a then find_command (tl args) command rest
      else if command = '''' then find_command args a rest
      else find_command args command (rest @ [a]))"

text \<open>A message on the error stream and exit code 1.\<close>

definition fail_with :: "string \<Rightarrow> int io" where
  "fail_with msg = io_then (print_err msg) (io_return 1)"

text \<open>The body of the \<^verbatim>\<open>try\<close> block.\<close>

definition run_command :: "Node \<Rightarrow> string list \<Rightarrow> string \<Rightarrow> string list \<Rightarrow> int io" where
  "run_command nd args command rest =
     (if command = ''add'' then
        if length rest < 2 then fail_with (''usage: add <logical_path> <source_file>'' @ [NL])
        else io_bind (add_file nd (rest ! 0) (rest ! 1)) (\<lambda>nd.
          io_then (print_out (''added '' @ rest ! 0 @ [NL])) (io_return 0))
      else if command = ''rm'' then
        if rest = [] then fail_with (''usage: rm <logical_path>'' @ [NL])
        else io_bind (remove_file nd (rest ! 0)) (\<lambda>nd.
          io_then (print_out (''removed '' @ rest ! 0 @ [NL])) (io_return 0))
      else if command = ''list'' then io_then (list_files nd) (io_return 0)
      else if command = ''listen'' then
        let port_s = arg_value args ''--port''
        in if port_s = '''' then fail_with (''usage: listen --port <port>'' @ [NL])
           else io_bind (io_lift (stoi 10 port_s)) (\<lambda>port.
             io_bind (listen_and_sync nd port) (\<lambda>(stats, nd). io_then (print_stats stats) (io_return 0)))
      else if command = ''sync'' then
        let host = arg_value args ''--host''; port_s = arg_value args ''--port''
        in if host = '''' \<or> port_s = '''' then fail_with (''usage: sync --host <host> --port <port>'' @ [NL])
           else io_bind (io_lift (stoi 10 port_s)) (\<lambda>port.
             io_bind (sync_with nd host port) (\<lambda>(stats, nd). io_then (print_stats stats) (io_return 0)))
      else io_then print_usage (io_return 1))"

text \<open>
  The text of an exception.  That of the exceptions the standard library throws from its number
  parsers is its own, and an argument of the model.
\<close>

fun what :: "(error \<Rightarrow> string) \<Rightarrow> error \<Rightarrow> string" where
  "what lib_what (Runtime_error msg) = msg"
| "what lib_what e = lib_what e"

text \<open>\<^verbatim>\<open>try { m } catch (const std::exception& ex) { \<dots> }\<close>; undefined behaviour is not caught.\<close>

definition io_catch :: "'a io \<Rightarrow> (error \<Rightarrow> 'a io) \<Rightarrow> 'a io" where
  "io_catch m handler w =
     (case m w of
        (Inr x, w') \<Rightarrow> (Inr x, w')
      | (Inl e, w') \<Rightarrow> if e = Undefined_behaviour then (Inl e, w') else handler e w')"

definition main_program :: "(error \<Rightarrow> string) \<Rightarrow> string list \<Rightarrow> int io" where
  "main_program lib_what args =
     (if args = [] then io_then print_usage (io_return 1)
      else
        let node_id = arg_value args ''--id''; data_dir = arg_value args ''--data''
        in if node_id = '''' \<or> data_dir = '''' then
             io_then (print_err (''error: --id and --data are required'' @ [NL, NL]))
               (io_then print_usage (io_return 1))
           else
             let (command, rest) = find_command args '''' []
             in io_catch (io_bind (new_node node_id data_dir) (\<lambda>nd. run_command nd args command rest))
                  (\<lambda>ex. fail_with (''error: '' @ what lib_what ex @ [NL])))"

section \<open>Sockets are closed\<close>

lemma prints_keep_fds [keeps_rules]: "keeps w_fds (print_out s)" "keeps w_fds (print_err s)"
  by (simp_all add: keeps_def print_out_def print_err_def)

lemma prints_keep_err [keeps_rules]: "keeps w_err (print_out s)"
  by (simp add: keeps_def print_out_def)

text \<open>What is obtained is destroyed at the end of the scope, however the scope is left.\<close>

lemma scoped_socket:
  assumes "\<And>w. hands_over w (m w)" "keeps w_fds k"
  shows "keeps w_fds (io_bind m (\<lambda>sock. with_socket sock k))"
proof (rule keepsI)
  fix w
  obtain r w1 where m: "m w = (r, w1)" by (cases "m w")
  show "w_fds (snd (io_bind m (\<lambda>sock. with_socket sock k) w)) = w_fds w"
  proof (cases r)
    case (Inl err)
    then show ?thesis using assms(1) [of w] by (simp add: m hands_over_def)
  next
    case (Inr sock)
    obtain r' w2 where k: "k w1 = (r', w2)" by (cases "k w1")
    obtain w3 where "destroy_socket sock w2 = (Inr (), w3)" "w_fds w3 = w_fds w"
      using destroy_handed [of w sock w1 w2] assms(1) [of w] keepsD [OF assms(2) k] by (auto simp: m Inr)
    then show ?thesis by (simp add: m Inr with_socket_def k)
  qed
qed

lemma sync_with_fds: "keeps w_fds (sync_with nd host port)"
  unfolding sync_with_def
  by (rule scoped_socket [OF connect_to_hands_over]) (intro keeps_rules fds.session_keeps)

lemma listen_and_sync_fds: "keeps w_fds (listen_and_sync nd port)"
  unfolding listen_and_sync_def
  by (intro keeps_then prints_keep_fds scoped_socket [OF accept_once_hands_over])
    (intro keeps_rules fds.session_keeps)

lemma add_file_fds: "keeps w_fds (add_file nd p src)"
proof (rule keepsI)
  fix w
  have "keeps w_fds (io_bind (ingest_file (engine nd) p bytes) (\<lambda>(entry, e). io_return \<lparr>engine = e\<rparr>))" for bytes
    by (intro keeps_rules fds.ingest_keeps) simp
  then show "w_fds (snd (add_file nd p src w)) = w_fds w"
    by (simp add: add_file_def keeps_def split: option.split node.split)
qed

lemma run_command_fds: "keeps w_fds (run_command nd args command rest)"
  unfolding run_command_def remove_file_def list_files_def fail_with_def print_usage_def print_stats_def Let_def
  by (intro keeps_rules add_file_fds fds.delete_file_keeps sync_with_fds listen_and_sync_fds)

lemma keeps_catch [keeps_rules]:
  assumes "keeps part m" "\<And>e. keeps part (h e)"
  shows "keeps part (io_catch m h)"
proof (rule keepsI)
  fix w
  obtain r w1 where m: "m w = (r, w1)" by (cases "m w")
  show "part (snd (io_catch m h w)) = part w"
    using keepsD [OF assms(1) m] assms(2) by (cases r) (simp_all add: m keeps_def io_catch_def)
qed

text \<open>
  Claim C11. No run of the program leaks a descriptor: whatever the command, whether it succeeds,
  throws or loses its peer half way, and whichever system call fails, the descriptors open at
  the end are those open at the start.
\<close>

theorem main_closes_sockets: "w_fds (snd (main_program lib_what args w)) = w_fds w"
proof -
  have "keeps w_fds (main_program lib_what args)"
    unfolding main_program_def new_node_def print_usage_def fail_with_def Let_def
    by (intro keeps_rules fds.new_engine_keeps run_command_fds)
  then show ?thesis by (simp add: keeps_def)
qed

section \<open>Exit codes and messages\<close>

text \<open>
  How a run is reported: exit code 0 with nothing on the error stream; exit code 1 with a message
  on the error stream or the usage text on the output; an exception with nothing on the error
  stream yet.
\<close>

definition reported :: "world \<Rightarrow> int result \<times> world \<Rightarrow> bool" where
  "reported w out \<longleftrightarrow>
     (case out of
        (Inr code, w') \<Rightarrow>
          code = 0 \<and> w_err w' = w_err w \<or>
          code = 1 \<and> ((\<exists>msg. msg \<noteq> [] \<and> w_err w' = w_err w @ msg) \<or> (\<exists>s. w_out w' = s @ usage))
      | (Inl e, w') \<Rightarrow> w_err w' = w_err w)"

definition reports :: "int io \<Rightarrow> bool" where
  "reports m \<longleftrightarrow> (\<forall>w. reported w (m w))"

named_theorems reports_rules \<open>programs that report how they end\<close>

lemma reports_zero [reports_rules]: "reports (io_return 0)"
  by (simp add: reports_def reported_def)

lemma reports_fail [reports_rules]: "msg \<noteq> [] \<Longrightarrow> reports (fail_with msg)"
  by (auto simp: reports_def reported_def fail_with_def print_err_def)

lemma reports_usage [reports_rules]: "reports (io_then print_usage (io_return 1))"
  by (simp add: reports_def reported_def print_usage_def print_out_def)

lemma reports_if [reports_rules]: "reports a \<Longrightarrow> reports b \<Longrightarrow> reports (if c then a else b)"
  by simp

lemma reports_pair [reports_rules]: "(\<And>x y. reports (f x y)) \<Longrightarrow> reports (case p of (x, y) \<Rightarrow> f x y)"
  by (cases p) simp

lemma reported_cong: "w_err w1 = w_err w \<Longrightarrow> reported w1 out = reported w out"
  unfolding reported_def by (simp only:)

lemma reports_bind [reports_rules]:
  assumes "keeps w_err m" "\<And>x. reports (f x)"
  shows "reports (io_bind m f)"
  unfolding reports_def
proof
  fix w
  obtain r w1 where m: "m w = (r, w1)" by (cases "m w")
  have "w_err w1 = w_err w" by (rule keepsD [OF assms(1) m])
  show "reported w (io_bind m f w)"
  proof (cases r)
    case (Inl e)
    then show ?thesis using \<open>w_err w1 = w_err w\<close> by (simp add: m reported_def)
  next
    case (Inr x)
    have "reported w1 (f x w1)" using assms(2) unfolding reports_def by blast
    then show ?thesis using Inr reported_cong [OF \<open>w_err w1 = w_err w\<close>] by (simp add: m)
  qed
qed

lemma reports_then [reports_rules]: "keeps w_err m \<Longrightarrow> reports k \<Longrightarrow> reports (io_then m k)"
  unfolding io_then_def by (rule reports_bind)

lemma socket_calls_err [keeps_rules]: "keeps w_err call_succeeds" "keeps w_err (close_fd fd)"
  by (simp_all add: keeps_def call_succeeds_def close_fd_def)

lemma open_fd_err [keeps_rules]: "keeps w_err open_fd" "keeps w_err (bind_port p)"
  by (simp_all add: keeps_def open_fd_def bind_port_def io_bind_def call_succeeds_def)

lemma connect_any_err [keeps_rules]: "keeps w_err (connect_any addrs)"
proof (induction addrs)
  case (Cons addr addrs)
  then show ?case unfolding connect_any.simps by (intro keeps_rules)
qed (simp add: keeps_def)

lemma with_socket_err [keeps_rules]: "keeps w_err m \<Longrightarrow> keeps w_err (with_socket s m)"
  by (auto simp: keeps_def with_socket_def destroy_socket_def close_fd_def split: prod.split)
    (metis snd_conv)+

lemma sync_err [keeps_rules]:
  "keeps w_err (sync_with nd host port)" "keeps w_err (listen_and_sync nd port)"
  unfolding sync_with_def listen_and_sync_def connect_to_def accept_once_def Let_def
  by (intro keeps_rules err.session_keeps)+

lemma files_err [keeps_rules]: "keeps w_err (add_file nd p src)" "keeps w_err (remove_file nd p)"
proof -
  have "keeps w_err (io_bind (ingest_file (engine nd) p bytes) (\<lambda>(entry, e). io_return \<lparr>engine = e\<rparr>))" for bytes
    by (intro keeps_rules err.ingest_keeps) simp
  then show "keeps w_err (add_file nd p src)"
    by (simp add: add_file_def keeps_def split: option.split node.split)
  show "keeps w_err (remove_file nd p)"
    unfolding remove_file_def by (intro keeps_rules err.delete_file_keeps)
qed

lemma run_command_reports: "reports (run_command nd args command rest)"
  unfolding run_command_def list_files_def print_stats_def Let_def
  by (intro reports_rules keeps_rules) simp_all

lemma main_reports: "reports (main_program lib_what args)"
proof -
  have inner: "reports (io_bind (new_node i d) (\<lambda>nd. run_command nd args command rest))" for i d command rest
    unfolding new_node_def by (intro reports_bind keeps_rules err.new_engine_keeps run_command_reports)
  have catch: "reports (io_catch m (\<lambda>ex. fail_with (''error: '' @ f ex @ [NL])))" if "reports m" for m f
    unfolding reports_def
  proof
    fix w
    obtain r w1 where m: "m w = (r, w1)" by (cases "m w")
    have "reported w (r, w1)" using that m unfolding reports_def by metis
    then show "reported w (io_catch m (\<lambda>ex. fail_with (''error: '' @ f ex @ [NL])) w)"
      by (cases r) (simp_all add: io_catch_def m reported_def fail_with_def print_err_def)
  qed
  have usage: "reports (io_then (print_err msg) (io_then print_usage (io_return 1)))" for msg
    by (simp add: reports_def reported_def print_usage_def print_err_def print_out_def)
  show ?thesis
    unfolding main_program_def Let_def by (intro reports_if reports_pair reports_usage usage catch inner)
qed

text \<open>Programs that stay within the defined behaviour of the language.\<close>

definition defined :: "'a io \<Rightarrow> bool" where
  "defined m \<longleftrightarrow> (\<forall>w. fst (m w) \<noteq> Inl Undefined_behaviour)"

named_theorems defined_rules \<open>programs without undefined behaviour\<close>

lemma definedI: "(\<And>w. fst (m w) \<noteq> Inl Undefined_behaviour) \<Longrightarrow> defined m"
  by (simp add: defined_def)

lemma defined_pure [defined_rules]:
  "defined (io_return x)" "defined (io_throw (Runtime_error msg))" "defined (io_gets f)"
  "defined (print_out s)" "defined (print_err s)"
  by (simp_all add: defined_def print_out_def print_err_def)

lemma defined_bind [defined_rules]:
  assumes "defined m" "\<And>x. defined (f x)"
  shows "defined (io_bind m f)"
proof (rule definedI)
  fix w
  obtain r w1 where "m w = (r, w1)" by (cases "m w")
  then show "fst (io_bind m f w) \<noteq> Inl Undefined_behaviour"
    using assms unfolding defined_def by (cases r) (auto, metis fst_conv)
qed

lemma defined_then [defined_rules]: "defined m \<Longrightarrow> defined k \<Longrightarrow> defined (io_then m k)"
  unfolding io_then_def by (rule defined_bind)

lemma defined_if [defined_rules]: "(c \<Longrightarrow> defined a) \<Longrightarrow> (\<not> c \<Longrightarrow> defined b) \<Longrightarrow> defined (if c then a else b)"
  by simp

lemma defined_option [defined_rules]:
  "(x = None \<Longrightarrow> defined a) \<Longrightarrow> (\<And>y. x = Some y \<Longrightarrow> defined (b y)) \<Longrightarrow>
   defined (case x of None \<Rightarrow> a | Some y \<Rightarrow> b y)"
  by (cases x) simp_all

lemma defined_pair [defined_rules]: "(\<And>x y. defined (f x y)) \<Longrightarrow> defined (case p of (x, y) \<Rightarrow> f x y)"
  by (cases p) simp

lemma defined_for [defined_rules]: "(\<And>x. defined (f x)) \<Longrightarrow> defined (io_for xs f)"
proof (induction xs)
  case (Cons x xs)
  then show ?case unfolding io_for.simps by (intro defined_then Cons.IH Cons.prems)
qed (simp add: defined_def)

lemma write_file_defined [defined_rules]: "defined (write_file p bytes)"
  by (simp add: defined_def write_file_def)

lemma create_directories_defined [defined_rules]: "defined (create_directories p)"
proof (rule definedI)
  fix w
  have "fst (make_dirs cur cs v) \<noteq> Inl Undefined_behaviour" for cur cs v
    by (induction cur cs v rule: make_dirs.induct) (auto simp: Let_def split: option.split node.split)
  then show "fst (create_directories p w) \<noteq> Inl Undefined_behaviour"
    by (simp add: create_directories_def)
qed

lemma chunk_calls_defined [defined_rules]: "defined (put_chunk fs c)" "defined (get_chunk fs h)"
  using write_file_defined
  by (simp_all add: defined_def put_chunk_def get_chunk_def Let_def split: option.split node.split)

lemma reassemble_defined [defined_rules]: "defined (reassemble fs hs)"
proof (induction hs)
  case (Cons h hs)
  then show ?case unfolding reassemble.simps by (intro defined_rules)
qed (simp add: defined_def)

lemma materialize_defined [defined_rules]: "defined (engine_materialize e p)"
  unfolding engine_materialize_def fs_materialize_def Let_def by (intro defined_rules)

lemma save_journal_defined [defined_rules]: "defined (save_journal e)"
  unfolding save_journal_def by (intro defined_rules)

lemma ingest_defined [defined_rules]: "defined (ingest_file e p bytes)"
proof -
  have root: "defined (io_lift (if tree_empty (the (merkle_build (chunk c bytes))) then Inr (digest_of [])
    else tree_root (the (merkle_build (chunk c bytes)))))" for c
    unfolding ingest_root by (simp add: defined_def)
  have found: "defined (case store_get (se_store (e\<lparr>se_store := put_local s p hashes root sz\<rparr>)) p of
      None \<Rightarrow> io_throw Undefined_behaviour | Some entry \<Rightarrow> k entry)"
    if "\<And>entry. defined (k entry)" for s hashes root sz and k :: "FileEntry \<Rightarrow> 'b io"
    using that by (simp add: get_put_local)
  show ?thesis
    unfolding ingest_file_def Let_def
    by (intro root found defined_bind defined_then defined_for defined_pure chunk_calls_defined
        materialize_defined save_journal_defined)
qed

lemma delete_defined [defined_rules]: "defined (delete_file e p)"
  unfolding delete_file_def Let_def by (intro defined_rules)

text \<open>Parsing a journal throws at worst.\<close>

definition fine :: "'a result \<Rightarrow> bool" where
  "fine r \<longleftrightarrow> r \<noteq> Inl Undefined_behaviour"

lemma fine_bind: "fine r \<Longrightarrow> (\<And>x. fine (f x)) \<Longrightarrow> fine (res_bind r f)"
  by (cases r) (auto simp: fine_def)

lemma fine_numbers: "fine (stoi b s)" "fine (stoull s)" "fine (Inr x)"
  by (auto simp: fine_def stoi_def stoull_def Let_def split: option.split)

lemma fine_map: "(\<And>x. fine (f x)) \<Longrightarrow> fine (res_map f xs)"
  by (induction xs) (simp_all add: fine_bind fine_numbers)

lemma fine_hex: "fine (hex_to_digest s)"
  unfolding hex_to_digest_def by (intro fine_bind fine_map fine_numbers)

lemma fine_clock_pairs: "fine (clock_pairs c ps)"
  by (induction c ps rule: clock_pairs.induct) (simp_all add: Let_def fine_bind fine_numbers)

lemma fine_line: "fine (line_to_entry line)"
  unfolding line_to_entry_def clock_from_wire_def Let_def
  by (intro fine_bind fine_map fine_hex) (simp_all add: fine_numbers fine_clock_pairs)

lemma fine_lines: "fine (load_lines s ls)"
  by (induction s ls rule: load_lines.induct) (simp_all add: fine_numbers fine_bind fine_line)

lemma load_journal_defined [defined_rules]: "defined (load_journal e)"
proof (rule definedI)
  have "fine (res_bind (load_lines s ls) (\<lambda>s. Inr (e\<lparr>se_store := s\<rparr>)))" for s ls
    by (intro fine_bind fine_lines fine_numbers)
  then show "fst (load_journal e w) \<noteq> Inl Undefined_behaviour" for w
    by (simp add: load_journal_def fine_def split: option.split node.split)
qed

lemma new_node_defined [defined_rules]: "defined (new_node i d)"
  unfolding new_node_def new_engine_def new_file_store_def Let_def by (intro defined_rules)

lemma local_commands_defined:
  assumes "command \<noteq> ''listen''" "command \<noteq> ''sync''"
  shows "defined (run_command nd args command rest)"
proof -
  have "defined (io_bind (ingest_file (engine nd) p bytes) (\<lambda>(entry, e). io_return \<lparr>engine = e\<rparr>))" for p bytes
    by (intro defined_rules)
  then have "defined (add_file nd p src)" for p src
    by (simp add: defined_def add_file_def split: option.split node.split)
  then show ?thesis
    unfolding run_command_def remove_file_def list_files_def fail_with_def print_usage_def Let_def if_not_P [OF assms(1)]
      if_not_P [OF assms(2)] by (intro defined_rules)
qed

text \<open>
  Claim C39. The program ends with exit code 0 and a silent error stream, or with exit code 1
  and a message: something on the error stream or the usage text.  Every exception of the code
  below is turned into such a message.  The exception to this is undefined behaviour, which
  only the commands that talk to a peer can reach.
\<close>

theorem main_exit_codes:
  assumes "main_program lib_what args w = (r, w')"
  shows "r = Inr 0 \<and> w_err w' = w_err w \<or>
    r = Inr 1 \<and> ((\<exists>msg. msg \<noteq> [] \<and> w_err w' = w_err w @ msg) \<or> (\<exists>s. w_out w' = s @ usage)) \<or>
    r = Inl Undefined_behaviour \<and> fst (find_command args '''' []) \<in> {''listen'', ''sync''}"
proof (cases r)
  case (Inr code)
  have "reported w (r, w')" using main_reports assms unfolding reports_def by metis
  then show ?thesis by (auto simp: Inr reported_def)
next
  case (Inl e)
  obtain command rest where cmd: "find_command args '''' [] = (command, rest)" by (cases "find_command args '''' []")
  have caught: "e = Undefined_behaviour \<and> \<not> defined m"
    if "fst (io_catch m (\<lambda>ex. fail_with (h ex)) v) = Inl e" for m :: "int io" and h v
  proof -
    obtain r1 v1 where "m v = (r1, v1)" by (cases "m v")
    with that have "r1 = Inl Undefined_behaviour \<and> e = Undefined_behaviour"
      by (cases r1) (simp_all add: io_catch_def fail_with_def print_err_def split: if_splits)
    then show ?thesis unfolding defined_def using \<open>m v = (r1, v1)\<close> by (metis fst_conv)
  qed
  let ?run = "io_bind (new_node (arg_value args ''--id'') (arg_value args ''--data''))
      (\<lambda>nd. run_command nd args command rest)"
  have "fst (main_program lib_what args w) = Inr 1 \<or>
      main_program lib_what args = io_catch ?run (\<lambda>ex. fail_with (''error: '' @ what lib_what ex @ [NL]))"
    by (simp add: main_program_def Let_def cmd print_usage_def print_out_def print_err_def)
  then have "e = Undefined_behaviour \<and> \<not> defined ?run"
    using caught [of ?run "\<lambda>ex. ''error: '' @ what lib_what ex @ [NL]" w] assms Inl by auto
  moreover have "defined ?run" if "command \<noteq> ''listen''" "command \<noteq> ''sync''"
    using that by (intro defined_bind new_node_defined local_commands_defined)
  ultimately have "e = Undefined_behaviour" "command = ''listen'' \<or> command = ''sync''" by argo+
  with Inl cmd show ?thesis by simp
qed

theorem main_exit_codes_witness:
  "w_err (snd (main_program (\<lambda>e. '''') [''--id'', ''A'', ''--data'', ''/data'', ''list''] demo_world)) = ''''"
proof -
  let ?args = "[''--id'', ''A'', ''--data'', ''/data'', ''list'']"
  have "new_engine ''A'' ''/data'' demo_world = (Inr demo_engine, demo_world)"
    using new_engine_existing [OF demo_engine_at]
    by (simp add: demo_engine_def load_journal_def node_at_def journal_path_def resolve_def path_of_def
        path_start_def path_step_def demo_nodes)
  moreover have "find_command ?args '''' [] = (''list'', [])" by (simp add: is_flag_def)
  ultimately have run: "main_program (\<lambda>e. '''') ?args demo_world = (Inr 0, demo_world)"
    by (simp add: main_program_def Let_def new_node_def run_command_def list_files_def io_catch_def
        demo_engine_def new_store_def all_entries_def)
  have "w_err demo_world = ''''" by (simp add: demo_world_def fresh_world_def)
  with main_exit_codes [OF run] show ?thesis unfolding run by simp
qed

end
