(* ===== verification/Cli_Correct.thy ===== *)
theory Cli_Correct
  imports Node_Cli
begin

text \<open>
  The command line over time.  Every command is a process of its own, so what a node knows it
  knows from its directory.  A directory that holds an engine (\<open>saved\<close>) is an abstract replica:
  starting a process reads back that engine, and the commands \<^verbatim>\<open>add\<close> and \<^verbatim>\<open>rm\<close> take the
  directory of one engine to that of the engine after the edit.
\<close>

section \<open>Reading the command line\<close>

text \<open>A command line as the user means it: options with their values, and plain words.\<close>

datatype arg = Opt string string | Word string

fun arg_tokens :: "arg \<Rightarrow> string list" where
  "arg_tokens (Opt flag v) = [flag, v]"
| "arg_tokens (Word s) = [s]"

definition tokens :: "arg list \<Rightarrow> string list" where
  "tokens cmdline = concat (map arg_tokens cmdline)"

fun word_of :: "arg \<Rightarrow> string list" where
  "word_of (Opt flag v) = []"
| "word_of (Word s) = [s]"

fun first_value :: "arg list \<Rightarrow> string \<Rightarrow> string" where
  "first_value [] flag = ''''"
| "first_value (Opt f v # cmdline) flag = (if f = flag then v else first_value cmdline flag)"
| "first_value (Word s # cmdline) flag = first_value cmdline flag"

text \<open>Options are known flags; neither values nor words look like one, and words are not empty.\<close>

fun clear_arg :: "arg \<Rightarrow> bool" where
  "clear_arg (Opt flag v) \<longleftrightarrow> is_flag flag \<and> \<not> is_flag v"
| "clear_arg (Word s) \<longleftrightarrow> \<not> is_flag s \<and> s \<noteq> ''''"

lemma arg_value_skip: "a \<noteq> flag \<Longrightarrow> arg_value (a # args) flag = arg_value args flag"
  by (cases args) simp_all

lemma arg_value_tokens:
  "\<forall>a \<in> set cmdline. clear_arg a \<Longrightarrow> is_flag flag \<Longrightarrow> arg_value (tokens cmdline) flag = first_value cmdline flag"
proof (induction cmdline)
  case (Cons a cmdline)
  moreover have "s \<noteq> flag" if "\<not> is_flag s" for s using that Cons.prems(2) by auto
  ultimately show ?case by (cases a) (auto simp: tokens_def arg_value_skip)
qed (simp add: tokens_def)

lemma find_command_words:
  assumes "\<forall>a \<in> set cmdline. clear_arg a" "command \<noteq> ''''"
  shows "find_command (tokens cmdline) command rest = (command, rest @ concat (map word_of cmdline))"
  using assms(1)
proof (induction cmdline arbitrary: rest)
  case (Cons a cmdline)
  then show ?case using assms(2) by (cases a) (simp_all add: tokens_def)
qed (simp add: tokens_def)

text \<open>
  Claim C40. The command line is read as it is meant: wherever the options stand among the
  words, each option has the value given with its first occurrence, the first word is the
  command and the other words are its arguments, in order.  Values and words that are
  themselves spelled like an option are excluded; the code mistakes them for one.
\<close>

theorem command_line_read:
  assumes "\<forall>a \<in> set cmdline. clear_arg a" "concat (map word_of cmdline) = command # rest"
  shows "find_command (tokens cmdline) '''' [] = (command, rest) \<and>
    (\<forall>flag. is_flag flag \<longrightarrow> arg_value (tokens cmdline) flag = first_value cmdline flag)"
proof
  show "find_command (tokens cmdline) '''' [] = (command, rest)"
    using assms
  proof (induction cmdline)
    case (Cons a cmdline)
    show ?case
    proof (cases a)
      case (Opt flag v)
      then show ?thesis using Cons by (simp add: tokens_def)
    next
      case (Word s)
      then show ?thesis
        using Cons.prems find_command_words [of cmdline command "[]"] by (simp add: tokens_def)
    qed
  qed simp
qed (use arg_value_tokens assms(1) in blast)

theorem command_line_read_witness:
  "find_command [''--id'', ''A'', ''add'', ''--data'', ''d'', ''p'', ''f''] '''' [] = (''add'', [''p'', ''f'']) \<and>
   arg_value [''--id'', ''A'', ''add'', ''--data'', ''d'', ''p'', ''f''] ''--data'' = ''d''"
  using command_line_read [of "[Opt ''--id'' ''A'', Word ''add'', Opt ''--data'' ''d'', Word ''p'', Word ''f'']"
      "''add''" "[''p'', ''f'']"]
  by (simp add: tokens_def is_flag_def)

section \<open>A directory that holds an engine\<close>

definition saved :: "SyncEngine \<Rightarrow> world \<Rightarrow> string list \<Rightarrow> bool" where
  "saved e w D \<longleftrightarrow> engine_at e w D \<and> (\<forall>en \<in> set (all_entries (se_store e)). line_safe en) \<and>
     (case w_nodes w (D @ [''store.meta'']) of
        Some (File b) \<Rightarrow> b = bytes_of_text (journal_text (se_store e))
      | _ \<Rightarrow> se_store e = new_store (se_node_id e))"

lemma saved_start:
  assumes "saved e w D"
  shows "new_engine (se_node_id e) (se_data_dir e) w = (Inr e, w)"
proof -
  let ?new = "e\<lparr>se_store := new_store (se_node_id e)\<rparr>"
  have at: "engine_at e w D" "\<forall>en \<in> set (all_entries (se_store e)). line_safe en"
    using assms by (simp_all add: saved_def)
  then have wf: "cs_node_id (se_store e) = se_node_id e" "store_wf (se_store e)"
    by (simp_all add: engine_at_def)
  have journal: "node_at w (path_of (journal_path ?new)) = w_nodes w (D @ [''store.meta''])"
    using resolve_journal [OF at(1)] by (simp add: node_at_def journal_path_def)
  have "load_journal ?new w = (Inr e, w)"
  proof (cases "w_nodes w (D @ [''store.meta''])")
    case None
    then have "?new = e" using assms by (simp add: saved_def)
    then show ?thesis using journal None by (simp add: load_journal_def)
  next
    case (Some node)
    then obtain b where b: "node = File b" using at(1) by (cases node) (auto simp: engine_at_def)
    then have "b = bytes_of_text (journal_text (se_store e))" using assms Some by (simp add: saved_def)
    moreover have "load_lines (new_store (se_node_id e)) (getlines NL (journal_text (se_store e))) = Inr (se_store e)"
      using reload_iff [OF wf(2)] at(2) wf(1) by simp
    ultimately show ?thesis using journal Some b by (simp add: load_journal_def comp_def)
  qed
  then show ?thesis unfolding new_engine_existing [OF at(1)] .
qed

text \<open>Names that fit the journal.\<close>

definition journal_name :: "string \<Rightarrow> bool" where
  "journal_name n \<longleftrightarrow> set n \<inter> {TAB, NL, CHR '','', CHR '':''} = {}"

lemma line_safe_edit:
  assumes "\<forall>en \<in> set (all_entries s). line_safe en" "store_wf s" "journal_name node"
    and "TAB \<notin> set p" "NL \<notin> set p"
    and "fe_path en = p" "fe_last_writer en = node"
    and "fe_clock en = increment (case store_get s p of None \<Rightarrow> om_empty | Some old \<Rightarrow> fe_clock old) node"
  shows "line_safe en"
proof -
  have "line_safe old" if "store_get s p = Some old" for old
    using that assms(1,2) all_entries_get [OF assms(2)] by (simp add: store_wf_iff)
  then show ?thesis
    using assms(3-)
    by (cases "store_get s p")
      (auto simp: line_safe_def codec_safe_def clock_safe_def entry_names_def increment_def keys_put_item
        journal_name_def)
qed

lemma entries_safe_update:
  assumes "\<forall>en \<in> set (all_entries s). line_safe en" "store_wf s" "store_wf s'"
    and "store_get s' p = Some entry" "line_safe entry"
    and "\<And>q. q \<noteq> p \<Longrightarrow> store_get s' q = store_get s q"
  shows "\<forall>en \<in> set (all_entries s'). line_safe en"
proof
  fix en
  assume "en \<in> set (all_entries s')"
  then have "store_get s' (fe_path en) = Some en" using all_entries_get [OF assms(3)] by blast
  then show "line_safe en"
    using assms all_entries_get [OF assms(2)] by (cases "fe_path en = p") auto
qed

lemma saved_journal:
  "engine_at e w D \<Longrightarrow> \<forall>en \<in> set (all_entries (se_store e)). line_safe en \<Longrightarrow>
   w_nodes w (D @ [''store.meta'']) = Some (File (bytes_of_text (journal_text (se_store e)))) \<Longrightarrow> saved e w D"
  by (simp add: saved_def)

section \<open>Commands\<close>

text \<open>The command line of a node with this engine.\<close>

definition command_line :: "SyncEngine \<Rightarrow> string list \<Rightarrow> string list" where
  "command_line e words = [''--id'', se_node_id e, ''--data'', se_data_dir e] @ words"

text \<open>
  What the command line needs of a node's names: they are not empty and not mistaken for an
  option, and the node's id can be written to the journal.
\<close>

definition named :: "SyncEngine \<Rightarrow> bool" where
  "named e \<longleftrightarrow> se_node_id e \<noteq> '''' \<and> se_data_dir e \<noteq> '''' \<and> se_node_id e \<noteq> ''--data'' \<and> journal_name (se_node_id e)"

lemma safe_rel_neq_Nil: "safe_rel p \<Longrightarrow> p \<noteq> []"
  by (cases p) (simp_all add: safe_rel_def plain_def)

lemma node_at_neq_Nil: "node_at w (path_of s) = Some n \<Longrightarrow> s \<noteq> []"
  by (cases s) (simp_all add: node_at_def resolve_def path_of_def)

lemma main_saved:
  assumes "saved e w D" "named e" "\<forall>a \<in> set (c # ws). \<not> is_flag a \<and> a \<noteq> ''''"
  shows "main_program lib_what (command_line e (c # ws)) w =
    io_catch (run_command \<lparr>engine = e\<rparr> (command_line e (c # ws)) c ws)
      (\<lambda>ex. fail_with (''error: '' @ what lib_what ex @ [NL])) w"
proof -
  have "find_command (map id (c # ws)) '''' [] = (c, ws)"
    using find_command_words [of "map Word ws" c "[]"] assms(3)
    by (simp add: tokens_def comp_def)
  then have "find_command (command_line e (c # ws)) '''' [] = (c, ws)"
    by (simp add: command_line_def is_flag_def)
  moreover have "arg_value (command_line e (c # ws)) ''--id'' = se_node_id e"
    "arg_value (command_line e (c # ws)) ''--data'' = se_data_dir e"
    using assms(2) by (simp_all add: command_line_def named_def)
  moreover have "command_line e (c # ws) \<noteq> []" by (simp add: command_line_def)
  ultimately show ?thesis
    using assms(2) saved_start [OF assms(1)]
    by (simp add: main_program_def Let_def named_def new_node_def io_catch_def io_bind_def)
qed


text \<open>The empty node of the other examples, with a source file beside its directory.\<close>

definition source_world :: world where
  "source_world = demo_world\<lparr>w_nodes := (w_nodes demo_world)([''notes''] \<mapsto> File [7])\<rparr>"

lemma source_nodes:
  "w_nodes source_world q = (if q = [''notes''] then Some (File [7]) else w_nodes demo_world q)"
  by (simp add: source_world_def)

lemma source_saved: "saved demo_engine source_world [''data'']"
proof -
  have "tree_ok source_world"
    using demo_tree_ok by (auto simp: tree_ok_def source_world_def demo_nodes)
  moreover have "fs_le demo_world source_world"
    by (simp add: fs_le_def source_world_def demo_nodes)
  ultimately have "engine_at (demo_engine\<lparr>se_store := se_store demo_engine\<rparr>) source_world [''data'']"
    by (intro engine_at_kept [OF demo_engine_at])
      (simp_all add: source_nodes demo_nodes demo_engine_def new_store_def store_wf_def)
  then show ?thesis
    by (simp add: saved_def source_nodes demo_nodes) (simp add: demo_engine_def new_store_def all_entries_def)
qed

lemma compatible_fresh:
  assumes "engine_at e w D" "\<And>h. w_nodes w (D @ [''blobstore'', ''chunks'', chunk_name h]) = None"
  shows "compatible (se_blobs e) w (chunk (se_chunker e) [b])"
proof -
  obtain ck where ck: "chunk (se_chunker e) [b] = [ck]" using chunk_single by blast
  have "blob (se_blobs e) w h = None" for h
    using assms blob_at [of "se_blobs e" w "D @ [''blobstore'', ''chunks'']" h] by (simp add: engine_at_def)
  with ck show ?thesis by (simp add: compatible_def)
qed

lemma source_names: "named demo_engine" "safe_rel ''notes''" "\<not> is_flag ''notes''" "\<not> is_flag ''/notes''"
  by (simp_all add: named_def journal_name_def demo_engine_def safe_rel_def plain_def is_flag_def)




section \<open>The first start\<close>

text \<open>
  A data directory that does not exist yet, given by ordinary names, with nothing but
  directories on the way to it.
\<close>

definition fresh_dir :: "world \<Rightarrow> string \<Rightarrow> string list \<Rightarrow> bool" where
  "fresh_dir w d D \<longleftrightarrow> tree_ok w \<and> d \<noteq> [] \<and> NUL \<notin> set d \<and> (\<forall>c \<in> set (comps (path_of d)). plain c) \<and>
     D = path_start w (path_of d) @ comps (path_of d) \<and> w_nodes w D = None \<and>
     (\<forall>ys b. prefix ys (comps (path_of d)) \<longrightarrow> w_nodes w (path_start w (path_of d) @ ys) \<noteq> Some (File b))"

lemma chunk_dir_path:
  "d \<noteq> [] \<Longrightarrow> path_of ((d @ ''/blobstore'') @ ''/chunks'') =
     Path (absolute (path_of d)) (comps (path_of d) @ [''blobstore'', ''chunks''])"
  using path_of_child [of d "''blobstore/chunks''"] by simp

lemma fresh_dir_paths:
  assumes "fresh_dir w d D"
  defines "cs \<equiv> comps (path_of d)" and "sub \<equiv> [''blobstore'', ''chunks'']"
  shows "cut_nul (cs @ sub) = cs @ sub" "cut_nul cs = cs"
    and "\<not> is_empty_path (path_of d)" "\<not> is_empty_path (Path (absolute (path_of d)) (cs @ sub))"
proof -
  have d: "d \<noteq> []" "\<forall>c \<in> set cs. plain c"
    using assms(1) by (simp_all add: fresh_dir_def cs_def)
  moreover have "\<forall>c \<in> set sub. plain c" using plain_names by (simp add: sub_def)
  ultimately have nul: "\<forall>c \<in> set (cs @ sub). NUL \<notin> set c" "\<forall>c \<in> set cs. NUL \<notin> set c"
    unfolding plain_def set_append by blast+
  show cut: "cut_nul (cs @ sub) = cs @ sub" "cut_nul cs = cs"
    by (rule cut_nul_id [OF nul(1)], rule cut_nul_id [OF nul(2)])
  have "cs \<noteq> []" using d(1) by (auto simp: cs_def path_of_def)
  moreover from this have "plain (hd cs)" using d(2) hd_in_set by blast
  ultimately have "cs \<noteq> []" "hd cs \<noteq> []" by (simp_all add: plain_def)
  then show "\<not> is_empty_path (path_of d)" "\<not> is_empty_path (Path (absolute (path_of d)) (cs @ sub))"
    using cut(2) unfolding is_empty_path.simps cut(1) by (cases "path_of d", simp add: cs_def, simp)
qed

lemma fresh_dir_made:
  assumes "fresh_dir w d D"
  obtains w' where "create_directories (path_of ((d @ ''/blobstore'') @ ''/chunks'')) w = (Inr (), w')"
    "tree_ok w'" "resolve w' (path_of d) = Some D" "w_nodes w' D = Some Dir"
    "resolve w' (path_of ((d @ ''/blobstore'') @ ''/chunks'')) = Some (D @ [''blobstore'', ''chunks''])"
    "w_nodes w' (D @ [''blobstore'', ''chunks'']) = Some Dir"
    "\<And>y ys. \<not> prefix (y # ys) [''blobstore'', ''chunks''] \<Longrightarrow> w_nodes w' (D @ y # ys) = None"
proof -
  let ?p = "path_of d" and ?sub = "[''blobstore'', ''chunks'']"
  let ?st = "path_start w ?p" and ?cs = "comps ?p"
  have d: "tree_ok w" "d \<noteq> []" "NUL \<notin> set d" "\<forall>c \<in> set ?cs. plain c" "D = ?st @ ?cs"
    "\<forall>ys b. prefix ys ?cs \<longrightarrow> w_nodes w (?st @ ys) \<noteq> Some (File b)"
    using assms unfolding fresh_dir_def by simp_all
  have "w_nodes w D = None" using assms unfolding fresh_dir_def by (elim conjE)
  then have none: "w_nodes w (D @ ys) = None" for ys by (rule tree_below_none [OF d(1)])
  have plain: "\<forall>c \<in> set (?cs @ ?sub). plain c" using d(4) plain_names by auto
  have "w_nodes w (?st @ ys) \<noteq> Some (File b)" if "prefix ys (?cs @ ?sub)" for ys b
    using that d(6) none unfolding prefix_append d(5) by auto
  then have free: "\<forall>ys b. prefix ys (?cs @ ?sub) \<longrightarrow> w_nodes w (?st @ ys) \<noteq> Some (File b)" by blast
  obtain w' where w': "make_dirs ?st (?cs @ ?sub) w = (Inr (), w')" "tree_ok w'" "fs_le w w'"
    "walk w' ?st (?cs @ ?sub) = Some (?st @ ?cs @ ?sub)" "w_nodes w' (?st @ ?cs @ ?sub) = Some Dir"
    "\<forall>x. w_nodes w' x \<noteq> w_nodes w x \<longrightarrow> (\<exists>ys. x = ?st @ ys \<and> prefix ys (?cs @ ?sub))"
    using make_place [OF d(1) plain path_start_dir [OF d(1)] free] by (elim exE conjE) (rule that)
  have st: "path_start w' q = path_start w q" for q
    using w'(3) by (simp add: path_start_def fs_le_def)
  note cut = fresh_dir_paths(1,2) [OF assms] and nonempty = fresh_dir_paths(3,4) [OF assms]
  obtain q where q: "walk w' ?st ?cs = Some q" "walk w' q ?sub = Some (?st @ ?cs @ ?sub)"
    using w'(4) unfolding walk_append bind_eq_Some_conv by (elim exE conjE) (rule that)
  have "q = D" using walk_plain [OF q(1) d(4)] d(5) by simp
  have "create_directories (path_of ((d @ ''/blobstore'') @ ''/chunks'')) w = (Inr (), w')"
    unfolding chunk_dir_path [OF d(2)]
    using nonempty(2) w'(1) cut(1) by (simp add: create_directories_def path_start_def)
  moreover have "resolve w' ?p = Some D"
    using nonempty(1) q(1) \<open>q = D\<close> cut(2) st by (simp add: resolve_def)
  moreover have "w_nodes w' D = Some Dir"
    using q(2) \<open>q = D\<close> by (cases "w_nodes w' D = Some Dir") simp_all
  moreover have "resolve w' (path_of ((d @ ''/blobstore'') @ ''/chunks'')) = Some (D @ ?sub)"
    unfolding chunk_dir_path [OF d(2)]
    using nonempty(2) w'(4) cut(1) st d(5) by (simp add: resolve_def path_start_def)
  moreover have "w_nodes w' (D @ y # ys) = None" if "\<not> prefix (y # ys) ?sub" for y ys
  proof (rule ccontr)
    assume "w_nodes w' (D @ y # ys) \<noteq> None"
    then obtain zs where "D @ y # ys = ?st @ zs" "prefix zs (?cs @ ?sub)"
      using w'(6) none [of "y # ys"] by metis
    moreover from this have "zs = ?cs @ y # ys" using d(5) by simp
    ultimately show False using that by (simp del: prefix_Cons)
  qed
  ultimately show ?thesis
    using w'(2,5) d(5) by (intro that [of w']) simp_all
qed

text \<open>
  Claim C38. The first start: on a data directory that does not exist yet the constructor
  succeeds, creates the directory with an empty chunk store, and the node is saved there as the
  empty replica, from which the commands go on.
\<close>

theorem first_start_saved:
  assumes "fresh_dir w d D"
  shows "\<exists>e w'. new_engine i d w = (Inr e, w') \<and> saved e w' D \<and>
    se_node_id e = i \<and> se_data_dir e = d \<and> se_store e = new_store i"
proof -
  define e where "e = \<lparr>se_node_id = i, se_data_dir = d, se_materialized_dir = d @ ''/files'',
     se_chunker = default_chunker, se_blobs = \<lparr>fs_root = d @ ''/blobstore''\<rparr>, se_store = new_store i\<rparr>"
  obtain w' where w': "create_directories (path_of ((d @ ''/blobstore'') @ ''/chunks'')) w = (Inr (), w')"
    "tree_ok w'" "resolve w' (path_of d) = Some D" "w_nodes w' D = Some Dir"
    "resolve w' (path_of ((d @ ''/blobstore'') @ ''/chunks'')) = Some (D @ [''blobstore'', ''chunks''])"
    "w_nodes w' (D @ [''blobstore'', ''chunks'']) = Some Dir"
    and none: "\<And>y ys. \<not> prefix (y # ys) [''blobstore'', ''chunks''] \<Longrightarrow> w_nodes w' (D @ y # ys) = None"
    using fresh_dir_made [OF assms] by metis
  have nul: "NUL \<notin> set d" using assms by (simp add: fresh_dir_def)
  have store: "store_at (se_blobs e) w' (D @ [''blobstore'', ''chunks''])"
    using w'(2,5,6) nul none [of "''blobstore''"] by (simp add: store_at_def e_def)
  have at: "engine_at e w' D"
    using w'(3,4) nul store none [of "''store.meta''" "[]"]
    by (simp add: engine_at_def e_def new_store_def store_wf_def)
  have new: "e\<lparr>se_store := new_store (se_node_id e)\<rparr> = e" by (simp add: e_def)
  have saved: "saved e w' D"
    using at none [of "''store.meta''" "[]"] by (simp add: saved_def e_def new_store_def all_entries_def)
  have "new_engine i d w = new_engine i d w'"
    using w'(1) create_directories_existing [OF w'(5,6)]
    by (simp add: new_engine_def new_file_store_def io_bind_def io_then_def)
  with saved_start [OF saved] show ?thesis
    using saved by (intro exI [of _ e] exI [of _ w']) (simp add: e_def)
qed

theorem first_start_saved_witness:
  "\<exists>e w'. new_engine ''B'' ''/new'' demo_world = (Inr e, w') \<and> saved e w' [''new'']"
proof -
  have "fresh_dir demo_world ''/new'' [''new'']"
    using demo_tree_ok
    by (simp add: fresh_dir_def path_of_def path_start_def plain_def demo_nodes prefix_Cons)
  from first_start_saved [OF this, of "''B''"] show ?thesis by blast
qed

end
