(* ===== verification/Spec2Isabelle.thy ===== *)
theory Spec2Isabelle
  imports Merkle_Tree Session_Progress Cli_Correct
begin

text \<open>
  Verification of a peer-to-peer file synchronization engine in C++ (\<^verbatim>\<open>src/\<close>).

  \<^bold>\<open>The program.\<close>  A node keeps files in a data directory.  A file is cut into content-defined
  chunks (\<^verbatim>\<open>chunker\<close>, \<^verbatim>\<open>rolling_hash\<close>), each named by its hash (\<^verbatim>\<open>sha256\<close>), and summarised by a
  Merkle root (\<^verbatim>\<open>merkle_tree\<close>).  Versions carry vector clocks (\<^verbatim>\<open>vector_clock\<close>) and live in a
  replicated store that merges the versions of other nodes (\<^verbatim>\<open>crdt_store\<close>, \<^verbatim>\<open>file_entry\<close>).
  Chunks are files in a blob directory (\<^verbatim>\<open>file_store\<close>); the metadata is a journal of text lines
  (\<^verbatim>\<open>entry_codec\<close>).  The engine (\<^verbatim>\<open>sync_engine\<close>) ties these together; two nodes synchronise
  over TCP (\<^verbatim>\<open>network\<close>); \<^verbatim>\<open>node\<close> and \<^verbatim>\<open>main\<close> are the command line.

  \<^bold>\<open>The theories\<close>, in the order of their imports:

  \<^item> \<open>P2P_Prelude\<close>: exceptions as values (\<open>error\<close>, \<open>'a result\<close>), ordered maps for
    \<^verbatim>\<open>std::map\<close>, \<^verbatim>\<open>std::getline\<close>, decimal printing, bytes and big-endian words.
  \<^item> \<open>Sha256\<close> (\<^verbatim>\<open>sha256.cpp\<close>): the buffered context on 32-bit words; it computes the block function
    on the padded message, for every message, but its padding is never that of the standard.
  \<^item> \<open>Vector_Clock\<close> (\<^verbatim>\<open>vector_clock.cpp\<close>): counters are 64-bit words; comparison decides the
    pointwise order, merging is the least upper bound, an increment goes strictly forward
    unless the counter wraps.
  \<^item> \<open>Crdt_Store\<close> (\<^verbatim>\<open>crdt_store.cpp\<close>, \<^verbatim>\<open>file_entry.hpp\<close>): local edits and the merge with all four
    outcomes; convergence for versions that are not concurrent, what conflicts keep and lose.
  \<^item> \<open>Chunker\<close> (\<^verbatim>\<open>chunker.cpp\<close>, the gear table): losslessness, size bounds, stability of the
    chunks before and after an edit.
  \<^item> \<open>Merkle_Tree\<close> (\<^verbatim>\<open>merkle_tree.cpp\<close>): building, comparison of trees, what a root identifies.
  \<^item> \<open>Entry_Codec\<close> (\<^verbatim>\<open>entry_codec.cpp\<close>): the line format and exactly which entries survive it.
  \<^item> \<open>System_World\<close>: the world outside (files, streams, one TCP connection, descriptors) as a
    record, effects as functions on it, paths and the file system calls in use.
  \<^item> \<open>File_Store\<close> (\<^verbatim>\<open>file_store.cpp\<close>): chunks on disk as a content store, files written out.
  \<^item> \<open>Sync_Engine\<close> (\<^verbatim>\<open>sync_engine.cpp\<close>): the engine's invariant, adding and deleting files,
    restarting from the journal.
  \<^item> \<open>Framing\<close> and \<open>Tcp_Socket\<close> (\<^verbatim>\<open>network.cpp\<close>, first half): frames over system calls that move
    as many bytes as they like; the socket class, connecting and accepting.
  \<^item> \<open>Sync_Session\<close> (\<^verbatim>\<open>network.cpp\<close>, second half): payloads and the session in its phases.
  \<^item> \<open>Session_Correct\<close>: two peers that read what the other sends are synchronised; sessions
    that fail.
  \<^item> \<open>Session_Progress\<close>: the two peers side by side over bounded buffers, and when they finish.
  \<^item> \<open>Session_Frame\<close>: what engine and session leave alone in the world.
  \<^item> \<open>Node_Cli\<close> (\<^verbatim>\<open>node.cpp\<close>, \<^verbatim>\<open>main.cpp\<close>): node, argument parsing, commands, exit codes; no
    run leaks a descriptor.
  \<^item> \<open>Cli_Correct\<close>: commands as processes that hand the node on through its directory.

  \<^bold>\<open>State and effects.\<close>  Classes are records with the members of the source, their methods
  functions that take and return the object.  Code with effects has type \<open>'a io\<close>: it takes the
  world and returns a result or an exception, with the world it leaves behind.  The statements of
  a function are composed with \<open>io_bind\<close>, \<open>io_then\<close> and \<open>io_for\<close> in the order of the source.
  Undefined behaviour is an error value of its own, which no handler catches.

  \<^bold>\<open>Interfaces.\<close>  Locales state what one part relies on in another: the order of versions that
  the merge needs from the clocks, the content store that engine and session need from the
  blob directory, the chunks that the engine needs from the chunker, the part of the world that
  engine and session do not touch.  Each is interpreted on the definitions of the model.

  \<^bold>\<open>Bounds.\<close>  Recursion that is not structural has a termination proof (the loops over buffers,
  frames and payloads shrink their input), except the recursion of the Merkle tree and the two
  hash loops, which are partial functions with an optional result; that they return for every
  input is proved.  No definition runs on fuel.  Integers of the source are words where they can wrap:
  clock counters and sizes (64 bits), hash words, frame and chunk lengths (32 bits), ports (16
  bits); leaf indices are cast to \<^verbatim>\<open>int\<close> as in the source.

  \<^bold>\<open>What the world leaves open\<close> is an argument or a hypothesis: the number of bytes each
  \<^verbatim>\<open>send\<close> and \<^verbatim>\<open>recv\<close> moves, which calls fail, what a host name resolves to, the text of the
  exceptions of the standard library, the capacity of the socket buffers.  That no two chunks in
  question have the same hash is a hypothesis where it is needed, stated for the chunks at hand.

  \<^bold>\<open>Not modelled.\<close>  Symbolic links, permissions, full disks and over-long names of the file
  system; signals (a \<^verbatim>\<open>send\<close> on a closed connection returns an error here); \<^verbatim>\<open>setsockopt\<close>,
  whose result the source ignores; the interleaving of several processes on one data directory.
  The test programs (\<^verbatim>\<open>test_*.cpp\<close>) and the build files have no behaviour of their own.
\<close>

end
